(* ===== verification/Prelude.thy ===== *)
theory Prelude
  imports Main "HOL-Library.Word"
begin

unbundle bit_operations_syntax

text \<open>
  Shared vocabulary of the development: Rust's integer types as words, byte strings, time,
  \<^verbatim>\<open>ControlFlow\<close>, \<^verbatim>\<open>HashMap\<close>, the constants of \<open>crates/net/src/consts.rs\<close>, and the
  generic list and map lemmas that several components use.
\<close>

section \<open>Rust types\<close>

type_synonym u8 = "8 word"
type_synonym u16 = "16 word"
type_synonym u32 = "32 word"
type_synonym u64 = "64 word"

text \<open>An \<open>i32\<close> is a 32-bit word read by \<^const>\<open>sint\<close>; the program only stores and forwards it.\<close>

type_synonym i32 = "32 word"

text \<open>
  An \<open>f32\<close> is its 32-bit pattern: the servers store coordinates and echo them, and never compute
  with them. \<open>0.0\<close> is the pattern 0.
\<close>

type_synonym f32 = "32 word"

type_synonym bytes = "u8 list"

text \<open>
  \<open>Instant\<close> and \<open>Duration\<close> count nanoseconds. \<open>Instant::duration_since\<close> saturates at zero when its
  argument is later, which is what \<open>-\<close> does on \<open>nat\<close>.
\<close>

type_synonym instant = nat
type_synonym duration = nat

definition from_secs :: "nat \<Rightarrow> duration" where
  "from_secs n = n * 1000000000"

definition from_millis :: "nat \<Rightarrow> duration" where
  "from_millis n = n * 1000000"

definition duration_since :: "instant \<Rightarrow> instant \<Rightarrow> duration" where
  "duration_since now t = now - t"

datatype control_flow = Continue | Break

section \<open>Hash maps\<close>

text \<open>
  A \<open>HashMap<K, V>\<close> is a partial function: \<open>get\<close> is application, \<open>insert\<close> is \<open>m(k \<mapsto> v)\<close> and
  \<open>remove\<close> is \<open>m(k := None)\<close>. \<open>retain\<close> with a closure that also mutates the value keeps what the
  closure returns; \<open>len\<close> is the size of the domain.
\<close>

definition hm_retain :: "('k \<Rightarrow> 'v \<Rightarrow> 'v option) \<Rightarrow> ('k \<rightharpoonup> 'v) \<Rightarrow> ('k \<rightharpoonup> 'v)" where
  "hm_retain f m = (\<lambda>k. case m k of None \<Rightarrow> None | Some v \<Rightarrow> f k v)"

definition hm_len :: "('k \<rightharpoonup> 'v) \<Rightarrow> nat" where
  "hm_len m = card (dom m)"

named_theorems map_simps "lookups in updated, retained and emptied hash maps"

lemma hm_retain_apply [map_simps]:
  "hm_retain f m k = (case m k of None \<Rightarrow> None | Some v \<Rightarrow> f k v)"
  by (simp add: hm_retain_def)

lemma hm_retain_empty [simp]: "hm_retain f Map.empty = Map.empty"
  by (simp add: hm_retain_def)

lemma dom_hm_retain: "dom (hm_retain f m) \<subseteq> dom m"
  by (auto simp: hm_retain_def split: option.splits)

lemma finite_dom_hm_retain [intro]: "finite (dom m) \<Longrightarrow> finite (dom (hm_retain f m))"
  by (rule finite_subset [OF dom_hm_retain])

lemma hm_len_insert [map_simps]:
  "finite (dom m) \<Longrightarrow> hm_len (m(k \<mapsto> v)) = (if m k = None then Suc (hm_len m) else hm_len m)"
  by (simp add: hm_len_def card_insert_if domIff)

lemma hm_len_remove [map_simps]:
  "finite (dom m) \<Longrightarrow> hm_len (m(k := None)) = (if m k = None then hm_len m else hm_len m - 1)"
  by (simp add: hm_len_def domIff)

section \<open>Constants\<close>

text \<open>\<open>crates/net/src/consts.rs\<close>.\<close>

definition MAX_BUFFER_SIZE :: nat where
  "MAX_BUFFER_SIZE = 8192"

definition MAX_MESSAGE_BODY_SIZE :: nat where
  "MAX_MESSAGE_BODY_SIZE = MAX_BUFFER_SIZE - 2"

definition MAX_SEND_QUEUE_SIZE :: nat where
  "MAX_SEND_QUEUE_SIZE = 200"

definition MAX_MESSAGE_CHANNEL_CAPACITY :: nat where
  "MAX_MESSAGE_CHANNEL_CAPACITY = 1000"

definition FLOOD_WINDOW :: duration where
  "FLOOD_WINDOW = from_secs 10"

definition MAX_CONNECTIONS_PER_WINDOW :: nat where
  "MAX_CONNECTIONS_PER_WINDOW = 30"

definition BAN_DURATION :: duration where
  "BAN_DURATION = from_secs (10 * 60)"

definition KEEP_ALIVE_INTERVAL :: duration where
  "KEEP_ALIVE_INTERVAL = from_secs 3"

definition KEEP_ALIVE_TIMEOUT :: duration where
  "KEEP_ALIVE_TIMEOUT = from_secs 10"

lemmas const_defs =
  MAX_BUFFER_SIZE_def MAX_MESSAGE_BODY_SIZE_def MAX_SEND_QUEUE_SIZE_def
  MAX_MESSAGE_CHANNEL_CAPACITY_def FLOOD_WINDOW_def MAX_CONNECTIONS_PER_WINDOW_def
  BAN_DURATION_def KEEP_ALIVE_INTERVAL_def KEEP_ALIVE_TIMEOUT_def from_secs_def from_millis_def

section \<open>Generic lemmas\<close>

text \<open>Dropping by a weaker test after a stronger one is dropping by the weaker test.\<close>

lemma dropWhile_dropWhile_weaker:
  "(\<And>x. P x \<Longrightarrow> Q x) \<Longrightarrow> dropWhile Q (dropWhile P xs) = dropWhile Q xs"
  by (induction xs) auto

lemma dropWhile_append_all:
  "dropWhile P (dropWhile Q xs @ ys) = dropWhile P (xs @ ys)" if "\<And>x. Q x \<Longrightarrow> P x"
  using that by (induction xs) auto

lemma dropWhile_eq_filter_sorted:
  assumes "sorted xs" and "\<And>x y. x \<le> y \<Longrightarrow> P y \<Longrightarrow> P x"
  shows "dropWhile P xs = filter (\<lambda>x. \<not> P x) xs"
  using assms(1)
proof (induction xs)
  case Nil
  show ?case by simp
next
  case (Cons x xs)
  show ?case
  proof (cases "P x")
    case True
    with Cons show ?thesis by simp
  next
    case False
    with Cons.prems assms(2) have "\<forall>y\<in>set xs. \<not> P y" by auto
    with False show ?thesis by (simp add: filter_id_conv)
  qed
qed

lemma length_filter_mono:
  "(\<And>x. x \<in> set xs \<Longrightarrow> P x \<Longrightarrow> Q x) \<Longrightarrow> length (filter P xs) \<le> length (filter Q xs)"
  by (induction xs) auto

end
