(* ===== verification/Proto.thy ===== *)
theory Proto
  imports Prelude
begin

text \<open>
  The message types of \<open>crates/proto/proto/message.proto\<close>, with the names and fields of the schema.
  Strings are the bytes of their UTF-8 form. The protobuf encoding itself is generated code of the
  \<open>prost\<close> crate, which is not part of the repository: it is the parameter \<open>prost\<close> below.
\<close>

datatype payload =
    ConnectedResponse (cr_index: i32)
  | KeepAliveNoti
  | KeepAliveRequest
  | EnterWorldRequest (ew_world_id: u64)
  | EnterWorldResponse (ew_success: bool)
  | LoginRequest (lq_user_id: string) (lq_password_hash: bytes)
  | LoginResponse (lr_success: bool) (lr_error_code: i32) (lr_auth_token: string)
  | ErrorResponse (er_error_code: i32)
  | GameOverReport (go_score: i32) (go_kill_count: i32) (go_survive_seconds: i32)
  | GameOverResponse (gr_success: bool)
  | MoveRequest (mq_x: f32) (mq_y: f32)
  | MoveResponse (mr_success: bool) (mr_x: f32) (mr_y: f32)
  | GameConnectRequest (gq_auth_token: string)
  | GameConnectResponse (gc_success: bool) (gc_error_code: i32)

record message_wrapper =
  message_size :: i32
  wrapped :: "payload option"

text \<open>
  What the program uses of \<open>prost::Message\<close>: \<open>encoded_len\<close>, \<open>encode\<close> and \<open>decode\<close>, for any
  message type. \<open>prost_laws\<close> is their documented contract: \<open>encoded_len\<close> is the length of the
  encoding, and decoding an encoding gives the message back.
\<close>

record 'm prost =
  pm_encoded_len :: "'m \<Rightarrow> nat"
  pm_encode :: "'m \<Rightarrow> bytes"
  pm_decode :: "bytes \<Rightarrow> 'm option"

definition prost_laws :: "'m prost \<Rightarrow> bool" where
  "prost_laws p \<longleftrightarrow>
     (\<forall>m. pm_encoded_len p m = length (pm_encode p m)) \<and>
     (\<forall>m. pm_decode p (pm_encode p m) = Some m)"

lemma prost_lawsD:
  assumes "prost_laws p"
  shows "pm_encoded_len p m = length (pm_encode p m)"
    and "pm_decode p (pm_encode p m) = Some m"
  using assms by (simp_all add: prost_laws_def)

text \<open>Raw byte bodies satisfy the contract; the witnesses use this instance.\<close>

definition raw_prost :: "bytes prost" where
  "raw_prost = \<lparr>pm_encoded_len = length, pm_encode = id, pm_decode = Some\<rparr>"

lemma prost_laws_raw [simp]: "prost_laws raw_prost"
  by (simp add: prost_laws_def raw_prost_def)

end
