(* ===== verification/Proto_Instance.thy ===== *)
theory Proto_Instance
  imports Proto
begin

text \<open>
  A concrete encoding of the schema of \<^verbatim>\<open>Proto\<close> that satisfies the contract of \<open>prost\<close>. It is not
  the encoding the servers use; it shows that the contract can hold, and the witnesses of
  theorems about messages on the wire run on it. Numbers are little-endian, lists
  are terminated: each element after a byte 1, and a byte 0 at the end.
\<close>

fun put_list :: "bytes \<Rightarrow> bytes" where
  "put_list [] = [0]"
| "put_list (b # bs) = 1 # b # put_list bs"

fun get_list :: "bytes \<Rightarrow> (bytes \<times> bytes) option" where
  "get_list [] = None"
| "get_list (c # cs) =
     (if c = 0 then Some ([], cs)
      else case cs of
        [] \<Rightarrow> None
      | b # rest \<Rightarrow> (case get_list rest of None \<Rightarrow> None | Some (bs, r) \<Rightarrow> Some (b # bs, r)))"

lemma get_put_list [simp]: "get_list (put_list bs @ r) = Some (bs, r)"
  by (induction bs) auto

definition put_string :: "string \<Rightarrow> bytes" where
  "put_string s = put_list (map of_char s)"

definition get_string :: "bytes \<Rightarrow> (string \<times> bytes) option" where
  "get_string b = map_option (\<lambda>(s, r). (map (\<lambda>w. char_of (unat w)) s, r)) (get_list b)"

lemma char_of_unat_of_char [simp]: "char_of (unat (of_char c :: u8)) = c"
proof -
  have "unat (of_char c :: u8) = (of_char c mod 2 ^ LENGTH(8) :: nat)"
    by (simp only: of_nat_of_char [symmetric, where 'a = u8] unat_of_nat)
  also have "\<dots> = of_char c" using nat_of_char_less_256 [of c] by simp
  finally show ?thesis by simp
qed

lemma get_put_string [simp]: "get_string (put_string s @ r) = Some (s, r)"
  by (simp add: get_string_def put_string_def comp_def)

definition put_32 :: "u32 \<Rightarrow> bytes" where
  "put_32 w = [ucast w, ucast (drop_bit 8 w), ucast (drop_bit 16 w), ucast (drop_bit 24 w)]"

fun get_32 :: "bytes \<Rightarrow> (u32 \<times> bytes) option" where
  "get_32 (b0 # b1 # b2 # b3 # r) =
     Some (ucast b0 OR push_bit 8 (ucast b1) OR push_bit 16 (ucast b2) OR push_bit 24 (ucast b3), r)"
| "get_32 _ = None"

lemma bytes_of_32:
  "(ucast (ucast w :: u8) OR push_bit 8 (ucast (ucast (drop_bit 8 w) :: u8)) OR
    push_bit 16 (ucast (ucast (drop_bit 16 w) :: u8)) OR
    push_bit 24 (ucast (ucast (drop_bit 24 w) :: u8)) :: u32) = w"
proof (rule bit_word_eqI)
  fix n
  assume "n < LENGTH(32)"
  then show "bit (ucast (ucast w :: u8) OR push_bit 8 (ucast (ucast (drop_bit 8 w) :: u8)) OR
    push_bit 16 (ucast (ucast (drop_bit 16 w) :: u8)) OR
    push_bit 24 (ucast (ucast (drop_bit 24 w) :: u8)) :: u32) n = bit w n"
    by (cases "n < 24"; cases "n < 16") (auto simp: bit_simps)
qed

lemma get_put_32 [simp]: "get_32 (put_32 w @ r) = Some (w, r)"
  unfolding put_32_def by (simp add: bytes_of_32)

definition put_64 :: "u64 \<Rightarrow> bytes" where
  "put_64 w = put_32 (ucast w) @ put_32 (ucast (drop_bit 32 w))"

definition get_64 :: "bytes \<Rightarrow> (u64 \<times> bytes) option" where
  "get_64 b =
     (case get_32 b of
        None \<Rightarrow> None
      | Some (l, b1) \<Rightarrow>
          (case get_32 b1 of
             None \<Rightarrow> None
           | Some (h, r) \<Rightarrow> Some (ucast l OR push_bit 32 (ucast h), r)))"

lemma words_of_64:
  "(ucast (ucast w :: u32) OR push_bit 32 (ucast (ucast (drop_bit 32 w) :: u32)) :: u64) = w"
  by (rule bit_word_eqI) (auto simp: bit_simps)

lemma get_put_64 [simp]: "get_64 (put_64 w @ r) = Some (w, r)"
  by (simp add: put_64_def get_64_def words_of_64)

definition put_bool :: "bool \<Rightarrow> bytes" where
  "put_bool b = [if b then 1 else 0]"

fun get_bool :: "bytes \<Rightarrow> (bool \<times> bytes) option" where
  "get_bool (b # r) = Some (b = 1, r)"
| "get_bool [] = None"

lemma get_put_bool [simp]: "get_bool (put_bool b @ r) = Some (b, r)"
  by (simp add: put_bool_def)

section \<open>Payloads\<close>

fun put_payload :: "payload \<Rightarrow> bytes" where
  "put_payload (ConnectedResponse i) = 1 # put_32 i"
| "put_payload KeepAliveNoti = [2]"
| "put_payload KeepAliveRequest = [3]"
| "put_payload (EnterWorldRequest w) = 4 # put_64 w"
| "put_payload (EnterWorldResponse ok) = 5 # put_bool ok"
| "put_payload (LoginRequest u h) = 6 # put_string u @ put_list h"
| "put_payload (LoginResponse ok c t) = 7 # put_bool ok @ put_32 c @ put_string t"
| "put_payload (ErrorResponse c) = 8 # put_32 c"
| "put_payload (GameOverReport s k t) = 9 # put_32 s @ put_32 k @ put_32 t"
| "put_payload (GameOverResponse ok) = 10 # put_bool ok"
| "put_payload (MoveRequest x y) = 11 # put_32 x @ put_32 y"
| "put_payload (MoveResponse ok x y) = 12 # put_bool ok @ put_32 x @ put_32 y"
| "put_payload (GameConnectRequest t) = 13 # put_string t"
| "put_payload (GameConnectResponse ok c) = 14 # put_bool ok @ put_32 c"

definition get_then :: "('a \<times> bytes) option \<Rightarrow> ('a \<Rightarrow> bytes \<Rightarrow> 'b option) \<Rightarrow> 'b option" where
  "get_then x f = (case x of None \<Rightarrow> None | Some (a, r) \<Rightarrow> f a r)"

lemma get_then_Some [simp]: "get_then (Some (a, r)) f = f a r"
  by (simp add: get_then_def)

fun get_payload :: "bytes \<Rightarrow> payload option" where
  "get_payload [] = None"
| "get_payload (tag # b) =
     (if tag = 1 then get_then (get_32 b) (\<lambda>i _. Some (ConnectedResponse i))
      else if tag = 2 then Some KeepAliveNoti
      else if tag = 3 then Some KeepAliveRequest
      else if tag = 4 then get_then (get_64 b) (\<lambda>w _. Some (EnterWorldRequest w))
      else if tag = 5 then get_then (get_bool b) (\<lambda>ok _. Some (EnterWorldResponse ok))
      else if tag = 6 then get_then (get_string b) (\<lambda>u b. get_then (get_list b) (\<lambda>h _.
        Some (LoginRequest u h)))
      else if tag = 7 then get_then (get_bool b) (\<lambda>ok b. get_then (get_32 b) (\<lambda>c b.
        get_then (get_string b) (\<lambda>t _. Some (LoginResponse ok c t))))
      else if tag = 8 then get_then (get_32 b) (\<lambda>c _. Some (ErrorResponse c))
      else if tag = 9 then get_then (get_32 b) (\<lambda>s b. get_then (get_32 b) (\<lambda>k b.
        get_then (get_32 b) (\<lambda>t _. Some (GameOverReport s k t))))
      else if tag = 10 then get_then (get_bool b) (\<lambda>ok _. Some (GameOverResponse ok))
      else if tag = 11 then get_then (get_32 b) (\<lambda>x b. get_then (get_32 b) (\<lambda>y _.
        Some (MoveRequest x y)))
      else if tag = 12 then get_then (get_bool b) (\<lambda>ok b. get_then (get_32 b) (\<lambda>x b.
        get_then (get_32 b) (\<lambda>y _. Some (MoveResponse ok x y))))
      else if tag = 13 then get_then (get_string b) (\<lambda>t _. Some (GameConnectRequest t))
      else if tag = 14 then get_then (get_bool b) (\<lambda>ok b. get_then (get_32 b) (\<lambda>c _.
        Some (GameConnectResponse ok c)))
      else None)"

lemmas get_put_end [simp] =
  get_put_list [where r = "[]", simplified] get_put_string [where r = "[]", simplified]
  get_put_32 [where r = "[]", simplified] get_put_64 [where r = "[]", simplified]
  get_put_bool [where r = "[]", simplified]

lemma get_put_payload [simp]: "get_payload (put_payload m) = Some m"
  by (cases m) simp_all

definition put_message :: "message_wrapper \<Rightarrow> bytes" where
  "put_message m =
     put_32 (message_size m) @ (case wrapped m of None \<Rightarrow> [] | Some payload \<Rightarrow> put_payload payload)"

definition get_message :: "bytes \<Rightarrow> message_wrapper option" where
  "get_message b =
     get_then (get_32 b) (\<lambda>n r.
       if r = [] then Some \<lparr>message_size = n, wrapped = None\<rparr>
       else map_option (\<lambda>m. \<lparr>message_size = n, wrapped = Some m\<rparr>) (get_payload r))"

lemma put_payload_nonempty [simp]: "put_payload m \<noteq> []"
  by (cases m) simp_all

lemma get_put_message [simp]: "get_message (put_message m) = Some m"
  by (cases m) (simp add: get_message_def put_message_def split: option.split)

definition sample_prost :: "message_wrapper prost" where
  "sample_prost =
     \<lparr>pm_encoded_len = length \<circ> put_message, pm_encode = put_message, pm_decode = get_message\<rparr>"

lemma prost_laws_sample [simp]: "prost_laws sample_prost"
  by (simp add: prost_laws_def sample_prost_def)

lemma sample_encode_nonempty [simp]: "pm_encode sample_prost m \<noteq> []"
  by (simp add: sample_prost_def put_message_def put_32_def)

end
