(* ===== verification/Stats.thy ===== *)
theory Stats
  imports Prelude
begin

text \<open>
  The process-wide counters: packet statistics (\<open>crates/net/src/stats.rs\<close>) and the session id
  generator (\<open>crates/net/src/session_id.rs\<close>). \<open>AtomicU64::fetch_add\<close> wraps around, as \<open>+\<close> on words does.
\<close>

record packet_stats =
  RECEIVED :: u64
  SENT :: u64

definition increment_received :: "packet_stats \<Rightarrow> packet_stats" where
  "increment_received s = s\<lparr>RECEIVED := RECEIVED s + 1\<rparr>"

definition increment_sent :: "packet_stats \<Rightarrow> packet_stats" where
  "increment_sent s = s\<lparr>SENT := SENT s + 1\<rparr>"

definition stats_snapshot :: "packet_stats \<Rightarrow> u64 \<times> u64" where
  "stats_snapshot s = (RECEIVED s, SENT s)"

definition stats_zero :: packet_stats where
  "stats_zero = \<lparr>RECEIVED = 0, SENT = 0\<rparr>"

lemma increment_simps [simp]:
  "RECEIVED (increment_received s) = RECEIVED s + 1"
  "SENT (increment_received s) = SENT s"
  "RECEIVED (increment_sent s) = RECEIVED s"
  "SENT (increment_sent s) = SENT s + 1"
  by (simp_all add: increment_received_def increment_sent_def)

section \<open>Session ids\<close>

text \<open>\<open>generate\<close> returns the new id and the new value of \<open>NEXT_ID\<close>.\<close>

definition generate :: "u64 \<Rightarrow> u64 \<times> u64" where
  "generate NEXT_ID = (NEXT_ID + 1, NEXT_ID + 1)"

fun generate_many :: "nat \<Rightarrow> u64 \<Rightarrow> u64 list" where
  "generate_many 0 c = []"
| "generate_many (Suc n) c = (let (i, c') = generate c in i # generate_many n c')"

lemma generate_many_nth: "generate_many n c = map (\<lambda>k. c + 1 + of_nat k) [0..<n]"
  by (induction n arbitrary: c)
    (simp_all add: generate_def Let_def upt_conv_Cons map_Suc_upt [symmetric] add_ac
      del: upt_Suc)

text \<open>
  Whatever the counter starts from, the session ids a process hands out are distinct, as long as it
  hands out at most \<open>2^64\<close>.
\<close>

theorem generate_many_distinct:
  assumes "n \<le> 2 ^ 64"
  shows "distinct (generate_many n c)"
proof -
  have "inj_on (\<lambda>k. c + 1 + of_nat k :: u64) {0..<n}"
  proof (rule inj_onI)
    fix i j
    assume "i \<in> {0..<n}" "j \<in> {0..<n}" and "c + 1 + of_nat i = c + 1 + (of_nat j :: u64)"
    with assms have "i < 2 ^ 64" "j < 2 ^ 64" and "(of_nat i :: u64) = of_nat j" by auto
    then show "i = j" by (simp add: word_unat_eq_iff unat_of_nat)
  qed
  then show ?thesis by (simp add: generate_many_nth distinct_map)
qed

theorem generate_many_distinct_witness: "distinct (generate_many 3 (- 2)) \<and> generate_many 3 (- 2) = [- 1, 0, 1]"
proof
  show "distinct (generate_many 3 (- 2))" by (rule generate_many_distinct) simp
  show "generate_many 3 (- 2) = [- 1, 0, 1]" by (simp add: numeral_3_eq_3 generate_def)
qed

end
