(* ===== verification/Codec.thy ===== *)
theory Codec
  imports Proto Stats
begin

text \<open>
  \<open>crates/net/src/codec.rs\<close>: frames are a two byte little-endian body length followed by the body.
\<close>

section \<open>The codec\<close>

datatype codec_error = InvalidLength nat | DecodeFailed | IoFailed

definition HEADER_SIZE :: nat where
  "HEADER_SIZE = 2"

definition u16_from_le_bytes :: "u8 \<Rightarrow> u8 \<Rightarrow> u16" where
  "u16_from_le_bytes b0 b1 = ucast b0 OR push_bit 8 (ucast b1)"

definition u16_to_le_bytes :: "u16 \<Rightarrow> bytes" where
  "u16_to_le_bytes w = [ucast w, ucast (drop_bit 8 w)]"

text \<open>
  \<open>Decoder::decode\<close>: the result, what is left in \<open>src\<close>, and the packet counters. \<open>reserve\<close> grows
  the buffer's capacity and not its content, so it has no counterpart.
\<close>

definition decode :: "'m prost \<Rightarrow> packet_stats \<Rightarrow> bytes \<Rightarrow>
    (codec_error + 'm option) \<times> bytes \<times> packet_stats" where
  "decode p st src =
     (if length src < HEADER_SIZE then (Inr None, src, st)
      else let body_size = unat (u16_from_le_bytes (src ! 0) (src ! 1)) in
        if body_size = 0 \<or> body_size > MAX_MESSAGE_BODY_SIZE
        then (Inl (InvalidLength body_size), src, st)
        else let frame_size = HEADER_SIZE + body_size in
          if length src < frame_size then (Inr None, src, st)
          else
            let src1 = drop HEADER_SIZE src;
                body = take body_size src1;
                src2 = drop body_size src1
            in (case pm_decode p body of
                  None \<Rightarrow> (Inl DecodeFailed, src2, st)
                | Some message \<Rightarrow> (Inr (Some message), src2, increment_received st)))"

definition encode :: "'m prost \<Rightarrow> packet_stats \<Rightarrow> 'm \<Rightarrow> bytes \<Rightarrow>
    (codec_error + unit) \<times> bytes \<times> packet_stats" where
  "encode p st message dst =
     (let body_size = pm_encoded_len p message in
      if body_size > MAX_MESSAGE_BODY_SIZE then (Inr (), dst, st)
      else (Inr (), dst @ u16_to_le_bytes (of_nat body_size) @ pm_encode p message,
            increment_sent st))"

lemma u16_le_roundtrip [simp]: "u16_from_le_bytes (ucast w) (ucast (drop_bit 8 w)) = w"
  unfolding u16_from_le_bytes_def
  by (rule bit_word_eqI) (auto simp: bit_simps)


section \<open>Reading a stream through a decoder\<close>

text \<open>
  The reader of a connection appends what the socket delivers to its buffer and calls \<open>decode\<close>
  until it asks for more or fails; after a failure it yields nothing more. This is the contract
  of the \<open>Decoder\<close> trait that \<open>MessageCodec\<close> implements. \<open>drain\<close> is the inner loop, with fuel: each
  frame shortens the buffer, so the buffer's length is fuel enough (\<open>drain_all\<close>).
\<close>

type_synonym ('m, 's) decoder = "'s \<Rightarrow> bytes \<Rightarrow> (codec_error + 'm option) \<times> bytes \<times> 's"

fun drain :: "('m, 's) decoder \<Rightarrow> nat \<Rightarrow> 's \<Rightarrow> bytes \<Rightarrow>
    'm list \<times> codec_error option \<times> bytes \<times> 's" where
  "drain dec 0 s src = ([], None, src, s)"
| "drain dec (Suc fuel) s src =
     (case dec s src of
        (Inl e, src', s') \<Rightarrow> ([], Some e, src', s')
      | (Inr None, src', s') \<Rightarrow> ([], None, src', s')
      | (Inr (Some m), src', s') \<Rightarrow>
          (case drain dec fuel s' src' of (ms, e, rest, s'') \<Rightarrow> (m # ms, e, rest, s'')))"

definition drain_all :: "('m, 's) decoder \<Rightarrow> 's \<Rightarrow> bytes \<Rightarrow>
    'm list \<times> codec_error option \<times> bytes \<times> 's" where
  "drain_all dec s src = drain dec (Suc (length src)) s src"

record ('m, 's) framed =
  fr_items :: "'m list"
  fr_error :: "codec_error option"
  fr_buffer :: bytes
  fr_state :: 's

definition framed_new :: "'s \<Rightarrow> ('m, 's) framed" where
  "framed_new s = \<lparr>fr_items = [], fr_error = None, fr_buffer = [], fr_state = s\<rparr>"

definition framed_read :: "('m, 's) decoder \<Rightarrow> bytes \<Rightarrow> ('m, 's) framed \<Rightarrow> ('m, 's) framed" where
  "framed_read dec chunk fr =
     (if fr_error fr \<noteq> None then fr
      else case drain_all dec (fr_state fr) (fr_buffer fr @ chunk) of
        (ms, e, rest, s) \<Rightarrow>
          \<lparr>fr_items = fr_items fr @ ms, fr_error = e, fr_buffer = rest, fr_state = s\<rparr>)"

definition framed_read_all :: "('m, 's) decoder \<Rightarrow> 's \<Rightarrow> bytes list \<Rightarrow> ('m, 's) framed" where
  "framed_read_all dec s chunks = fold (framed_read dec) chunks (framed_new s)"

locale frame_decoder =
  fixes dec :: "'s \<Rightarrow> bytes \<Rightarrow> (codec_error + 'm option) \<times> bytes \<times> 's"
  assumes more_keeps: "dec s src = (Inr None, src', s') \<Longrightarrow> src' = src \<and> s' = s"
    and frame_shrinks: "dec s src = (Inr (Some m), src', s') \<Longrightarrow> length src' < length src"
    and frame_prefix: "dec s src = (Inr (Some m), src', s') \<Longrightarrow>
      dec s (src @ xs) = (Inr (Some m), src' @ xs, s')"
    and error_prefix: "dec s src = (Inl e, src', s') \<Longrightarrow> dec s (src @ xs) = (Inl e, src' @ xs, s')"
begin

lemma drain_fuel_enough:
  "length src \<le> n \<Longrightarrow> drain dec (Suc n) s src = drain_all dec s src"
proof (induction n arbitrary: s src rule: less_induct)
  case (less n)
  show ?case
  proof (cases "dec s src")
    case (fields r src' s')
    show ?thesis
    proof (cases "\<exists>m. r = Inr (Some m)")
      case True
      then obtain m where r: "r = Inr (Some m)" ..
      have shorter: "length src' < length src"
        using fields r by (auto dest: frame_shrinks)
      have "drain dec k s' src' = drain_all dec s' src'" if k: "k = n \<or> k = length src" for k
      proof (cases k)
        case 0
        with k shorter less.prems show ?thesis by auto
      next
        case (Suc k')
        with k shorter less.prems have "k' < n" "length src' \<le> k'" by auto
        with Suc less.IH [of k' src' s'] show ?thesis by simp
      qed
      then show ?thesis
        by (simp add: drain_all_def [of dec s] fields r)
    next
      case False
      then show ?thesis
        by (auto simp: drain_all_def fields split: sum.splits option.splits)
    qed
  qed
qed

lemma drain_all_rec:
  "drain_all dec s src =
     (case dec s src of
        (Inl e, src', s') \<Rightarrow> ([], Some e, src', s')
      | (Inr None, src', s') \<Rightarrow> ([], None, src, s)
      | (Inr (Some m), src', s') \<Rightarrow>
          (case drain_all dec s' src' of (ms, e, rest, s'') \<Rightarrow> (m # ms, e, rest, s'')))"
proof (cases "dec s src")
  case (fields r src' s')
  consider e where "r = Inl e" | "r = Inr None" | m where "r = Inr (Some m)"
    by (metis obj_sumE option.exhaust)
  then show ?thesis
  proof cases
    case 1
    then show ?thesis by (simp add: drain_all_def fields)
  next
    case 2
    then show ?thesis using more_keeps fields by (simp add: drain_all_def)
  next
    case (3 m)
    then have "length src' < length src" using fields by (auto dest: frame_shrinks)
    then obtain k where "length src = Suc k" and "length src' \<le> k" by (cases "length src") auto
    then have "drain dec (length src) s' src' = drain_all dec s' src'"
      using drain_fuel_enough by simp
    with 3 show ?thesis by (simp add: drain_all_def [of dec s] fields)
  qed
qed

text \<open>A buffer whose draining stopped for more input asks for more input again.\<close>

lemma drain_all_append:
  "drain_all dec s (src @ xs) =
     (case drain_all dec s src of
        (ms, Some e, rest, s') \<Rightarrow> (ms, Some e, rest @ xs, s')
      | (ms, None, rest, s') \<Rightarrow>
          (case drain_all dec s' (rest @ xs) of (ms', e, rest', s'') \<Rightarrow> (ms @ ms', e, rest', s'')))"
proof (induction "length src" arbitrary: s src rule: less_induct)
  case less
  show ?case
  proof (cases "dec s src")
    case (fields r src' s')
    consider e where "r = Inl e" | "r = Inr None" | m where "r = Inr (Some m)"
      by (metis obj_sumE option.exhaust)
    then show ?thesis
    proof cases
      case (1 e)
      with fields have "dec s (src @ xs) = (Inl e, src' @ xs, s')" by (simp add: error_prefix)
      with 1 fields show ?thesis
        by (simp add: drain_all_rec [of s "src @ xs"] drain_all_rec [of s src])
    next
      case 2
      with fields have "drain_all dec s src = ([], None, src, s)"
        by (simp add: drain_all_rec [of s src])
      then show ?thesis by (simp split: prod.split)
    next
      case (3 m)
      with fields have frame: "dec s (src @ xs) = (Inr (Some m), src' @ xs, s')"
        and shorter: "length src' < length src"
        by (auto simp: frame_prefix dest: frame_shrinks)
      obtain ms e rest s1 where d: "drain_all dec s' src' = (ms, e, rest, s1)"
        by (metis prod_cases4)
      obtain ms2 e2 rest2 s2 where d2: "drain_all dec s1 (rest @ xs) = (ms2, e2, rest2, s2)"
        by (metis prod_cases4)
      have "drain_all dec s (src @ xs) =
          (case drain_all dec s' (src' @ xs) of (ms, e, rest, s'') \<Rightarrow> (m # ms, e, rest, s''))"
        by (simp add: drain_all_rec [of s "src @ xs"] frame)
      with less [OF shorter, of s'] fields 3 show ?thesis
        by (simp add: drain_all_rec [of s src] d d2 split: option.splits)
    qed
  qed
qed

text \<open>
  However a stream is cut into chunks, the reader yields the messages, the failure and the final
  state of the uncut stream; without a failure it also keeps the same unread bytes.
\<close>

lemma framed_read_error [simp]: "fr_error fr \<noteq> None \<Longrightarrow> fold (framed_read dec) chunks fr = fr"
  by (induction chunks) (auto simp: framed_read_def)

lemma framed_read_chunks_gen:
  assumes "fr_error fr = None"
    and "drain_all dec (fr_state fr) (fr_buffer fr) = ([], None, fr_buffer fr, fr_state fr)"
    and "drain_all dec (fr_state fr) (fr_buffer fr @ concat chunks) = (ms, e, rest, s)"
  shows "fr_items (fold (framed_read dec) chunks fr) = fr_items fr @ ms \<and>
    fr_error (fold (framed_read dec) chunks fr) = e \<and>
    fr_state (fold (framed_read dec) chunks fr) = s \<and>
    (e = None \<longrightarrow> fr_buffer (fold (framed_read dec) chunks fr) = rest)"
  using assms
proof (induction chunks arbitrary: fr ms)
  case Nil
  then show ?case by simp
next
  case (Cons c cs)
  obtain ms1 e1 rest1 s1 where d1: "drain_all dec (fr_state fr) (fr_buffer fr @ c) = (ms1, e1, rest1, s1)"
    by (metis prod_cases4)
  let ?fr = "framed_read dec c fr"
  have fr: "fr_items ?fr = fr_items fr @ ms1" "fr_error ?fr = e1"
    "fr_buffer ?fr = rest1" "fr_state ?fr = s1"
    using Cons.prems(1) d1 by (simp_all add: framed_read_def)
  have all: "drain_all dec (fr_state fr) ((fr_buffer fr @ c) @ concat cs) = (ms, e, rest, s)"
    using Cons.prems(3) by simp
  note all = all [unfolded drain_all_append [of _ "fr_buffer fr @ c"] d1]
  show ?case
  proof (cases e1)
    case (Some err)
    with all have "ms = ms1 \<and> e = Some err \<and> s = s1" by simp
    with Some fr show ?thesis by simp
  next
    case None
    obtain ms2 e2 rest2 s2 where d2: "drain_all dec s1 (rest1 @ concat cs) = (ms2, e2, rest2, s2)"
      by (metis prod_cases4)
    have "(ms, e, rest, s) = (ms1 @ ms2, e2, rest2, s2)"
      using all None d2 by simp
    moreover have "drain_all dec s1 rest1 = ([], None, rest1, s1)"
    proof -
      obtain ms3 e3 rest3 s3 where d3: "drain_all dec s1 rest1 = (ms3, e3, rest3, s3)"
        by (metis prod_cases4)
      have "drain_all dec (fr_state fr) ((fr_buffer fr @ c) @ []) = (ms1, None, rest1, s1)"
        using d1 None by simp
      then show ?thesis
        unfolding drain_all_append [of _ "fr_buffer fr @ c"] using d1 None d3 by simp
    qed
    ultimately show ?thesis
      using Cons.IH [of ?fr ms2] fr None d2 by simp
  qed
qed

lemma drain_all_stopped:
  "drain_all dec s src = (ms, None, rest, s') \<Longrightarrow> dec s' rest = (Inr None, rest, s')"
proof (induction "length src" arbitrary: s src ms rule: less_induct)
  case less
  show ?case
  proof (cases "dec s src")
    case (fields r src1 s1)
    consider e where "r = Inl e" | "r = Inr None" | m where "r = Inr (Some m)"
      by (metis obj_sumE option.exhaust)
    then show ?thesis
    proof cases
      case 1
      with fields less.prems show ?thesis by (simp add: drain_all_rec [of s src])
    next
      case 2
      with fields less.prems more_keeps show ?thesis by (auto simp: drain_all_rec [of s src])
    next
      case (3 m)
      with fields have "length src1 < length src" by (auto dest: frame_shrinks)
      with 3 fields less show ?thesis by (auto simp: drain_all_rec [of s src] split: prod.splits)
    qed
  qed
qed

lemma framed_read_all_chunks:
  assumes "drain_all dec s (concat chunks) = (ms, e, rest, s')"
    and "dec s [] = (Inr None, [], s)"
  shows "fr_items (framed_read_all dec s chunks) = ms"
    and "fr_error (framed_read_all dec s chunks) = e"
    and "fr_state (framed_read_all dec s chunks) = s'"
    and "e = None \<Longrightarrow> fr_buffer (framed_read_all dec s chunks) = rest"
  using framed_read_chunks_gen [of "framed_new s" chunks ms e rest s'] assms
  by (simp_all add: framed_read_all_def framed_new_def drain_all_rec [of s "[]"])

end

section \<open>The codec as a decoder\<close>

lemma decode_nil [simp]: "decode p s [] = (Inr None, [], s)"
  by (simp add: decode_def HEADER_SIZE_def)

lemma unat_u16_from_le_bytes: "unat (u16_from_le_bytes b0 b1) = unat b0 + 256 * unat b1"
proof -
  have "u16_from_le_bytes b0 b1 = ucast b0 + push_bit 8 (ucast b1)"
    unfolding u16_from_le_bytes_def by (subst disjunctive_add) (auto simp: bit_simps dest: bit_imp_le_length)
  also have "push_bit 8 (ucast b1) = (256 * ucast b1 :: u16)"
    by (simp add: push_bit_eq_mult mult.commute)
  finally have sum: "unat (u16_from_le_bytes b0 b1) = (unat b0 + 256 * unat b1) mod 65536"
    by (simp add: unat_word_ariths unsigned_ucast_eq take_bit_eq_mod mod_simps)
  have "unat b0 + 256 * unat b1 < 65536"
    using unsigned_less [of b0, where 'a = nat] unsigned_less [of b1, where 'a = nat] by simp
  with sum show ?thesis by simp
qed

lemma decode_none_bound:
  "decode p s src = (Inr None, src', s') \<Longrightarrow> length src < MAX_BUFFER_SIZE"
  by (auto simp: decode_def HEADER_SIZE_def Let_def const_defs split: if_splits option.splits)

lemma decode_more:
  "decode p s src = (Inr None, src', s') \<Longrightarrow> src' = src \<and> s' = s"
  by (auto simp: decode_def Let_def split: if_splits option.splits)

lemma decode_frame_shrinks:
  "decode p s src = (Inr (Some m), src', s') \<Longrightarrow> length src' < length src"
  by (auto simp: decode_def Let_def HEADER_SIZE_def split: if_splits option.splits)

lemma decode_frame_prefix:
  "decode p s src = (Inr (Some m), src', s') \<Longrightarrow> decode p s (src @ xs) = (Inr (Some m), src' @ xs, s')"
  by (auto simp: decode_def Let_def HEADER_SIZE_def nth_append split: if_splits option.splits)

lemma decode_error_prefix:
  "decode p s src = (Inl e, src', s') \<Longrightarrow> decode p s (src @ xs) = (Inl e, src' @ xs, s')"
  by (auto simp: decode_def Let_def HEADER_SIZE_def nth_append split: if_splits option.splits)

interpretation mc: frame_decoder "decode p"
  by unfold_locales
    (simp_all add: decode_more decode_frame_shrinks decode_frame_prefix decode_error_prefix)

section \<open>Frames on the wire\<close>

definition fits :: "'m prost \<Rightarrow> 'm \<Rightarrow> bool" where
  "fits p m \<longleftrightarrow> length (pm_encode p m) \<le> MAX_MESSAGE_BODY_SIZE"

definition wire_frame :: "'m prost \<Rightarrow> 'm \<Rightarrow> bytes" where
  "wire_frame p m =
     (if fits p m then u16_to_le_bytes (of_nat (length (pm_encode p m))) @ pm_encode p m else [])"

definition encode_all :: "'m prost \<Rightarrow> packet_stats \<Rightarrow> 'm list \<Rightarrow> bytes \<times> packet_stats" where
  "encode_all p st ms =
     fold (\<lambda>m (dst, st). case encode p st m dst of (_, dst', st') \<Rightarrow> (dst', st')) ms ([], st)"

lemma encode_eq:
  assumes "prost_laws p"
  shows "encode p st m dst =
    (Inr (), dst @ wire_frame p m, if fits p m then increment_sent st else st)"
  using prost_lawsD(1) [OF assms, of m] by (simp add: encode_def wire_frame_def fits_def)

lemma encode_all_eq:
  assumes "prost_laws p"
  shows "fst (encode_all p st ms) = concat (map (wire_frame p) ms)"
    and "SENT (snd (encode_all p st ms)) = SENT st + of_nat (length (filter (fits p) ms))"
proof -
  let ?step = "\<lambda>m (dst, st). case encode p st m dst of (_, dst', st') \<Rightarrow> (dst', st')"
  have "fst (fold ?step ms (dst, st)) = dst @ concat (map (wire_frame p) ms) \<and>
    SENT (snd (fold ?step ms (dst, st))) = SENT st + of_nat (length (filter (fits p) ms))" for dst
    by (induction ms arbitrary: dst st) (simp_all add: encode_eq [OF assms])
  then show "fst (encode_all p st ms) = concat (map (wire_frame p) ms)"
    and "SENT (snd (encode_all p st ms)) = SENT st + of_nat (length (filter (fits p) ms))"
    by (simp_all add: encode_all_def)
qed

lemma length_u16_to_le_bytes [simp]: "length (u16_to_le_bytes w) = 2"
  by (simp add: u16_to_le_bytes_def)

lemma decode_framed_body:
  assumes "body \<noteq> []" and "length body \<le> MAX_MESSAGE_BODY_SIZE"
  shows "decode p st (u16_to_le_bytes (of_nat (length body)) @ body @ xs) =
    (case pm_decode p body of
       None \<Rightarrow> (Inl DecodeFailed, xs, st)
     | Some m \<Rightarrow> (Inr (Some m), xs, increment_received st))"
proof -
  have "unat (of_nat (length body) :: u16) = length body"
    using assms(2) by (simp add: unat_of_nat const_defs)
  with assms show ?thesis
    by (simp add: decode_def HEADER_SIZE_def u16_to_le_bytes_def not_less Let_def
        split: option.split)
qed

text \<open>
  Draining the frames of any sequence of messages: an empty message is sent as the frame \<open>00 00\<close>,
  at which the decoder fails, so what is read ends before the first empty message.
\<close>

lemma decode_empty_frame:
  assumes "pm_encode p m = []"
  shows "decode p st (wire_frame p m @ xs) = (Inl (InvalidLength 0), wire_frame p m @ xs, st)"
  using assms
  by (simp add: wire_frame_def fits_def decode_def HEADER_SIZE_def u16_to_le_bytes_def
      u16_from_le_bytes_def)

lemma drain_all_wire:
  assumes "prost_laws p"
  shows "\<exists>rest st'. drain_all (decode p) st (concat (map (wire_frame p) ms)) =
      (filter (fits p) (takeWhile (\<lambda>m. pm_encode p m \<noteq> []) ms),
       if \<forall>m\<in>set ms. pm_encode p m \<noteq> [] then None else Some (InvalidLength 0), rest, st') \<and>
    ((\<forall>m\<in>set ms. pm_encode p m \<noteq> []) \<longrightarrow> rest = []) \<and>
    RECEIVED st' = RECEIVED st +
      of_nat (length (filter (fits p) (takeWhile (\<lambda>m. pm_encode p m \<noteq> []) ms)))"
proof (induction ms arbitrary: st)
  case Nil
  show ?case by (simp add: mc.drain_all_rec [of p st "[]"])
next
  case (Cons m ms)
  consider (empty) "pm_encode p m = []" | (big) "pm_encode p m \<noteq> []" "\<not> fits p m"
    | (small) "pm_encode p m \<noteq> []" "fits p m" by blast
  then show ?case
  proof cases
    case empty
    then show ?thesis by (simp add: mc.drain_all_rec [of p st] decode_empty_frame)
  next
    case big
    with Cons.IH [of st] show ?thesis by (simp add: wire_frame_def)
  next
    case small
    then have "decode p st (concat (map (wire_frame p) (m # ms))) =
        (Inr (Some m), concat (map (wire_frame p) ms), increment_received st)"
      using assms by (simp add: wire_frame_def fits_def decode_framed_body prost_lawsD(2))
    with Cons.IH [of "increment_received st"] small show ?thesis
      by (auto simp: mc.drain_all_rec [of p st])
  qed
qed

text \<open>
  C17. Sending any sequence of messages through the encoder and delivering the bytes cut into
  arbitrary chunks, the reader on the other side yields exactly the messages whose body fits into
  8190 bytes, in order. If no message has an empty body there is no error and no byte is left over;
  otherwise the reader yields those before the first empty one and then fails with an invalid length
  of 0, since an empty body is sent as a bare header. The sender counts every message that fits,
  the receiver every message it yields.
\<close>

theorem stream_roundtrip:
  assumes "prost_laws p"
    and "encode_all p st ms = (wire, st1)"
    and "concat chunks = wire"
  shows "fr_items (framed_read_all (decode p) st0 chunks) =
      filter (fits p) (takeWhile (\<lambda>m. pm_encode p m \<noteq> []) ms) \<and>
    fr_error (framed_read_all (decode p) st0 chunks) =
      (if \<forall>m\<in>set ms. pm_encode p m \<noteq> [] then None else Some (InvalidLength 0)) \<and>
    ((\<forall>m\<in>set ms. pm_encode p m \<noteq> []) \<longrightarrow> fr_buffer (framed_read_all (decode p) st0 chunks) = []) \<and>
    RECEIVED (fr_state (framed_read_all (decode p) st0 chunks)) =
      RECEIVED st0 + of_nat (length (fr_items (framed_read_all (decode p) st0 chunks))) \<and>
    SENT st1 = SENT st + of_nat (length (filter (fits p) ms))"
proof -
  from encode_all_eq [OF assms(1), of st ms] assms(2,3)
  have wire: "concat chunks = concat (map (wire_frame p) ms)"
    and sent: "SENT st1 = SENT st + of_nat (length (filter (fits p) ms))" by simp_all
  from drain_all_wire [OF assms(1), of st0 ms] obtain rest st2 where
    drained: "drain_all (decode p) st0 (concat chunks) =
      (filter (fits p) (takeWhile (\<lambda>m. pm_encode p m \<noteq> []) ms),
       if \<forall>m\<in>set ms. pm_encode p m \<noteq> [] then None else Some (InvalidLength 0), rest, st2)"
    and "(\<forall>m\<in>set ms. pm_encode p m \<noteq> []) \<longrightarrow> rest = []"
    and "RECEIVED st2 = RECEIVED st0 +
      of_nat (length (filter (fits p) (takeWhile (\<lambda>m. pm_encode p m \<noteq> []) ms)))"
    unfolding wire by blast
  with mc.framed_read_all_chunks [OF drained decode_nil] sent show ?thesis by simp
qed

text \<open>Two messages in three chunks; and a sequence whose second message is empty.\<close>

theorem stream_roundtrip_witness:
  "framed_read_all (decode raw_prost) stats_zero [[2], [0, 7, 8, 1], [0, 9]] =
      \<lparr>fr_items = [[7, 8], [9]], fr_error = None, fr_buffer = [], fr_state = \<lparr>RECEIVED = 2, SENT = 0\<rparr>\<rparr> \<and>
   fr_items (framed_read_all (decode raw_prost) stats_zero [[1, 0], [7, 0], [0, 1, 0, 9]]) = [[7]] \<and>
   fr_error (framed_read_all (decode raw_prost) stats_zero [[1, 0], [7, 0], [0, 1, 0, 9]]) =
     Some (InvalidLength 0)"
  (is "?read = _ \<and> _")
proof -
  have "fr_items ?read = [[7, 8], [9]] \<and> fr_error ?read = None \<and> fr_buffer ?read = []"
    using stream_roundtrip [of raw_prost stats_zero "[[7, 8], [9]]" "[2, 0, 7, 8, 1, 0, 9]"
        "snd (encode_all raw_prost stats_zero [[7, 8], [9]])" "[[2], [0, 7, 8, 1], [0, 9]]" stats_zero]
    by (simp add: encode_all_def encode_def raw_prost_def prost_laws_def u16_to_le_bytes_def
        fits_def const_defs stats_zero_def)
  moreover have "fr_state ?read = \<lparr>RECEIVED = 2, SENT = 0\<rparr>"
    by (simp add: framed_read_all_def framed_read_def framed_new_def mc.drain_all_rec decode_def
        HEADER_SIZE_def u16_from_le_bytes_def raw_prost_def const_defs stats_zero_def increment_received_def)
  moreover have "fr_items (framed_read_all (decode raw_prost) stats_zero [[1, 0], [7, 0], [0, 1, 0, 9]]) = [[7]] \<and>
    fr_error (framed_read_all (decode raw_prost) stats_zero [[1, 0], [7, 0], [0, 1, 0, 9]]) =
      Some (InvalidLength 0)"
    using stream_roundtrip [of raw_prost stats_zero "[[7], [], [9]]" "[1, 0, 7, 0, 0, 1, 0, 9]"
        "snd (encode_all raw_prost stats_zero [[7], [], [9]])" "[[1, 0], [7, 0], [0, 1, 0, 9]]" stats_zero]
    by (simp add: encode_all_def encode_def raw_prost_def prost_laws_def u16_to_le_bytes_def
        fits_def const_defs stats_zero_def)
  ultimately show ?thesis by (cases ?read) simp
qed

text \<open>A stream that starts with a header announcing \<open>n\<close> bytes, where \<open>n\<close> is out of range.\<close>

definition bad_header :: "nat \<Rightarrow> bytes \<Rightarrow> bool" where
  "bad_header n src \<longleftrightarrow>
     (\<exists>b0 b1 rest. src = b0 # b1 # rest \<and> n = unat b0 + 256 * unat b1 \<and> (n = 0 \<or> n > 8190))"

text \<open>
  The decoder refuses a frame on its two header bytes alone, whatever follows and before any of
  the body has arrived, exactly when the announced length is 0 or above 8190; the error carries
  that length and consumes nothing.
\<close>

theorem decode_invalid_length_iff:
  "(fst (decode p st src) = Inl (InvalidLength n) \<longleftrightarrow> bad_header n src) \<and>
   (decode p st src = (Inl (InvalidLength n), src, st) \<longleftrightarrow> bad_header n src)"
proof (cases "\<exists>b0 b1 rest. src = b0 # b1 # rest")
  case True
  then show ?thesis
    by (auto simp: decode_def HEADER_SIZE_def Let_def unat_u16_from_le_bytes const_defs
        bad_header_def split: option.splits)
next
  case False
  then have "length src < 2"
    by (cases src rule: remdups_adj.cases) auto
  with False show ?thesis by (auto simp: decode_def HEADER_SIZE_def bad_header_def)
qed

text \<open>
  C38. However the input is cut, a connection whose reader has not failed holds fewer than 8192
  (\<open>MAX_BUFFER_SIZE\<close>) unread bytes.
\<close>

theorem unread_bytes_bounded:
  assumes "fr_error (framed_read_all (decode p) st chunks) = None"
  shows "length (fr_buffer (framed_read_all (decode p) st chunks)) < MAX_BUFFER_SIZE"
proof -
  obtain ms e rest st' where d: "drain_all (decode p) st (concat chunks) = (ms, e, rest, st')"
    by (metis prod_cases4)
  note read = mc.framed_read_all_chunks [OF d decode_nil]
  with assms d have "decode p st' rest = (Inr None, rest, st')"
    by (auto intro: mc.drain_all_stopped)
  then have "length rest < MAX_BUFFER_SIZE" by (rule decode_none_bound)
  with read assms show ?thesis by simp
qed

theorem unread_bytes_bounded_witness:
  "length (fr_buffer (framed_read_all (decode raw_prost) stats_zero [[254, 31], [1]])) < MAX_BUFFER_SIZE"
  by (rule unread_bytes_bounded)
    (simp add: framed_read_all_def framed_read_def framed_new_def mc.drain_all_rec decode_def
      HEADER_SIZE_def u16_from_le_bytes_def const_defs)

end
