(* ===== verification/Acceptor.thy ===== *)
theory Acceptor
  imports Prelude
begin

text \<open>
  \<open>crates/net/src/acceptor.rs\<close>: the accept loop and its flood guard.
\<close>

section \<open>Addresses\<close>

text \<open>
  \<open>IpAddr\<close>, with an address as the word of its octets. \<open>to_canonical\<close> turns an IPv4-mapped IPv6
  address (\<open>::ffff:a.b.c.d\<close>) into the IPv4 address.
\<close>

datatype ip_addr = V4 "32 word" | V6 "128 word"

definition to_canonical :: "ip_addr \<Rightarrow> ip_addr" where
  "to_canonical ip =
     (case ip of
        V4 a \<Rightarrow> V4 a
      | V6 a \<Rightarrow> if drop_bit 32 a = 0xFFFF then V4 (ucast a) else V6 a)"

definition V4_LOCALHOST :: ip_addr where
  "V4_LOCALHOST = V4 0x7F000001"

definition V6_LOCALHOST :: ip_addr where
  "V6_LOCALHOST = V6 1"

definition to_ipv6_mapped :: "32 word \<Rightarrow> ip_addr" where
  "to_ipv6_mapped a = V6 (push_bit 32 0xFFFF OR ucast a)"

definition is_allowlisted :: "ip_addr \<Rightarrow> bool" where
  "is_allowlisted ip \<longleftrightarrow> ip = V4_LOCALHOST \<or> ip = V6_LOCALHOST"

section \<open>The connection guard\<close>

definition SWEEP_INTERVAL :: duration where
  "SWEEP_INTERVAL = from_secs 60"

record connection_guard =
  timestamps :: "ip_addr \<rightharpoonup> instant list"
  banned_until :: "ip_addr \<rightharpoonup> instant"
  last_sweep :: "instant option"

definition guard_default :: connection_guard where
  "guard_default = \<lparr>timestamps = Map.empty, banned_until = Map.empty, last_sweep = None\<rparr>"

definition prune :: "instant list \<Rightarrow> instant \<Rightarrow> instant list" where
  "prune queue now = dropWhile (\<lambda>t. duration_since now t > FLOOD_WINDOW) queue"

definition is_flood_detected ::
    "ip_addr \<Rightarrow> instant \<Rightarrow> connection_guard \<Rightarrow> bool \<times> connection_guard" where
  "is_flood_detected ip now g =
     (let queue = (case timestamps g ip of None \<Rightarrow> [] | Some q \<Rightarrow> q);
          queue = prune queue now
      in if length queue \<ge> MAX_CONNECTIONS_PER_WINDOW
         then (True, g\<lparr>timestamps := (timestamps g)(ip \<mapsto> queue)\<rparr>)
         else (False, g\<lparr>timestamps := (timestamps g)(ip \<mapsto> queue @ [now])\<rparr>))"

definition sweep_if_due :: "instant \<Rightarrow> connection_guard \<Rightarrow> connection_guard" where
  "sweep_if_due now g =
     (if (case last_sweep g of None \<Rightarrow> False
          | Some last_at \<Rightarrow> duration_since now last_at < SWEEP_INTERVAL)
      then g
      else \<lparr>timestamps = hm_retain (\<lambda>_ queue.
                let queue = prune queue now in if queue = [] then None else Some queue) (timestamps g),
            banned_until = hm_retain (\<lambda>_ until.
                if now < until then Some until else None) (banned_until g),
            last_sweep = Some now\<rparr>)"

definition should_block ::
    "ip_addr \<Rightarrow> instant \<Rightarrow> connection_guard \<Rightarrow> bool \<times> connection_guard" where
  "should_block ip now g =
     (let ip = to_canonical ip in
      if is_allowlisted ip then (False, g)
      else if (case banned_until g ip of None \<Rightarrow> False | Some until \<Rightarrow> now < until) then (True, g)
      else
        let g = g\<lparr>banned_until := (banned_until g)(ip := None)\<rparr>;
            (flooded, g) = is_flood_detected ip now g;
            g = sweep_if_due now g;
            g = (if flooded
                 then g\<lparr>banned_until := (banned_until g)(ip \<mapsto> now + BAN_DURATION)\<rparr> else g)
        in (flooded, g))"

text \<open>
  \<open>acceptor::run\<close>: the list holds what \<open>listener.accept()\<close> returns with the time of the call, up
  to \<open>shutdown\<close>; an accept error only logs and sleeps. The result is the connections handed to
  \<open>on_accepted\<close>, in order.
\<close>

datatype accept_result = Accepted ip_addr instant | AcceptFailed

fun acceptor_run :: "connection_guard \<Rightarrow> accept_result list \<Rightarrow> (ip_addr \<times> instant) list" where
  "acceptor_run g [] = []"
| "acceptor_run g (AcceptFailed # rs) = acceptor_run g rs"
| "acceptor_run g (Accepted ip now # rs) =
     (case should_block ip now g of
        (True, g') \<Rightarrow> acceptor_run g' rs
      | (False, g') \<Rightarrow> (ip, now) # acceptor_run g' rs)"

section \<open>One address, without sweeping\<close>

text \<open>
  The specification of the guard: each address is limited on its own, by the times of its accepted
  connections and the end of its ban. Nothing is shared between addresses and nothing is swept.
\<close>

type_synonym limiter = "instant list \<times> instant option"

definition ban_active :: "instant \<Rightarrow> instant option \<Rightarrow> instant option" where
  "ban_active now b = (case b of None \<Rightarrow> None | Some until \<Rightarrow> if now < until then Some until else None)"

definition limiter_step :: "instant \<Rightarrow> limiter \<Rightarrow> bool \<times> limiter" where
  "limiter_step now l =
     (case l of (q, b) \<Rightarrow>
        if ban_active now b \<noteq> None then (True, q, b)
        else let q = prune q now in
          if length q \<ge> MAX_CONNECTIONS_PER_WINDOW then (True, q, Some (now + BAN_DURATION))
          else (False, q @ [now], None))"

fun limiter_run :: "limiter \<Rightarrow> instant list \<Rightarrow> instant list" where
  "limiter_run l [] = []"
| "limiter_run l (now # ts) =
     (case limiter_step now l of
        (True, l') \<Rightarrow> limiter_run l' ts
      | (False, l') \<Rightarrow> now # limiter_run l' ts)"

text \<open>What a limiter state, or the guard's two tables, still say at time \<open>now\<close>.\<close>

definition limiter_at :: "instant \<Rightarrow> limiter \<Rightarrow> limiter" where
  "limiter_at now l = (case l of (q, b) \<Rightarrow> (prune q now, ban_active now b))"

definition guard_at :: "instant \<Rightarrow> ip_addr \<Rightarrow> connection_guard \<Rightarrow> limiter" where
  "guard_at now ip g =
     limiter_at now (case timestamps g ip of None \<Rightarrow> [] | Some q \<Rightarrow> q, banned_until g ip)"

lemma prune_prune:
  assumes "now \<le> later"
  shows "prune (prune q now) later = prune q later"
    and "prune (prune q now @ xs) later = prune (q @ xs) later"
proof -
  have *: "FLOOD_WINDOW < duration_since now t \<Longrightarrow> FLOOD_WINDOW < duration_since later t" for t
    using assms by (simp add: duration_since_def)
  from * show "prune (prune q now) later = prune q later"
    unfolding prune_def by (rule dropWhile_dropWhile_weaker)
  from * show "prune (prune q now @ xs) later = prune (q @ xs) later"
    unfolding prune_def by (rule dropWhile_append_all)
qed

lemma prune_Nil [simp]: "prune [] now = []"
  by (simp add: prune_def)

lemma ban_active_ban_active:
  "now \<le> later \<Longrightarrow> ban_active later (ban_active now b) = ban_active later b"
  by (auto simp: ban_active_def split: option.splits)

lemma ban_active_None [simp]: "ban_active now None = None"
  by (simp add: ban_active_def)

lemma limiter_at_later:
  assumes "limiter_at now l = limiter_at now l'" and "now \<le> later"
  shows "limiter_at later l = limiter_at later l'"
proof -
  have "limiter_at later m = limiter_at later (limiter_at now m)" for m
    using assms(2) by (cases m) (simp add: limiter_at_def prune_prune ban_active_ban_active)
  then show ?thesis using assms(1) by metis
qed

lemma guard_at_later:
  "guard_at now ip g = limiter_at now l \<Longrightarrow> now \<le> later \<Longrightarrow> guard_at later ip g = limiter_at later l"
  unfolding guard_at_def by (rule limiter_at_later)

lemma guard_at_sweep:
  assumes "now \<le> later"
  shows "guard_at later ip (sweep_if_due now g) = guard_at later ip g"
proof -
  have queue: "prune q later = []" if "prune q now = []" for q
    using prune_prune(1) [OF assms, of q] that by simp
  show ?thesis
    using assms
    by (auto simp: sweep_if_due_def guard_at_def limiter_at_def map_simps Let_def ban_active_def
        prune_prune(1) queue split: option.splits)
qed

lemma guard_at_ban:
  "guard_at later ip (g\<lparr>banned_until := (banned_until g)(ip' := x)\<rparr>) =
    (if ip' = ip then (fst (guard_at later ip g), ban_active later x) else guard_at later ip g)"
  by (simp add: guard_at_def limiter_at_def)

text \<open>\<open>should_block\<close> for an address that is not exempt, in terms of its own queue and ban.\<close>

definition guard_queue :: "ip_addr \<Rightarrow> connection_guard \<Rightarrow> instant list" where
  "guard_queue ip g = (case timestamps g ip of None \<Rightarrow> [] | Some q \<Rightarrow> q)"

definition guard_record :: "ip_addr \<Rightarrow> instant list \<Rightarrow> connection_guard \<Rightarrow> connection_guard" where
  "guard_record ip q g =
     g\<lparr>banned_until := (banned_until g)(ip := None), timestamps := (timestamps g)(ip \<mapsto> q)\<rparr>"

lemma guard_at_record:
  "guard_at later ip (guard_record ip' q g) =
    (if ip' = ip then (prune q later, None) else guard_at later ip g)"
  by (simp add: guard_at_def guard_record_def limiter_at_def)

lemma should_block_eq:
  assumes "to_canonical ip' = ip" and "\<not> is_allowlisted ip"
  shows "should_block ip' now g =
    (if ban_active now (banned_until g ip) \<noteq> None then (True, g)
     else let q = prune (guard_queue ip g) now in
       if length q \<ge> MAX_CONNECTIONS_PER_WINDOW
       then let g1 = sweep_if_due now (guard_record ip q g)
            in (True, g1\<lparr>banned_until := (banned_until g1)(ip \<mapsto> now + BAN_DURATION)\<rparr>)
       else (False, sweep_if_due now (guard_record ip (q @ [now]) g)))"
  using assms
  by (auto simp: should_block_def is_flood_detected_def ban_active_def guard_queue_def
      guard_record_def Let_def split: option.splits)

lemma should_block_exempt [simp]:
  "is_allowlisted (to_canonical ip) \<Longrightarrow> should_block ip now g = (False, g)"
  by (simp add: should_block_def)

lemma guard_at_other:
  assumes "should_block ip' now g = (r, g')" and "to_canonical ip' \<noteq> ip" and "now \<le> later"
  shows "guard_at later ip g' = guard_at later ip g"
proof (cases "is_allowlisted (to_canonical ip')")
  case True
  with assms(1) show ?thesis by simp
next
  case False
  with assms show ?thesis
    by (auto simp: should_block_eq [OF refl] Let_def guard_at_sweep guard_at_ban guard_at_record
        split: if_splits)
qed

lemma guard_at_own:
  assumes "to_canonical ip' = ip" and "\<not> is_allowlisted ip"
    and "guard_at now ip g = limiter_at now l"
    and "should_block ip' now g = (r, g')" and "limiter_step now l = (r', l')"
  shows "r = r'" and "now \<le> later \<Longrightarrow> guard_at later ip g' = limiter_at later l'"
proof -
  obtain q b where l: "l = (q, b)" by (cases l)
  have g: "prune (guard_queue ip g) now = prune q now"
    "ban_active now (banned_until g ip) = ban_active now b"
    using assms(3) by (simp_all add: l guard_at_def limiter_at_def guard_queue_def)
  note step = assms(4) [unfolded should_block_eq [OF assms(1,2)] g Let_def]
    assms(5) [unfolded l limiter_step_def prod.case Let_def]
  show "r = r'" using step by (auto split: if_splits)
  assume later: "now \<le> later"
  show "guard_at later ip g' = limiter_at later l'"
  proof (cases "ban_active now b = None")
    case False
    with step have "g' = g" "l' = l" by (simp_all add: l)
    with guard_at_later [OF assms(3) later] show ?thesis by simp
  next
    case True
    with step later show ?thesis
      by (auto simp: guard_at_sweep guard_at_ban guard_at_record limiter_at_def prune_prune
          split: if_splits)
  qed
qed

section \<open>Runs of the accept loop\<close>

fun accept_times :: "accept_result list \<Rightarrow> instant list" where
  "accept_times [] = []"
| "accept_times (AcceptFailed # rs) = accept_times rs"
| "accept_times (Accepted ip now # rs) = now # accept_times rs"

fun own_times :: "ip_addr \<Rightarrow> accept_result list \<Rightarrow> instant list" where
  "own_times ip [] = []"
| "own_times ip (AcceptFailed # rs) = own_times ip rs"
| "own_times ip (Accepted ip' now # rs) =
     (if to_canonical ip' = ip then now # own_times ip rs else own_times ip rs)"

definition accepted_of :: "ip_addr \<Rightarrow> (ip_addr \<times> instant) list \<Rightarrow> instant list" where
  "accepted_of ip conns = map snd (filter (\<lambda>(i, t). to_canonical i = ip) conns)"

lemma accepted_of_simps [simp]:
  "accepted_of ip [] = []"
  "accepted_of ip ((i, t) # cs) =
    (if to_canonical i = ip then t # accepted_of ip cs else accepted_of ip cs)"
  by (simp_all add: accepted_of_def)

lemma set_own_times: "set (own_times ip rs) \<subseteq> set (accept_times rs)"
  by (induction ip rs rule: own_times.induct) auto

lemma sorted_own_times: "sorted (accept_times rs) \<Longrightarrow> sorted (own_times ip rs)"
  using set_own_times by (induction ip rs rule: own_times.induct) fastforce+

lemma acceptor_run_limiter:
  assumes "\<not> is_allowlisted ip" and "guard_at t0 ip g = limiter_at t0 l"
    and "sorted (t0 # accept_times rs)"
  shows "accepted_of ip (acceptor_run g rs) = limiter_run l (own_times ip rs)"
  using assms(2,3)
proof (induction g rs arbitrary: t0 l rule: acceptor_run.induct)
  case (1 g)
  show ?case by simp
next
  case (2 g rs)
  then show ?case by simp
next
  case (3 g ip' now rs)
  obtain r g' where block: "should_block ip' now g = (r, g')" by fastforce
  have now: "guard_at now ip g = limiter_at now l"
    using "3.prems" by (auto intro: guard_at_later)
  have sorted: "sorted (now # accept_times rs)" using "3.prems" by simp
  show ?case
  proof (cases "to_canonical ip' = ip")
    case True
    obtain r' l' where step: "limiter_step now l = (r', l')"
      by (cases "limiter_step now l")
    note own = guard_at_own [OF True assms(1) now block step]
    from own(2) [OF le_refl] sorted "3.IH" [OF block [symmetric]] block step own(1) True
    show ?thesis by (cases r) auto
  next
    case False
    from guard_at_other [OF block False le_refl] now
    have "guard_at now ip g' = limiter_at now l" by simp
    with sorted "3.IH" [OF block [symmetric]] block False show ?thesis by (cases r) auto
  qed
qed

lemma guard_at_default: "guard_at now ip guard_default = limiter_at now ([], None)"
  by (simp add: guard_at_def guard_default_def)

text \<open>An address on the allow-list is never blocked.\<close>

lemma acceptor_run_exempt:
  assumes "is_allowlisted ip"
  shows "accepted_of ip (acceptor_run g rs) = own_times ip rs"
proof (induction g rs rule: acceptor_run.induct)
  case (3 g ip' now rs)
  obtain r g' where block: "should_block ip' now g = (r, g')" by fastforce
  with assms have "to_canonical ip' = ip \<Longrightarrow> \<not> r" by auto
  with "3.IH" [OF block [symmetric]] block show ?case by (cases r) auto
qed simp_all

text \<open>
  C23. The accept loop, with its shared tables and periodic sweeps, treats every address exactly as
  if it were alone: of the connections from an address on the allow-list it accepts all, and of
  those from any other address (in either of its spellings) it accepts the ones that a limiter of
  that address alone accepts from its connection times. The only hypothesis is that the times of
  the accepted calls do not decrease, which \<open>Instant::now\<close> promises.
\<close>

theorem acceptor_run_per_address:
  assumes "sorted (accept_times rs)"
  shows "accepted_of ip (acceptor_run guard_default rs) =
    (if is_allowlisted ip then own_times ip rs else limiter_run ([], None) (own_times ip rs))"
  using assms acceptor_run_limiter [of ip 0 guard_default "([], None)" rs]
  by (simp add: acceptor_run_exempt guard_at_default)

text \<open>
  A remote address in both of its spellings beside another one, and the address of the load test's
  clients, which connect more often than the limit.
\<close>

theorem acceptor_run_per_address_witness:
  "accepted_of (V4 5) (acceptor_run guard_default
      [Accepted (V4 5) 1, Accepted (V4 6) 2, AcceptFailed, Accepted (to_ipv6_mapped 5) 3]) =
    limiter_run ([], None) [1, 3] \<and>
   accepted_of V4_LOCALHOST (acceptor_run guard_default (replicate 31 (Accepted V4_LOCALHOST 1))) =
    replicate 31 1"
proof -
  have "to_canonical (to_ipv6_mapped 5) = V4 5"
    by (simp add: to_canonical_def to_ipv6_mapped_def)
  then have "accepted_of (V4 5) (acceptor_run guard_default
      [Accepted (V4 5) 1, Accepted (V4 6) 2, AcceptFailed, Accepted (to_ipv6_mapped 5) 3]) =
    limiter_run ([], None) [1, 3]"
    using acceptor_run_per_address [of "[Accepted (V4 5) 1, Accepted (V4 6) 2, AcceptFailed,
        Accepted (to_ipv6_mapped 5) 3]" "V4 5"]
    by (simp add: is_allowlisted_def V4_LOCALHOST_def V6_LOCALHOST_def to_canonical_def)
  moreover have "accepted_of V4_LOCALHOST
      (acceptor_run guard_default (replicate 31 (Accepted V4_LOCALHOST 1))) = replicate 31 1"
    using acceptor_run_per_address [of "replicate 31 (Accepted V4_LOCALHOST 1)" V4_LOCALHOST]
    by (simp add: is_allowlisted_def numeral_eq_Suc to_canonical_def V4_LOCALHOST_def)
  ultimately show ?thesis ..
qed

section \<open>The limit within a window\<close>

definition within_window :: "instant \<Rightarrow> instant list \<Rightarrow> instant list" where
  "within_window a ts = filter (\<lambda>t. a \<le> t \<and> t \<le> a + FLOOD_WINDOW) ts"

definition recent :: "instant list \<Rightarrow> instant \<Rightarrow> instant list" where
  "recent ts now = filter (\<lambda>t. \<not> duration_since now t > FLOOD_WINDOW) ts"

text \<open>Every connection found fewer than 30 recent ones before it.\<close>

definition spaced :: "instant list \<Rightarrow> bool" where
  "spaced ts \<longleftrightarrow> (\<forall>us t vs. ts = us @ t # vs \<longrightarrow> length (recent us t) < MAX_CONNECTIONS_PER_WINDOW)"

lemma prune_sorted: "sorted ts \<Longrightarrow> prune ts now = recent ts now"
  unfolding prune_def recent_def
  by (rule dropWhile_eq_filter_sorted) (auto simp: duration_since_def)

lemma spaced_Nil [simp]: "spaced []"
  by (simp add: spaced_def)

lemma spaced_snoc:
  assumes "spaced ts" and "length (recent ts t) < MAX_CONNECTIONS_PER_WINDOW"
  shows "spaced (ts @ [t])"
  unfolding spaced_def
proof (intro allI impI)
  fix us u vs
  assume eq: "ts @ [t] = us @ u # vs"
  show "length (recent us u) < MAX_CONNECTIONS_PER_WINDOW"
  proof (cases vs rule: rev_cases)
    case Nil
    with eq assms(2) show ?thesis by simp
  next
    case (snoc ws w)
    with eq have "ts = us @ u # ws" by simp
    with assms(1) show ?thesis by (simp add: spaced_def)
  qed
qed

lemma prune_append_cong:
  "prune p now = prune q now \<Longrightarrow> prune (p @ xs) now = prune (q @ xs) now"
  by (metis le_refl prune_prune(2))

lemma limiter_run_spaced:
  assumes "sorted (ps @ t0 # ts)" and "\<forall>u\<ge>t0. prune ps u = prune q u" and "spaced ps"
  shows "sorted (ps @ limiter_run (q, b) ts) \<and> spaced (ps @ limiter_run (q, b) ts)"
  using assms
proof (induction ts arbitrary: ps t0 q b)
  case Nil
  then show ?case by (simp add: sorted_append)
next
  case (Cons now ts)
  have le: "t0 \<le> now" and sorted: "sorted (ps @ now # ts)" and now: "prune ps now = prune q now"
    using Cons.prems by (auto simp: sorted_append)
  show ?case
  proof (cases "ban_active now b = None")
    case False
    with Cons.IH [of ps now q b] sorted Cons.prems le show ?thesis
      by (auto simp: limiter_step_def)
  next
    case unbanned: True
    show ?thesis
    proof (cases "length (prune q now) \<ge> MAX_CONNECTIONS_PER_WINDOW")
      case True
      with Cons.IH [of ps now "prune q now"] sorted Cons.prems le unbanned show ?thesis
        by (auto simp: limiter_step_def prune_prune)
    next
      case False
      have cong: "\<forall>u\<ge>now. prune (ps @ [now]) u = prune (prune q now @ [now]) u"
        using Cons.prems(2) le by (auto simp: prune_prune intro!: prune_append_cong)
      have spaced: "spaced (ps @ [now])"
      proof (rule spaced_snoc)
        have "recent ps now = prune q now"
          using sorted now by (simp add: prune_sorted sorted_append)
        with False show "length (recent ps now) < MAX_CONNECTIONS_PER_WINDOW" by simp
      qed (rule Cons.prems(3))
      have "sorted ((ps @ [now]) @ now # ts)" using sorted by (simp add: sorted_append)
      from Cons.IH [OF this cong spaced, of None] show ?thesis
        using False unbanned by (simp add: limiter_step_def)
    qed
  qed
qed

lemma spaced_window:
  assumes "sorted ts" and "spaced ts"
  shows "length (within_window a ts) \<le> MAX_CONNECTIONS_PER_WINDOW"
proof (cases "\<exists>t\<in>set ts. a \<le> t \<and> t \<le> a + FLOOD_WINDOW")
  case False
  then have "within_window a ts = []" by (auto simp: within_window_def filter_empty_conv)
  then show ?thesis by simp
next
  case True
  then obtain us t vs where ts: "ts = us @ t # vs" and t: "a \<le> t" "t \<le> a + FLOOD_WINDOW"
    and vs: "\<forall>v\<in>set vs. \<not> (a \<le> v \<and> v \<le> a + FLOOD_WINDOW)"
    using split_list_last_prop [of ts "\<lambda>t. a \<le> t \<and> t \<le> a + FLOOD_WINDOW"] by auto
  have "length (within_window a us) \<le> length (recent us t)"
    unfolding within_window_def recent_def
    using t assms(1) ts
    by (intro length_filter_mono) (auto simp: duration_since_def sorted_append)
  moreover have "length (recent us t) < MAX_CONNECTIONS_PER_WINDOW"
    using assms(2) ts by (auto simp: spaced_def)
  ultimately show ?thesis
    using t vs by (simp add: ts within_window_def filter_empty_conv)
qed

lemma accepted_of_within:
  "length (filter (\<lambda>(i, t). to_canonical i = ip \<and> a \<le> t \<and> t \<le> a + FLOOD_WINDOW) conns) =
    length (within_window a (accepted_of ip conns))"
  by (induction conns) (auto simp: within_window_def split: if_splits)

text \<open>
  C24. In no ten second window does the server accept more than 30 connections from one address
  that is not exempt, whatever else connects and whenever the tables are swept.
\<close>

theorem accepted_in_window_bounded:
  assumes "sorted (accept_times rs)" and "\<not> is_allowlisted ip"
  shows "length (filter (\<lambda>(i, t). to_canonical i = ip \<and> a \<le> t \<and> t \<le> a + FLOOD_WINDOW)
      (acceptor_run guard_default rs)) \<le> 30"
proof -
  let ?ts = "own_times ip rs"
  have "sorted ([] @ 0 # ?ts)" using sorted_own_times [OF assms(1)] by simp
  from limiter_run_spaced [OF this, of "[]" None] spaced_window [of "limiter_run ([], None) ?ts" a]
  show ?thesis
    by (simp add: accepted_of_within acceptor_run_limiter [OF assms(2) guard_at_default, of 0]
        assms(1) MAX_CONNECTIONS_PER_WINDOW_def)
qed

theorem accepted_in_window_bounded_witness:
  "length (filter (\<lambda>(i, t). to_canonical i = V4 5 \<and> 0 \<le> t \<and> t \<le> 0 + FLOOD_WINDOW)
      (acceptor_run guard_default (map (Accepted (V4 5)) [1, 2, 2]))) \<le> 30"
  by (rule accepted_in_window_bounded)
    (simp_all add: is_allowlisted_def V4_LOCALHOST_def V6_LOCALHOST_def)

lemma limiter_run_all:
  assumes "sorted (ps @ t0 # ts)" and "\<forall>u\<ge>t0. prune ps u = prune q u"
    and "\<forall>a. length (within_window a (ps @ ts)) \<le> MAX_CONNECTIONS_PER_WINDOW"
  shows "limiter_run (q, None) ts = ts"
  using assms
proof (induction ts arbitrary: ps t0 q)
  case Nil
  show ?case by simp
next
  case (Cons now ts)
  have le: "t0 \<le> now" and sorted: "sorted ((ps @ [now]) @ now # ts)"
    and now: "recent ps now = prune q now"
    using Cons.prems(1,2) by (auto simp: sorted_append prune_sorted [symmetric])
  have cong: "\<forall>u\<ge>now. prune (ps @ [now]) u = prune (prune q now @ [now]) u"
    using Cons.prems(2) le by (auto simp: prune_prune intro!: prune_append_cong)
  have "within_window (now - FLOOD_WINDOW) (ps @ [now]) = recent ps now @ [now]"
    using sorted
    by (auto simp: within_window_def recent_def duration_since_def sorted_append
        intro!: filter_cong)
  moreover have "within_window a (ps @ now # ts) = within_window a (ps @ [now]) @ within_window a ts" for a
    by (simp add: within_window_def)
  ultimately have "Suc (length (prune q now)) \<le>
      length (within_window (now - FLOOD_WINDOW) (ps @ now # ts))"
    using now by simp
  also have "\<dots> \<le> MAX_CONNECTIONS_PER_WINDOW" using Cons.prems(3) by blast
  finally have "length (prune q now) < MAX_CONNECTIONS_PER_WINDOW" by simp
  moreover have "limiter_run (prune q now @ [now], None) ts = ts"
    using Cons.prems(3) by (intro Cons.IH [OF sorted cong]) simp
  ultimately show ?case by (simp add: limiter_step_def)
qed

text \<open>
  An address that never tries more than 30 times within ten seconds is never refused: all its
  connections are accepted.
\<close>

theorem moderate_address_never_blocked:
  assumes "sorted (accept_times rs)" and "\<not> is_allowlisted ip"
    and "\<forall>a. length (within_window a (own_times ip rs)) \<le> 30"
  shows "accepted_of ip (acceptor_run guard_default rs) = own_times ip rs"
proof -
  have "sorted ([] @ 0 # own_times ip rs)" using sorted_own_times [OF assms(1)] by simp
  then have "limiter_run ([], None) (own_times ip rs) = own_times ip rs"
    using assms(3) by (intro limiter_run_all [of "[]" 0]) (simp_all add: MAX_CONNECTIONS_PER_WINDOW_def)
  then show ?thesis
    using acceptor_run_limiter [OF assms(2) guard_at_default, of 0] assms(1) by simp
qed

theorem moderate_address_never_blocked_witness:
  "accepted_of (V4 5) (acceptor_run guard_default [Accepted (V4 5) 1, Accepted (V4 5) 2]) = [1, 2]"
proof -
  have "length (within_window a [1, 2]) \<le> 30" for a
    using length_filter_le [of _ "[1, 2]"] unfolding within_window_def
    by (rule order_trans) simp
  then show ?thesis
    using moderate_address_never_blocked [of "[Accepted (V4 5) 1, Accepted (V4 5) 2]" "V4 5"]
    by (simp add: is_allowlisted_def V4_LOCALHOST_def V6_LOCALHOST_def to_canonical_def)
qed

section \<open>Bans\<close>

lemma limiter_run_banned:
  assumes "ban_active t0 b = Some until" and "sorted (t0 # ts)" and "t \<in> set (limiter_run (q, b) ts)"
  shows "until \<le> t"
  using assms
proof (induction ts arbitrary: t0)
  case Nil
  then show ?case by simp
next
  case (Cons now ts)
  have b: "b = Some until" using Cons.prems(1) by (auto simp: ban_active_def split: option.splits if_splits)
  show ?case
  proof (cases "now < until")
    case True
    with b have "ban_active now b = Some until" by (simp add: ban_active_def)
    with Cons.IH [of now] Cons.prems show ?thesis by (simp add: limiter_step_def)
  next
    case False
    have "set (limiter_run l us) \<subseteq> set us" for l us
      by (induction us arbitrary: l) (auto split: prod.splits bool.splits)
    with Cons.prems(2,3) False show ?thesis
      by (fastforce split: prod.splits bool.splits)
  qed
qed

text \<open>
  When the guard refuses a connection, the address has a ban that ends in the future: either
  the one it already had, or one of ten minutes from now. Until it ends, no connection of that
  address in either spelling is accepted, whatever the other addresses do.
\<close>

theorem blocked_until_ban_ends:
  assumes "should_block ip now g = (True, g')" and "sorted (now # accept_times rs)"
  shows "\<exists>until. banned_until g' (to_canonical ip) = Some until \<and> now < until \<and>
    (banned_until g (to_canonical ip) = Some until \<or> until = now + BAN_DURATION) \<and>
    (\<forall>t\<in>set (accepted_of (to_canonical ip) (acceptor_run g' rs)). until \<le> t)"
proof -
  let ?ip = "to_canonical ip"
  have exempt: "\<not> is_allowlisted ?ip" using assms(1) by (auto simp: should_block_def)
  have "\<exists>until. banned_until g' ?ip = Some until \<and> now < until \<and>
      (banned_until g ?ip = Some until \<or> until = now + BAN_DURATION)"
    using assms(1) unfolding should_block_eq [OF refl exempt]
    by (auto simp: Let_def ban_active_def BAN_DURATION_def from_secs_def
        split: if_splits option.splits)
  then obtain until where until: "banned_until g' ?ip = Some until" "now < until"
    "banned_until g ?ip = Some until \<or> until = now + BAN_DURATION" by blast
  let ?l = "(guard_queue ?ip g', banned_until g' ?ip)"
  have "guard_at now ?ip g' = limiter_at now ?l" by (simp add: guard_at_def guard_queue_def)
  from acceptor_run_limiter [OF exempt this assms(2)]
  have "accepted_of ?ip (acceptor_run g' rs) = limiter_run ?l (own_times ?ip rs)" .
  moreover have "sorted (now # own_times ?ip rs)"
    using assms(2) set_own_times [of ?ip rs] by (auto intro: sorted_own_times)
  ultimately have "\<forall>t\<in>set (accepted_of ?ip (acceptor_run g' rs)). until \<le> t"
    using limiter_run_banned [of now "banned_until g' ?ip" until] until
    by (auto simp: ban_active_def)
  with until show ?thesis by blast
qed

theorem blocked_until_ban_ends_witness:
  "\<exists>g'. \<forall>t\<in>set (accepted_of (V4 5) (acceptor_run g' [Accepted (V4 5) 9, Accepted (V4 5) (700 * 10 ^ 9)])).
    BAN_DURATION + 1 \<le> t"
proof -
  let ?g = "guard_default\<lparr>timestamps := [V4 5 \<mapsto> replicate 30 1]\<rparr>"
  have ip: "to_canonical (V4 5) = V4 5" "\<not> is_allowlisted (V4 5)"
    by (simp_all add: to_canonical_def is_allowlisted_def V4_LOCALHOST_def V6_LOCALHOST_def)
  have q: "prune (guard_queue (V4 5) ?g) 1 = replicate 30 1"
    by (simp add: guard_queue_def prune_def duration_since_def dropWhile_eq_self_iff)
  have "should_block (V4 5) 1 ?g = (True, snd (should_block (V4 5) 1 ?g))"
    unfolding should_block_eq [OF ip] q
    by (simp add: guard_default_def MAX_CONNECTIONS_PER_WINDOW_def Let_def)
  from blocked_until_ban_ends [OF this, of "[Accepted (V4 5) 9, Accepted (V4 5) (700 * 10 ^ 9)]"]
  show ?thesis by (auto simp: ip guard_default_def add.commute)
qed

lemma to_canonical_mapped [simp]: "to_canonical (to_ipv6_mapped a) = V4 a"
proof -
  have ones: "(0xFFFF :: 128 word) = mask 16" by (simp add: mask_eq_exp_minus_1)
  have "drop_bit 32 (push_bit 32 (mask 16) OR ucast a :: 128 word) = mask 16"
    by (rule bit_word_eqI) (auto simp: bit_simps dest: bit_imp_le_length)
  moreover have "ucast (push_bit 32 (mask 16) OR ucast a :: 128 word) = a"
    by (rule bit_word_eqI) (auto simp: bit_simps)
  ultimately show ?thesis by (simp add: to_canonical_def to_ipv6_mapped_def ones)
qed

text \<open>
  An IPv4 address is counted the same in its IPv6-mapped spelling, and the three spellings of
  the local host are always let through without being recorded.
\<close>

theorem mapped_and_local_addresses:
  "should_block (to_ipv6_mapped a) now g = should_block (V4 a) now g \<and>
   should_block V4_LOCALHOST now g = (False, g) \<and>
   should_block V6_LOCALHOST now g = (False, g) \<and>
   should_block (to_ipv6_mapped 0x7F000001) now g = (False, g)"
proof -
  have "to_canonical (V4 a) = V4 a" for a by (simp add: to_canonical_def)
  moreover have "to_canonical V6_LOCALHOST = V6_LOCALHOST"
    by (simp add: to_canonical_def V6_LOCALHOST_def)
  ultimately show ?thesis
    by (simp add: should_block_def V4_LOCALHOST_def is_allowlisted_def)
qed

section \<open>Memory\<close>

fun acceptor_guard :: "connection_guard \<Rightarrow> accept_result list \<Rightarrow> connection_guard" where
  "acceptor_guard g [] = g"
| "acceptor_guard g (AcceptFailed # rs) = acceptor_guard g rs"
| "acceptor_guard g (Accepted ip now # rs) = acceptor_guard (snd (should_block ip now g)) rs"

definition guard_swept :: "instant \<Rightarrow> connection_guard \<Rightarrow> bool" where
  "guard_swept now g \<longleftrightarrow>
     (case last_sweep g of
        None \<Rightarrow> timestamps g = Map.empty
      | Some s \<Rightarrow> s \<le> now \<and>
          (\<forall>ip q. timestamps g ip = Some q \<longrightarrow> (\<exists>t\<in>set q. duration_since s t \<le> FLOOD_WINDOW)))"

lemma prune_hd:
  assumes "prune q now \<noteq> []"
  shows "\<exists>t\<in>set (prune q now). duration_since now t \<le> FLOOD_WINDOW"
proof -
  have "hd (prune q now) \<in> set (prune q now)" using assms by simp
  moreover have "duration_since now (hd (prune q now)) \<le> FLOOD_WINDOW"
    using hd_dropWhile [of "\<lambda>t. duration_since now t > FLOOD_WINDOW" q] assms
    by (simp add: prune_def)
  ultimately show ?thesis by blast
qed

lemma sweep_if_due_swept:
  assumes "last_sweep g \<noteq> None \<longrightarrow> guard_swept now g"
  shows "guard_swept now (sweep_if_due now g)"
    and "\<exists>s. last_sweep (sweep_if_due now g) = Some s \<and> now < s + SWEEP_INTERVAL"
proof -
  have interval: "0 < SWEEP_INTERVAL" by (simp add: SWEEP_INTERVAL_def from_secs_def)
  then show "\<exists>s. last_sweep (sweep_if_due now g) = Some s \<and> now < s + SWEEP_INTERVAL"
    by (auto simp: sweep_if_due_def duration_since_def split: option.splits)
  show "guard_swept now (sweep_if_due now g)"
    using assms prune_hd
    by (auto simp: sweep_if_due_def guard_swept_def map_simps Let_def split: option.splits if_splits)
qed

lemma guard_swept_record:
  assumes "guard_swept t0 g" and "t0 \<le> now" and "\<exists>t\<in>set q. duration_since now t \<le> FLOOD_WINDOW"
  shows "last_sweep (guard_record ip q g) \<noteq> None \<longrightarrow> guard_swept now (guard_record ip q g)"
proof (cases "last_sweep g")
  case None
  then show ?thesis by (simp add: guard_record_def)
next
  case (Some s)
  obtain t where "t \<in> set q" "duration_since now t \<le> FLOOD_WINDOW" using assms(3) by blast
  moreover have "s \<le> now" using assms(1,2) Some by (simp add: guard_swept_def)
  ultimately have "\<exists>t\<in>set q. duration_since s t \<le> FLOOD_WINDOW"
    by (intro bexI [of _ t]) (auto simp: duration_since_def)
  with assms(1) Some \<open>s \<le> now\<close> show ?thesis
    by (simp add: guard_swept_def guard_record_def)
qed

lemma should_block_swept:
  assumes "guard_swept t0 g" and "t0 \<le> now" and "should_block ip now g = (r, g')"
  shows "guard_swept now g'"
proof -
  have mono: "guard_swept now g" using assms(1,2) by (auto simp: guard_swept_def split: option.splits)
  let ?ip = "to_canonical ip" and ?q = "prune (guard_queue (to_canonical ip) g) now"
  have ban: "guard_swept now (h\<lparr>banned_until := b\<rparr>) = guard_swept now h" for h b
    by (simp add: guard_swept_def split: option.split)
  have recorded: "guard_swept now (sweep_if_due now (guard_record ?ip q g))"
    if "\<exists>t\<in>set q. duration_since now t \<le> FLOOD_WINDOW" for q
    using guard_swept_record [OF assms(1,2) that] by (rule sweep_if_due_swept(1))
  have full: "guard_swept now (sweep_if_due now (guard_record ?ip ?q g))"
    if "length ?q \<ge> MAX_CONNECTIONS_PER_WINDOW"
    using that by (intro recorded prune_hd) (auto simp: MAX_CONNECTIONS_PER_WINDOW_def)
  have free: "guard_swept now (sweep_if_due now (guard_record ?ip (?q @ [now]) g))"
    by (rule recorded) (simp add: duration_since_def)
  show ?thesis
    using assms(3) mono full free
    by (cases "is_allowlisted ?ip")
      (auto simp: should_block_eq [OF refl] Let_def ban split: if_splits)
qed

lemma acceptor_guard_swept:
  "guard_swept t0 g \<Longrightarrow> sorted (t0 # accept_times rs @ [now]) \<Longrightarrow> guard_swept now (acceptor_guard g rs)"
proof (induction g rs arbitrary: t0 rule: acceptor_guard.induct)
  case (1 g)
  then show ?case by (auto simp: guard_swept_def split: option.splits)
next
  case (2 g rs)
  then show ?case by simp
next
  case (3 g ip t rs)
  obtain r g' where "should_block ip t g = (r, g')" by fastforce
  with 3 should_block_swept [of t0 g t ip r g'] show ?case by simp
qed

text \<open>
  The guard's memory does not grow with the addresses it has ever seen: when it has just
  accepted a connection of an address that is not exempt, every address it still tracks has a
  recorded connection from the last 70 seconds.
\<close>

theorem tracked_addresses_recent:
  assumes "sorted (accept_times rs @ [now])"
    and "should_block ip now (acceptor_guard guard_default rs) = (False, g)"
    and "\<not> is_allowlisted (to_canonical ip)"
    and "timestamps g ip' = Some q"
  shows "\<exists>t\<in>set q. now < t + from_secs 70"
proof -
  let ?g = "acceptor_guard guard_default rs"
  have swept: "guard_swept now ?g"
    using assms(1) by (intro acceptor_guard_swept [of 0]) (simp_all add: guard_swept_def guard_default_def)
  let ?q = "prune (guard_queue (to_canonical ip) ?g) now"
  have g: "g = sweep_if_due now (guard_record (to_canonical ip) (?q @ [now]) ?g)"
    using assms(2) unfolding should_block_eq [OF refl assms(3)]
    by (auto simp: Let_def split: if_splits)
  have "last_sweep (guard_record (to_canonical ip) (?q @ [now]) ?g) \<noteq> None \<longrightarrow>
      guard_swept now (guard_record (to_canonical ip) (?q @ [now]) ?g)"
    by (rule guard_swept_record [OF swept le_refl]) (simp add: duration_since_def)
  note sw = sweep_if_due_swept [OF this, folded g]
  from sw(2) obtain s where "last_sweep g = Some s" "now < s + SWEEP_INTERVAL" by blast
  moreover from this sw(1) assms(4) obtain t where "t \<in> set q" "duration_since s t \<le> FLOOD_WINDOW"
    by (auto simp: guard_swept_def)
  ultimately show ?thesis
    by (intro bexI [of _ t]) (auto simp: duration_since_def const_defs SWEEP_INTERVAL_def)
qed

theorem tracked_addresses_recent_witness:
  "\<exists>t\<in>{1, 2}. (2::nat) < t + from_secs 70"
proof -
  have ip: "to_canonical (V4 5) = V4 5" "\<not> is_allowlisted (V4 5)"
    by (simp_all add: to_canonical_def is_allowlisted_def V4_LOCALHOST_def V6_LOCALHOST_def)
  let ?g = "acceptor_guard guard_default [Accepted (V4 5) 1]"
  have g: "?g = \<lparr>timestamps = [V4 5 \<mapsto> [1]], banned_until = Map.empty, last_sweep = Some 1\<rparr>"
    by (simp add: should_block_eq [OF ip] guard_default_def guard_queue_def guard_record_def
        sweep_if_due_def hm_retain_def prune_def duration_since_def const_defs Let_def fun_eq_iff)
  have "should_block (V4 5) 2 ?g =
      (False, \<lparr>timestamps = [V4 5 \<mapsto> [1, 2]], banned_until = Map.empty, last_sweep = Some 1\<rparr>)"
    unfolding g
    by (simp add: should_block_eq [OF ip] guard_queue_def guard_record_def fun_eq_iff
        sweep_if_due_def prune_def duration_since_def const_defs Let_def SWEEP_INTERVAL_def)
  from tracked_addresses_recent [OF _ this, of "V4 5" "[1, 2]"] show ?thesis by (simp add: ip)
qed

end
