(* ===== verification/Registry.thy ===== *)
theory Registry
  imports Prelude
begin

text \<open>
  \<open>crates/net/src/registry.rs\<close>: the sessions that are connected and the session each user is logged
  in with. Both servers use it. A \<open>CancellationToken\<close> is a value of the type parameter \<open>'k\<close>; an
  operation that cancels tokens returns them.
\<close>

section \<open>The registry\<close>

record session_info =
  si_session_id :: u64
  si_user_id :: "string option"

definition is_authenticated :: "session_info \<Rightarrow> bool" where
  "is_authenticated i \<longleftrightarrow> si_user_id i \<noteq> None"

record 'k registry_entry =
  entry_user_id :: "string option"
  entry_kick :: 'k

record 'k registry =
  sessions :: "u64 \<rightharpoonup> 'k registry_entry"
  authenticated :: "string \<rightharpoonup> u64"

definition registry_default :: "'k registry" where
  "registry_default = \<lparr>sessions = Map.empty, authenticated = Map.empty\<rparr>"

definition register :: "u64 \<Rightarrow> 'k \<Rightarrow> 'k registry \<Rightarrow> 'k registry" where
  "register session_id kick r =
     r\<lparr>sessions := (sessions r)(session_id \<mapsto> \<lparr>entry_user_id = None, entry_kick = kick\<rparr>)\<rparr>"

definition remove_session :: "u64 \<Rightarrow> 'k registry \<Rightarrow> 'k registry" where
  "remove_session session_id r =
     (case sessions r session_id of
        None \<Rightarrow> r
      | Some entry \<Rightarrow>
          let r = r\<lparr>sessions := (sessions r)(session_id := None)\<rparr> in
          (case entry_user_id entry of
             None \<Rightarrow> r
           | Some user_id \<Rightarrow>
               if authenticated r user_id = Some session_id
               then r\<lparr>authenticated := (authenticated r)(user_id := None)\<rparr>
               else r))"

definition authenticate :: "u64 \<Rightarrow> string \<Rightarrow> 'k registry \<Rightarrow> 'k registry \<times> 'k list" where
  "authenticate session_id user_id r =
     (let r1 = (case sessions r session_id of
            None \<Rightarrow> r
          | Some entry \<Rightarrow>
              r\<lparr>sessions := (sessions r)(session_id \<mapsto> entry\<lparr>entry_user_id := Some user_id\<rparr>)\<rparr>);
          old = authenticated r1 user_id;
          r2 = r1\<lparr>authenticated := (authenticated r1)(user_id \<mapsto> session_id)\<rparr>
      in (r2,
          case old of
            None \<Rightarrow> []
          | Some old_id \<Rightarrow>
              if old_id \<noteq> session_id
              then (case sessions r2 old_id of None \<Rightarrow> [] | Some old_entry \<Rightarrow> [entry_kick old_entry])
              else []))"

definition disconnect :: "u64 \<Rightarrow> 'k registry \<Rightarrow> bool \<times> 'k list" where
  "disconnect session_id r =
     (case sessions r session_id of
        None \<Rightarrow> (False, [])
      | Some entry \<Rightarrow> (True, [entry_kick entry]))"

definition count :: "'k registry \<Rightarrow> nat" where
  "count r = hm_len (sessions r)"

text \<open>The order of \<open>snapshot\<close>'s vector is the hash map's and carries no meaning: it is a set here.\<close>

definition snapshot :: "'k registry \<Rightarrow> session_info set" where
  "snapshot r =
     {\<lparr>si_session_id = i, si_user_id = entry_user_id e\<rparr> | i e. sessions r i = Some e}"

section \<open>The contract of a session directory\<close>

text \<open>
  What the servers rely on, in terms of three observers: the user and the kick token of a connected
  session, and the session that owns a user. \<open>dir_inv\<close> is the invariant: a session that is logged in
  and whose token is not among the cancelled ones owns its user.
\<close>

locale session_directory =
  fixes user_of :: "'r \<Rightarrow> u64 \<rightharpoonup> string"
    and kick_of :: "'r \<Rightarrow> u64 \<rightharpoonup> 'k"
    and owner :: "'r \<Rightarrow> string \<rightharpoonup> u64"
    and reg :: "u64 \<Rightarrow> 'k \<Rightarrow> 'r \<Rightarrow> 'r"
    and rem :: "u64 \<Rightarrow> 'r \<Rightarrow> 'r"
    and auth :: "u64 \<Rightarrow> string \<Rightarrow> 'r \<Rightarrow> 'r \<times> 'k list"
  assumes present: "user_of r i = Some u \<Longrightarrow> kick_of r i \<noteq> None"
    and reg_user: "user_of (reg i k r) = (user_of r)(i := None)"
    and reg_kick: "kick_of (reg i k r) = (kick_of r)(i \<mapsto> k)"
    and reg_owner: "owner (reg i k r) = owner r"
    and rem_user: "user_of (rem i r) = (user_of r)(i := None)"
    and rem_kick: "kick_of (rem i r) = (kick_of r)(i := None)"
    and rem_owner: "owner (rem i r) u =
      (if user_of r i = Some u \<and> owner r u = Some i then None else owner r u)"
    and auth_user: "user_of (fst (auth i u r)) =
      (if kick_of r i = None then user_of r else (user_of r)(i \<mapsto> u))"
    and auth_kick: "kick_of (fst (auth i u r)) = kick_of r"
    and auth_owner: "owner (fst (auth i u r)) = (owner r)(u \<mapsto> i)"
    and auth_cancels: "k \<in> set (snd (auth i u r)) \<longleftrightarrow>
      (\<exists>old. owner r u = Some old \<and> old \<noteq> i \<and> kick_of r old = Some k)"
begin

definition dir_inv :: "'r \<Rightarrow> 'k set \<Rightarrow> bool" where
  "dir_inv r C \<longleftrightarrow>
     (\<forall>i u k. user_of r i = Some u \<longrightarrow> kick_of r i = Some k \<longrightarrow> k \<notin> C \<longrightarrow> owner r u = Some i)"

lemma dir_inv_mono: "dir_inv r C \<Longrightarrow> C \<subseteq> D \<Longrightarrow> dir_inv r D"
  by (auto simp: dir_inv_def)

lemma dir_inv_reg: "dir_inv r C \<Longrightarrow> dir_inv (reg i k r) C"
  by (simp add: dir_inv_def reg_user reg_kick reg_owner)

lemma dir_inv_rem: "dir_inv r C \<Longrightarrow> dir_inv (rem i r) C"
  by (auto simp: dir_inv_def rem_user rem_kick rem_owner)

lemma dir_inv_auth: "dir_inv r C \<Longrightarrow> dir_inv (fst (auth i u r)) (C \<union> set (snd (auth i u r)))"
  by (auto simp: dir_inv_def auth_user auth_kick auth_owner auth_cancels split: if_splits)

lemma dir_inv_unique:
  assumes "dir_inv r C" and "user_of r i = Some u" and "user_of r j = Some u"
    and "kick_of r i = Some k" "k \<notin> C" and "kick_of r j = Some l" "l \<notin> C"
  shows "i = j"
  using assms unfolding dir_inv_def by (metis option.inject)

text \<open>
  The converse, that an owner is a connected session logged in as that user, needs the callers'
  discipline: ids are registered fresh, and a session is logged in only while it is connected
  and never as a second user.
\<close>

definition owners_sound :: "'r \<Rightarrow> bool" where
  "owners_sound r \<longleftrightarrow> (\<forall>u i. owner r u = Some i \<longrightarrow> user_of r i = Some u)"

lemma owners_sound_reg: "owners_sound r \<Longrightarrow> kick_of r i = None \<Longrightarrow> owners_sound (reg i k r)"
  using present by (fastforce simp: owners_sound_def reg_user reg_owner)

lemma owners_sound_rem: "owners_sound r \<Longrightarrow> owners_sound (rem i r)"
  by (auto simp: owners_sound_def rem_user rem_owner)

lemma owners_sound_auth:
  "owners_sound r \<Longrightarrow> kick_of r i \<noteq> None \<Longrightarrow> user_of r i \<in> {None, Some u} \<Longrightarrow>
    owners_sound (fst (auth i u r))"
  by (auto simp: owners_sound_def auth_user auth_owner split: if_splits)

end

definition registry_user :: "'k registry \<Rightarrow> u64 \<rightharpoonup> string" where
  "registry_user r i = (case sessions r i of None \<Rightarrow> None | Some e \<Rightarrow> entry_user_id e)"

definition registry_kick :: "'k registry \<Rightarrow> u64 \<rightharpoonup> 'k" where
  "registry_kick r i = map_option entry_kick (sessions r i)"

lemma registry_observers [simp]:
  "registry_user registry_default = Map.empty"
  "registry_kick registry_default = Map.empty"
  "authenticated registry_default = Map.empty"
  by (simp_all add: registry_user_def registry_kick_def registry_default_def fun_eq_iff)

lemma register_observers:
  "registry_user (register i k r) = (registry_user r)(i := None)"
  "registry_kick (register i k r) = (registry_kick r)(i \<mapsto> k)"
  "authenticated (register i k r) = authenticated r"
  by (auto simp: registry_user_def registry_kick_def register_def)

lemma remove_observers:
  "registry_user (remove_session i r) = (registry_user r)(i := None)"
  "registry_kick (remove_session i r) = (registry_kick r)(i := None)"
  "authenticated (remove_session i r) u =
    (if registry_user r i = Some u \<and> authenticated r u = Some i then None else authenticated r u)"
  by (auto simp: registry_user_def registry_kick_def remove_session_def Let_def
      split: option.splits)

lemma authenticate_observers:
  "registry_user (fst (authenticate i u r)) =
    (if registry_kick r i = None then registry_user r else (registry_user r)(i \<mapsto> u))"
  "registry_kick (fst (authenticate i u r)) = registry_kick r"
  "authenticated (fst (authenticate i u r)) = (authenticated r)(u \<mapsto> i)"
  by (auto simp: registry_user_def registry_kick_def authenticate_def Let_def
      split: option.splits)

lemma authenticate_cancels:
  "k \<in> set (snd (authenticate i u r)) \<longleftrightarrow>
    (\<exists>old. authenticated r u = Some old \<and> old \<noteq> i \<and> registry_kick r old = Some k)"
proof (cases "authenticated r u")
  case None
  then show ?thesis
    by (cases "sessions r i") (simp_all add: authenticate_def Let_def)
next
  case (Some old)
  then show ?thesis
    unfolding authenticate_def registry_kick_def Let_def
    by (cases "sessions r i"; cases "sessions r old"; cases "old = i") (simp_all, blast+)
qed

interpretation dir: session_directory registry_user registry_kick authenticated
  register remove_session authenticate
  by unfold_locales
    (simp_all add: register_observers remove_observers authenticate_observers
      authenticate_cancels, auto simp: registry_user_def registry_kick_def split: option.splits)

section \<open>Histories of the registry\<close>

text \<open>
  All that ever happens to a registry and to the tokens it holds: the four operations, and tokens
  cancelled from outside (server shutdown, a failed writer). The second component of the state is
  the set of cancelled tokens.
\<close>

datatype 'k registry_op =
    Register u64 'k
  | Remove u64
  | Authenticate u64 string
  | Disconnect u64
  | CancelToken 'k

fun registry_step :: "'k registry_op \<Rightarrow> 'k registry \<times> 'k set \<Rightarrow> 'k registry \<times> 'k set" where
  "registry_step (Register i k) (r, C) = (register i k r, C)"
| "registry_step (Remove i) (r, C) = (remove_session i r, C)"
| "registry_step (Authenticate i u) (r, C) =
     (fst (authenticate i u r), C \<union> set (snd (authenticate i u r)))"
| "registry_step (Disconnect i) (r, C) = (r, C \<union> set (snd (disconnect i r)))"
| "registry_step (CancelToken k) (r, C) = (r, insert k C)"

definition registry_run :: "'k registry_op list \<Rightarrow> 'k registry \<times> 'k set" where
  "registry_run ops = fold registry_step ops (registry_default, {})"

lemma registry_step_inv:
  "dir.dir_inv r C \<Longrightarrow> registry_step op (r, C) = (r', C') \<Longrightarrow> dir.dir_inv r' C'"
  by (cases op)
    (auto intro: dir.dir_inv_reg dir.dir_inv_rem dir.dir_inv_auth elim: dir.dir_inv_mono)

lemma registry_step_cancelled_mono: "snd s \<subseteq> snd (registry_step op s)"
  by (cases s; cases op) auto

lemma registry_steps_cancelled_mono: "snd s \<subseteq> snd (fold registry_step ops s)"
proof (induction ops arbitrary: s)
  case (Cons op ops)
  have "snd s \<subseteq> snd (registry_step op s)" by (rule registry_step_cancelled_mono)
  also have "\<dots> \<subseteq> snd (fold registry_step ops (registry_step op s))" by (rule Cons)
  finally show ?case by simp
qed simp

lemma registry_run_snoc:
  "registry_run (ops @ [op]) = registry_step op (registry_run ops)"
  by (simp add: registry_run_def)

lemma registry_run_inv: "registry_run ops = (r, C) \<Longrightarrow> dir.dir_inv r C"
proof (induction ops arbitrary: r C rule: rev_induct)
  case Nil
  then show ?case by (auto simp: registry_run_def dir.dir_inv_def)
next
  case (snoc op ops)
  obtain r' C' where "registry_run ops = (r', C')" by fastforce
  with snoc registry_step_inv show ?case by (simp add: registry_run_snoc)
qed

text \<open>
  C30. After any history, two sessions that are logged in as the same user and have not been told
  to stop are the same session.
\<close>

theorem one_live_session_per_user:
  assumes "registry_run ops = (r, C)"
    and "sessions r i = Some e" "entry_user_id e = Some u" "entry_kick e \<notin> C"
    and "sessions r j = Some f" "entry_user_id f = Some u" "entry_kick f \<notin> C"
  shows "i = j"
  using dir.dir_inv_unique [OF registry_run_inv [OF assms(1)], of i u j "entry_kick e" "entry_kick f"]
    assms by (simp add: registry_user_def registry_kick_def)

definition relogin_history :: "nat registry_op list" where
  "relogin_history =
     [Register 1 10, Register 2 20, Authenticate 1 ''a'', Authenticate 2 ''a'']"

lemma relogin_history_run:
  "registry_run relogin_history =
    (\<lparr>sessions = [1 \<mapsto> \<lparr>entry_user_id = Some ''a'', entry_kick = 10\<rparr>,
                 2 \<mapsto> \<lparr>entry_user_id = Some ''a'', entry_kick = 20\<rparr>],
      authenticated = [''a'' \<mapsto> 2]\<rparr>, {10})"
  by (simp add: registry_run_def relogin_history_def register_def authenticate_def
      registry_default_def fun_eq_iff)

theorem one_live_session_per_user_witness:
  "{i. \<exists>e. sessions (fst (registry_run relogin_history)) i = Some e \<and>
      entry_user_id e = Some ''a'' \<and> entry_kick e \<notin> {10}} = {2}"
proof -
  have "i = 2" if "sessions (fst (registry_run relogin_history)) i = Some e"
    "entry_user_id e = Some ''a''" "entry_kick e \<notin> {10}" for i e
    by (rule one_live_session_per_user [OF relogin_history_run
          that [unfolded relogin_history_run fst_conv],
          of 2 "\<lparr>entry_user_id = Some ''a'', entry_kick = 20\<rparr>"]) simp_all
  moreover have "\<exists>e. sessions (fst (registry_run relogin_history)) 2 = Some e \<and>
      entry_user_id e = Some ''a'' \<and> entry_kick e \<notin> {10}"
    by (simp add: relogin_history_run)
  ultimately show ?thesis by blast
qed

lemma finite_registry_run: "finite (dom (sessions (fst (registry_run ops))))"
proof (induction ops rule: rev_induct)
  case Nil
  show ?case by (simp add: registry_run_def registry_default_def)
next
  case (snoc op ops)
  obtain r C where r: "registry_run ops = (r, C)" by fastforce
  have "dom (sessions r') \<subseteq> insert i (dom (sessions r))"
    if "r' = register i k r \<or> r' = remove_session i r \<or> r' = fst (authenticate i u r)" for r' i k u
    using that
    by (auto simp: register_def remove_session_def authenticate_def Let_def
        split: option.splits if_splits)
  with snoc r have "finite (dom (sessions r'))"
    if "r' = register i k r \<or> r' = remove_session i r \<or> r' = fst (authenticate i u r)" for r' i k u
    using that by (metis finite_insert finite_subset fst_conv)
  with snoc r show ?case by (cases op) (auto simp: registry_run_snoc)
qed

lemma snapshot_image:
  "snapshot r = (\<lambda>i. \<lparr>si_session_id = i, si_user_id = registry_user r i\<rparr>) ` dom (sessions r)"
  by (force simp: snapshot_def registry_user_def)

lemma count_snapshot: "count r = card (snapshot r)"
  unfolding count_def hm_len_def snapshot_image
  by (rule card_image [symmetric]) (simp add: inj_on_def)

text \<open>
  Removing a session takes exactly it out of the snapshot and the count, and takes away the
  ownership of its user only if that ownership is its own: the session that replaced it keeps it.
\<close>

theorem remove_session_exact:
  "snapshot (remove_session i r) = {s \<in> snapshot r. si_session_id s \<noteq> i} \<and>
   count (remove_session i r) = card {s \<in> snapshot r. si_session_id s \<noteq> i} \<and>
   authenticated (remove_session i r) u =
     (if authenticated r u = Some i \<and> registry_user r i = Some u then None else authenticated r u)"
proof -
  have "dom (sessions (remove_session i r)) = dom (sessions r) - {i}"
    by (auto simp: remove_session_def Let_def split: option.splits if_splits)
  then have snapshot: "snapshot (remove_session i r) = {s \<in> snapshot r. si_session_id s \<noteq> i}"
    by (auto simp: snapshot_image remove_observers)
  then show ?thesis by (simp add: count_snapshot remove_observers)
qed

text \<open>The discipline: an id is registered once, and a session logs in while it is connected and as
  one user only.\<close>

fun disciplined :: "'k registry \<times> 'k set \<Rightarrow> 'k registry_op list \<Rightarrow> bool" where
  "disciplined s [] = True"
| "disciplined s (op # ops) =
     ((case op of
         Register i k \<Rightarrow> sessions (fst s) i = None
       | Authenticate i u \<Rightarrow>
           sessions (fst s) i \<noteq> None \<and> registry_user (fst s) i \<in> {None, Some u}
       | _ \<Rightarrow> True) \<and>
      disciplined (registry_step op s) ops)"

lemma disciplined_owners_sound:
  "disciplined s ops \<Longrightarrow> dir.owners_sound (fst s) \<Longrightarrow>
    dir.owners_sound (fst (fold registry_step ops s))"
proof (induction ops arbitrary: s)
  case Nil
  then show ?case by simp
next
  case (Cons op ops)
  obtain r C where s: "s = (r, C)" by fastforce
  have "dir.owners_sound (fst (registry_step op s))"
    using Cons.prems
    by (cases op)
      (auto simp: s registry_kick_def intro!: dir.owners_sound_reg dir.owners_sound_rem
        dir.owners_sound_auth)
  with Cons show ?case by simp
qed

text \<open>
  While the servers keep to the discipline they mean to keep (an id is registered once, a
  session logs in while connected and as one user only), every user's owner is a connected session
  logged in as that user; so the login table never holds more entries than there are sessions.
\<close>

theorem disciplined_login_table_sound:
  assumes "disciplined (registry_default, {}) ops" and "registry_run ops = (r, C)"
  shows "(\<forall>u i. authenticated r u = Some i \<longrightarrow> registry_user r i = Some u) \<and>
    hm_len (authenticated r) \<le> count r"
proof
  have "dir.owners_sound r"
    using disciplined_owners_sound [OF assms(1)] assms(2)
    by (simp add: registry_run_def dir.owners_sound_def)
  then show sound: "\<forall>u i. authenticated r u = Some i \<longrightarrow> registry_user r i = Some u"
    by (simp add: dir.owners_sound_def)
  let ?owner = "\<lambda>u. the (authenticated r u)"
  have "inj_on ?owner (dom (authenticated r))"
  proof (rule inj_onI)
    fix u v
    assume "u \<in> dom (authenticated r)" "v \<in> dom (authenticated r)" "?owner u = ?owner v"
    then obtain i where "authenticated r u = Some i" "authenticated r v = Some i" by auto
    with sound have "registry_user r i = Some u" "registry_user r i = Some v" by blast+
    then show "u = v" by simp
  qed
  moreover have "?owner ` dom (authenticated r) \<subseteq> dom (sessions r)"
    using sound by (fastforce simp: registry_user_def split: option.splits)
  moreover have "finite (dom (sessions r))" using finite_registry_run [of ops] assms(2) by simp
  ultimately show "hm_len (authenticated r) \<le> count r"
    unfolding hm_len_def count_def by (rule card_inj_on_le)
qed

theorem disciplined_login_table_sound_witness:
  "hm_len (authenticated (fst (registry_run relogin_history))) \<le>
    count (fst (registry_run relogin_history))"
proof -
  have "disciplined (registry_default, {}) relogin_history"
    by (simp add: relogin_history_def registry_default_def register_def authenticate_def
        registry_user_def)
  from disciplined_login_table_sound [OF this relogin_history_run] relogin_history_run
  show ?thesis by simp
qed

text \<open>
  Without the discipline the login table leaks. A session that logs in as a second user (two
  requests sent before the first answer do this in both servers) keeps the ownership of the first,
  also after it is gone; and while it lives, a login of the first user elsewhere stops it although
  it is no longer that user's session.
\<close>

lemma second_login_leaks_ownership:
  "authenticated (fst (registry_run
      [Register 1 k, Authenticate 1 ''a'', Authenticate 1 ''b'', Remove 1])) = [''a'' \<mapsto> 1] \<and>
   sessions (fst (registry_run
      [Register 1 k, Authenticate 1 ''a'', Authenticate 1 ''b'', Remove 1])) = Map.empty \<and>
   snd (registry_run
      [Register 1 k, Authenticate 1 ''a'', Authenticate 1 ''b'', Register 2 l,
       Authenticate 2 ''a'']) = {k}"
  by (simp add: registry_run_def register_def authenticate_def remove_session_def
      registry_default_def fun_eq_iff)

end
