(* ===== verification/Outbox.thy ===== *)
theory Outbox
  imports Codec Proto_Instance
begin

text \<open>
  \<open>crates/net/src/outbox.rs\<close>: the bounded send queue of a session and the task that writes it to
  the socket. The bounded channel (\<open>tokio::sync::mpsc\<close>) and the buffered sink
  (\<open>tokio_util::codec::FramedWrite\<close>) are libraries: they are parameters here, with the part of
  their contract that the theorems use as a named hypothesis.
\<close>

section \<open>The channel\<close>

datatype try_send_result = Sent | Full | Closed

text \<open>
  \<open>mp_try_send\<close> is \<open>Sender::try_send\<close>, \<open>mp_recv\<close> is \<open>Receiver::try_recv\<close>. \<open>mp_queue\<close> and
  \<open>mp_closed\<close> observe the channel in specifications: what is accepted and not yet received, and
  whether the receiver is gone.
\<close>

record ('c, 'm) mpsc =
  mp_try_send :: "'c \<Rightarrow> 'm \<Rightarrow> try_send_result \<times> 'c"
  mp_recv :: "'c \<Rightarrow> ('m \<times> 'c) option"
  mp_queue :: "'c \<Rightarrow> 'm list"
  mp_closed :: "'c \<Rightarrow> bool"

definition mpsc_laws :: "nat \<Rightarrow> ('c, 'm) mpsc \<Rightarrow> bool" where
  "mpsc_laws cap mp \<longleftrightarrow>
     (\<forall>c m. fst (mp_try_send mp c m) =
        (if mp_closed mp c then Closed
         else if length (mp_queue mp c) < cap then Sent else Full)) \<and>
     (\<forall>c m. mp_queue mp (snd (mp_try_send mp c m)) =
        (if fst (mp_try_send mp c m) = Sent then mp_queue mp c @ [m] else mp_queue mp c)) \<and>
     (\<forall>c m. mp_closed mp (snd (mp_try_send mp c m)) = mp_closed mp c) \<and>
     (\<forall>c. case mp_recv mp c of
        None \<Rightarrow> mp_queue mp c = []
      | Some (m, c') \<Rightarrow> mp_queue mp c = m # mp_queue mp c' \<and> mp_closed mp c' = mp_closed mp c)"

lemma mpsc_lawsD:
  assumes "mpsc_laws cap mp"
  shows "fst (mp_try_send mp c m) =
      (if mp_closed mp c then Closed
       else if length (mp_queue mp c) < cap then Sent else Full)"
    and "mp_queue mp (snd (mp_try_send mp c m)) =
      (if fst (mp_try_send mp c m) = Sent then mp_queue mp c @ [m] else mp_queue mp c)"
    and "mp_closed mp (snd (mp_try_send mp c m)) = mp_closed mp c"
    and "mp_recv mp c = None \<Longrightarrow> mp_queue mp c = []"
    and "mp_recv mp c = Some (m', c') \<Longrightarrow>
      mp_queue mp c = m' # mp_queue mp c' \<and> mp_closed mp c' = mp_closed mp c"
proof -
  note laws = assms [unfolded mpsc_laws_def]
  show "fst (mp_try_send mp c m) =
      (if mp_closed mp c then Closed
       else if length (mp_queue mp c) < cap then Sent else Full)"
    and "mp_queue mp (snd (mp_try_send mp c m)) =
      (if fst (mp_try_send mp c m) = Sent then mp_queue mp c @ [m] else mp_queue mp c)"
    and "mp_closed mp (snd (mp_try_send mp c m)) = mp_closed mp c"
    using laws by blast+
  have recv: "case mp_recv mp c of
        None \<Rightarrow> mp_queue mp c = []
      | Some (m, c') \<Rightarrow> mp_queue mp c = m # mp_queue mp c' \<and> mp_closed mp c' = mp_closed mp c"
    using laws by blast
  then show "mp_recv mp c = None \<Longrightarrow> mp_queue mp c = []"
    and "mp_recv mp c = Some (m', c') \<Longrightarrow>
      mp_queue mp c = m' # mp_queue mp c' \<and> mp_closed mp c' = mp_closed mp c"
    by simp_all
qed

text \<open>A list and a flag satisfy the contract; the witnesses use this instance.\<close>

definition list_mpsc :: "nat \<Rightarrow> ('m list \<times> bool, 'm) mpsc" where
  "list_mpsc cap =
     \<lparr>mp_try_send = (\<lambda>(q, closed) m.
        if closed then (Closed, (q, closed))
        else if length q < cap then (Sent, (q @ [m], closed)) else (Full, (q, closed))),
      mp_recv = (\<lambda>(q, closed). case q of [] \<Rightarrow> None | m # q' \<Rightarrow> Some (m, (q', closed))),
      mp_queue = fst,
      mp_closed = snd\<rparr>"

lemma mpsc_laws_list [simp]: "mpsc_laws cap (list_mpsc cap)"
  by (auto simp: mpsc_laws_def list_mpsc_def split: list.split)

section \<open>The outbox\<close>

record 'c outbox =
  ob_session_id :: u64
  ob_tx :: 'c

datatype send_queue_full = SendQueueFull

definition outbox_send ::
  "('c, message_wrapper) mpsc \<Rightarrow> payload \<Rightarrow> 'c outbox \<Rightarrow> (send_queue_full + unit) \<times> 'c outbox" where
  "outbox_send mp payload ob =
     (let message = \<lparr>message_size = 0, wrapped = Some payload\<rparr> in
      case mp_try_send mp (ob_tx ob) message of
        (Sent, tx) \<Rightarrow> (Inr (), ob\<lparr>ob_tx := tx\<rparr>)
      | (Full, tx) \<Rightarrow> (Inl SendQueueFull, ob\<lparr>ob_tx := tx\<rparr>)
      | (Closed, tx) \<Rightarrow> (Inl SendQueueFull, ob\<lparr>ob_tx := tx\<rparr>))"

definition send_flow ::
  "('c, message_wrapper) mpsc \<Rightarrow> payload \<Rightarrow> 'c outbox \<Rightarrow> control_flow \<times> 'c outbox" where
  "send_flow mp payload ob =
     (case outbox_send mp payload ob of
        (Inr _, ob') \<Rightarrow> (Continue, ob')
      | (Inl SendQueueFull, ob') \<Rightarrow> (Break, ob'))"

definition queued :: "('c, message_wrapper) mpsc \<Rightarrow> 'c outbox \<Rightarrow> message_wrapper list" where
  "queued mp ob = mp_queue mp (ob_tx ob)"

text \<open>There is room for one more message, and someone to write it.\<close>

definition has_room :: "('c, message_wrapper) mpsc \<Rightarrow> 'c outbox \<Rightarrow> bool" where
  "has_room mp ob \<longleftrightarrow>
     \<not> mp_closed mp (ob_tx ob) \<and> length (queued mp ob) < MAX_SEND_QUEUE_SIZE"

definition outgoing :: "payload \<Rightarrow> message_wrapper" where
  "outgoing payload = \<lparr>message_size = 0, wrapped = Some payload\<rparr>"

lemma send_flow_spec:
  assumes "mpsc_laws MAX_SEND_QUEUE_SIZE mp"
  shows "fst (send_flow mp m ob) = (if has_room mp ob then Continue else Break)"
    and "queued mp (snd (send_flow mp m ob)) =
      (if has_room mp ob then queued mp ob @ [outgoing m] else queued mp ob)"
    and "ob_session_id (snd (send_flow mp m ob)) = ob_session_id ob"
    and "mp_closed mp (ob_tx (snd (send_flow mp m ob))) = mp_closed mp (ob_tx ob)"
proof -
  obtain r tx where sent: "mp_try_send mp (ob_tx ob) (outgoing m) = (r, tx)" by fastforce
  note laws = mpsc_lawsD(1-3) [OF assms, of "ob_tx ob" "outgoing m", unfolded sent fst_conv snd_conv]
  show "fst (send_flow mp m ob) = (if has_room mp ob then Continue else Break)"
    and "queued mp (snd (send_flow mp m ob)) =
      (if has_room mp ob then queued mp ob @ [outgoing m] else queued mp ob)"
    and "ob_session_id (snd (send_flow mp m ob)) = ob_session_id ob"
    and "mp_closed mp (ob_tx (snd (send_flow mp m ob))) = mp_closed mp (ob_tx ob)"
    using laws sent
    by (auto simp: send_flow_def outbox_send_def Let_def has_room_def queued_def outgoing_def
        split: try_send_result.splits if_splits)
qed

lemma send_flow_queue_bounded:
  assumes "mpsc_laws MAX_SEND_QUEUE_SIZE mp" and "length (queued mp ob) \<le> MAX_SEND_QUEUE_SIZE"
  shows "length (queued mp (snd (send_flow mp m ob))) \<le> MAX_SEND_QUEUE_SIZE"
  using assms by (simp add: send_flow_spec(2) has_room_def)

text \<open>The writer's side of the channel: it receives \<open>n\<close> messages, or all there are.\<close>

definition receive_one :: "('c, message_wrapper) mpsc \<Rightarrow> 'c outbox \<Rightarrow> 'c outbox" where
  "receive_one mp ob =
     (case mp_recv mp (ob_tx ob) of None \<Rightarrow> ob | Some (_, tx) \<Rightarrow> ob\<lparr>ob_tx := tx\<rparr>)"

definition receive_from :: "('c, message_wrapper) mpsc \<Rightarrow> nat \<Rightarrow> 'c outbox \<Rightarrow> 'c outbox" where
  "receive_from mp n ob = (receive_one mp ^^ n) ob"

lemma receive_one_spec:
  assumes "mpsc_laws cap mp"
  shows "queued mp (receive_one mp ob) = drop 1 (queued mp ob)"
    and "mp_closed mp (ob_tx (receive_one mp ob)) = mp_closed mp (ob_tx ob)"
  using mpsc_lawsD(4,5) [OF assms, of "ob_tx ob"]
  by (auto simp: receive_one_def queued_def split: option.split)

lemma receive_from_spec:
  assumes "mpsc_laws cap mp"
  shows "queued mp (receive_from mp n ob) = drop n (queued mp ob)"
    and "mp_closed mp (ob_tx (receive_from mp n ob)) = mp_closed mp (ob_tx ob)"
  unfolding receive_from_def
  by (induction n) (simp_all add: receive_one_spec [OF assms])

section \<open>The writer\<close>

text \<open>
  The sink's bytes are either in its buffer or handed to the transport \<open>'w\<close>. \<open>fw_ready\<close> is
  \<open>poll_ready\<close> (which may flush when the buffer is large) and \<open>fw_flush\<close> is \<open>flush\<close>; both say whether
  they succeeded. \<open>fw_sent\<close> observes what the transport took. The contract: they move bytes from
  the buffer to the transport in order, and a successful flush leaves none behind.
\<close>

record 'w framed_write =
  fw_ready :: "'w \<times> bytes \<Rightarrow> bool \<times> 'w \<times> bytes"
  fw_flush :: "'w \<times> bytes \<Rightarrow> bool \<times> 'w \<times> bytes"
  fw_sent :: "'w \<Rightarrow> bytes"

definition fw_laws :: "'w framed_write \<Rightarrow> bool" where
  "fw_laws fw \<longleftrightarrow>
     (\<forall>w b ok w' b'. fw_ready fw (w, b) = (ok, w', b') \<longrightarrow> fw_sent fw w' @ b' = fw_sent fw w @ b) \<and>
     (\<forall>w b ok w' b'. fw_flush fw (w, b) = (ok, w', b') \<longrightarrow>
        fw_sent fw w' @ b' = fw_sent fw w @ b \<and> (ok \<longrightarrow> b' = []))"

record 'w sink =
  sk_transport :: 'w
  sk_buffer :: bytes
  sk_stats :: packet_stats

text \<open>\<open>sink.feed(message)\<close>: wait until the sink is ready, then encode into its buffer.\<close>

definition sink_feed :: "'w framed_write \<Rightarrow> 'm prost \<Rightarrow> 'm \<Rightarrow> 'w sink \<Rightarrow> (codec_error + unit) \<times> 'w sink" where
  "sink_feed fw p message s =
     (case fw_ready fw (sk_transport s, sk_buffer s) of
        (False, w, b) \<Rightarrow> (Inl IoFailed, s\<lparr>sk_transport := w, sk_buffer := b\<rparr>)
      | (True, w, b) \<Rightarrow>
          (case encode p (sk_stats s) message b of
             (r, b', st) \<Rightarrow> (r, s\<lparr>sk_transport := w, sk_buffer := b', sk_stats := st\<rparr>)))"

definition sink_flush :: "'w framed_write \<Rightarrow> 'w sink \<Rightarrow> (codec_error + unit) \<times> 'w sink" where
  "sink_flush fw s =
     (case fw_flush fw (sk_transport s, sk_buffer s) of
        (ok, w, b) \<Rightarrow>
          (if ok then Inr () else Inl IoFailed, s\<lparr>sk_transport := w, sk_buffer := b\<rparr>))"

fun feed_all :: "'w framed_write \<Rightarrow> 'm prost \<Rightarrow> 'm list \<Rightarrow> 'w sink \<Rightarrow> (codec_error + unit) \<times> 'w sink" where
  "feed_all fw p [] s = (Inr (), s)"
| "feed_all fw p (m # ms) s =
     (case sink_feed fw p m s of
        (Inl e, s') \<Rightarrow> (Inl e, s')
      | (Inr _, s') \<Rightarrow> feed_all fw p ms s')"

text \<open>
  The loop of \<open>write_loop\<close>. Each turn of it takes a batch from the channel, the message \<open>recv\<close> woke
  up for and those \<open>try_recv\<close> finds after it, feeds them and flushes. How the queue is cut into
  batches is the scheduler's choice: an argument. After the last batch the channel is closed.
\<close>

fun write_batches ::
  "'w framed_write \<Rightarrow> 'm prost \<Rightarrow> 'm list list \<Rightarrow> 'w sink \<Rightarrow> (codec_error + unit) \<times> 'w sink" where
  "write_batches fw p [] s = (Inr (), s)"
| "write_batches fw p (batch # batches) s =
     (case feed_all fw p batch s of
        (Inl e, s1) \<Rightarrow> (Inl e, s1)
      | (Inr _, s1) \<Rightarrow>
          (case sink_flush fw s1 of
             (Inl e, s2) \<Rightarrow> (Inl e, s2)
           | (Inr _, s2) \<Rightarrow> write_batches fw p batches s2))"

text \<open>The first component says whether the writer cancels the session's kick token.\<close>

definition write_loop ::
  "'w framed_write \<Rightarrow> 'm prost \<Rightarrow> 'm list list \<Rightarrow> 'w sink \<Rightarrow> bool \<times> 'w sink" where
  "write_loop fw p batches s =
     (case write_batches fw p batches s of
        (Inl e, s') \<Rightarrow> (True, s')
      | (Inr _, s') \<Rightarrow> (False, s'))"

text \<open>Everything that entered the sink: what the transport took, then what is buffered.\<close>

definition sink_bytes :: "'w framed_write \<Rightarrow> 'w sink \<Rightarrow> bytes" where
  "sink_bytes fw s = fw_sent fw (sk_transport s) @ sk_buffer s"

lemma sink_feed_spec:
  assumes "fw_laws fw" and "prost_laws p"
  shows "sink_bytes fw (snd (sink_feed fw p m s)) =
    sink_bytes fw s @ (if fst (sink_feed fw p m s) = Inr () then wire_frame p m else [])"
proof -
  obtain ok w b where r: "fw_ready fw (sk_transport s, sk_buffer s) = (ok, w, b)"
    by (metis prod_cases3)
  then have "fw_sent fw w @ b = sink_bytes fw s"
    using assms(1) by (auto simp: fw_laws_def sink_bytes_def)
  then have "fw_sent fw w @ b @ x = sink_bytes fw s @ x" for x
    by (metis append_assoc)
  with \<open>fw_sent fw w @ b = _\<close> show ?thesis
    using r by (cases ok) (auto simp: sink_feed_def sink_bytes_def encode_eq [OF assms(2)])
qed

lemma sink_flush_spec:
  assumes "fw_laws fw"
  shows "sink_bytes fw (snd (sink_flush fw s)) = sink_bytes fw s"
    and "fst (sink_flush fw s) = Inr () \<Longrightarrow> sk_buffer (snd (sink_flush fw s)) = []"
  using assms by (auto simp: sink_flush_def sink_bytes_def fw_laws_def split: prod.splits if_splits)

text \<open>A step that enters frames: a prefix of the messages, all of them unless it failed.\<close>

definition enters :: "'w framed_write \<Rightarrow> 'm prost \<Rightarrow> 'm list \<Rightarrow> 'w sink \<Rightarrow>
    (codec_error + unit) \<times> 'w sink \<Rightarrow> bool" where
  "enters fw p ms s result \<longleftrightarrow>
     (\<exists>n\<le>length ms.
        sink_bytes fw (snd result) = sink_bytes fw s @ concat (map (wire_frame p) (take n ms)) \<and>
        (fst result = Inr () \<longrightarrow> n = length ms))"

lemma enters_Cons:
  assumes "sink_bytes fw s' = sink_bytes fw s @ concat (map (wire_frame p) xs)"
    and "enters fw p ms s' result"
  shows "enters fw p (xs @ ms) s result"
proof -
  obtain n where n: "n \<le> length ms" "fst result = Inr () \<Longrightarrow> n = length ms"
    "sink_bytes fw (snd result) = sink_bytes fw s' @ concat (map (wire_frame p) (take n ms))"
    using assms(2) by (auto simp: enters_def)
  show ?thesis
    unfolding enters_def using n assms(1) by (intro exI [of _ "length xs + n"]) simp
qed

lemma enters_more:
  assumes "enters fw p ms s result" and "fst result \<noteq> Inr ()"
  shows "enters fw p (ms @ xs) s result"
proof -
  obtain n where "n \<le> length ms"
    "sink_bytes fw (snd result) = sink_bytes fw s @ concat (map (wire_frame p) (take n ms))"
    using assms(1) by (auto simp: enters_def)
  then show ?thesis unfolding enters_def using assms(2) by (intro exI [of _ n]) simp
qed

lemma feed_all_enters:
  assumes "fw_laws fw" and "prost_laws p"
  shows "enters fw p ms s (feed_all fw p ms s)"
proof (induction ms arbitrary: s)
  case Nil
  show ?case by (simp add: enters_def)
next
  case (Cons m ms)
  obtain r s' where f: "sink_feed fw p m s = (r, s')" by fastforce
  note fed = sink_feed_spec [OF assms, of m s, unfolded f fst_conv snd_conv]
  show ?case
  proof (cases r)
    case (Inl e)
    then show ?thesis using f fed by (auto simp: enters_def)
  next
    case (Inr u)
    then show ?thesis
      using f fed enters_Cons [of fw s' s p "[m]", OF _ Cons.IH] by simp
  qed
qed

lemma write_batches_enters:
  assumes "fw_laws fw" and "prost_laws p"
  shows "enters fw p (concat batches) s (write_batches fw p batches s)"
proof (induction batches arbitrary: s)
  case Nil
  show ?case by (simp add: enters_def)
next
  case (Cons batch batches)
  obtain r s1 where f: "feed_all fw p batch s = (r, s1)" by fastforce
  have fed: "enters fw p batch s (r, s1)" using feed_all_enters [OF assms, of batch s] f by simp
  show ?case
  proof (cases r)
    case (Inl e)
    then show ?thesis using f fed by (auto intro!: enters_more)
  next
    case (Inr u)
    then have all: "sink_bytes fw s1 = sink_bytes fw s @ concat (map (wire_frame p) batch)"
      using fed by (auto simp: enters_def)
    obtain r2 s2 where fl: "sink_flush fw s1 = (r2, s2)" by fastforce
    then have "sink_bytes fw s2 = sink_bytes fw s @ concat (map (wire_frame p) batch)"
      using sink_flush_spec(1) [OF assms(1), of s1] all by simp
    then show ?thesis
      using f Inr fl enters_Cons [of fw s2 s p batch, OF _ Cons.IH]
      by (cases r2) (auto simp: enters_def intro!: exI [of _ "length batch"])
  qed
qed

lemma write_batches_flushed:
  assumes "fw_laws fw" and "write_batches fw p batches s = (Inr u, s')" and "sk_buffer s = []"
  shows "sk_buffer s' = []"
  using assms(2,3)
proof (induction batches arbitrary: s)
  case (Cons batch batches)
  then show ?case
    using sink_flush_spec(2) [OF assms(1)]
    by (auto split: prod.splits sum.splits) (metis fst_conv snd_conv)+
qed simp

text \<open>The sink a writer starts with, over a transport that took nothing yet.\<close>

definition sink_new :: "'w framed_write \<Rightarrow> 'w \<Rightarrow> packet_stats \<Rightarrow> 'w sink" where
  "sink_new fw w st = \<lparr>sk_transport = w, sk_buffer = [], sk_stats = st\<rparr>"

text \<open>
  A transport for the witnesses: it takes \<open>n\<close> more bytes and then fails; its buffer is flushed when
  it holds at least \<open>k\<close> bytes.
\<close>

fun limited_flush :: "(nat \<times> bytes) \<times> bytes \<Rightarrow> bool \<times> (nat \<times> bytes) \<times> bytes" where
  "limited_flush ((n, sent), b) =
     (if length b \<le> n then (True, (n - length b, sent @ b), [])
      else (False, (0, sent @ take n b), drop n b))"

definition limited_write :: "nat \<Rightarrow> (nat \<times> bytes) framed_write" where
  "limited_write k =
     \<lparr>fw_ready = (\<lambda>s. if length (snd s) < k then (True, s) else limited_flush s),
      fw_flush = limited_flush,
      fw_sent = snd\<rparr>"

lemma fw_laws_limited [simp]: "fw_laws (limited_write k)"
  by (auto simp: fw_laws_def limited_write_def split: if_splits)

text \<open>
  The writer puts the frames of the queued messages on the wire in queue order, whatever the
  batches. If it ends without an error all of them were handed to the transport; it cancels the
  session's token exactly when it stopped early, and then a prefix of the frames entered the sink.
\<close>

theorem write_loop_in_order:
  assumes "fw_laws fw" and "prost_laws p"
    and "write_loop fw p batches (sink_new fw w st) = (cancelled, s')"
  shows "\<exists>n\<le>length (concat batches).
    fw_sent fw (sk_transport s') @ sk_buffer s' =
      fw_sent fw w @ concat (map (wire_frame p) (take n (concat batches))) \<and>
    (\<not> cancelled \<longrightarrow> n = length (concat batches) \<and> sk_buffer s' = [])"
proof -
  let ?s = "sink_new fw w st"
  obtain r s2 where w: "write_batches fw p batches ?s = (r, s2)" by fastforce
  with assms(3) have s2: "s2 = s'" and r: "r = Inr () \<longleftrightarrow> \<not> cancelled"
    by (auto simp: write_loop_def split: sum.splits)
  have "enters fw p (concat batches) ?s (r, s')"
    using write_batches_enters [OF assms(1,2), of batches ?s] w s2 by simp
  moreover have "sk_buffer s' = []" if "\<not> cancelled"
    using write_batches_flushed [OF assms(1), of p batches ?s "()" s'] w s2 r that
    by (simp add: sink_new_def)
  ultimately show ?thesis
    using r by (auto simp: enters_def sink_bytes_def sink_new_def)
qed

theorem write_loop_in_order_witness:
  "\<exists>n\<le>3. concat (map (wire_frame raw_prost) (take n [[1], [2], [3]])) = [1, 0, 1, 1, 0, 2]"
proof -
  have "write_loop (limited_write 4) raw_prost [[[1], [2], [3]]]
      (sink_new (limited_write 4) (5, []) stats_zero) =
    (True, \<lparr>sk_transport = (0, [1, 0, 1, 1, 0]), sk_buffer = [2],
       sk_stats = \<lparr>RECEIVED = 0, SENT = 2\<rparr>\<rparr>)"
    by (simp add: write_loop_def sink_new_def limited_write_def sink_feed_def encode_def
        raw_prost_def u16_to_le_bytes_def const_defs stats_zero_def increment_sent_def)
  from write_loop_in_order [OF fw_laws_limited prost_laws_raw this]
  show ?thesis by (auto simp: limited_write_def eval_nat_numeral)
qed

section \<open>From the outbox to the peer\<close>

text \<open>
  A history of a send queue: the session sends, the writer receives. The result tells what was
  accepted and what was received, in order.
\<close>

datatype outbox_event = Send payload | Receive

fun outbox_step :: "('c, message_wrapper) mpsc \<Rightarrow> outbox_event \<Rightarrow>
    'c outbox \<times> message_wrapper list \<times> message_wrapper list \<Rightarrow>
    'c outbox \<times> message_wrapper list \<times> message_wrapper list" where
  "outbox_step mp (Send m) (ob, accepted, received) =
     (case send_flow mp m ob of
        (Continue, ob') \<Rightarrow> (ob', accepted @ [outgoing m], received)
      | (Break, ob') \<Rightarrow> (ob', accepted, received))"
| "outbox_step mp Receive (ob, accepted, received) =
     (case mp_recv mp (ob_tx ob) of
        None \<Rightarrow> (ob, accepted, received)
      | Some (m, tx) \<Rightarrow> (ob\<lparr>ob_tx := tx\<rparr>, accepted, received @ [m]))"

definition outbox_run :: "('c, message_wrapper) mpsc \<Rightarrow> 'c outbox \<Rightarrow> outbox_event list \<Rightarrow>
    'c outbox \<times> message_wrapper list \<times> message_wrapper list" where
  "outbox_run mp ob evs = fold (outbox_step mp) evs (ob, [], [])"

definition fifo :: "('c, message_wrapper) mpsc \<Rightarrow>
    'c outbox \<times> message_wrapper list \<times> message_wrapper list \<Rightarrow> bool" where
  "fifo mp s =
     (case s of (ob, accepted, received) \<Rightarrow>
        accepted = received @ queued mp ob \<and> length (queued mp ob) \<le> MAX_SEND_QUEUE_SIZE)"

lemma fifo_step:
  assumes "mpsc_laws MAX_SEND_QUEUE_SIZE mp" and "fifo mp s"
  shows "fifo mp (outbox_step mp ev s)"
proof -
  obtain ob accepted received where s: "s = (ob, accepted, received)" by (metis prod_cases3)
  show ?thesis
  proof (cases ev)
    case (Send m)
    obtain f ob' where f: "send_flow mp m ob = (f, ob')" by fastforce
    note spec = send_flow_spec(1,2) [OF assms(1), of m ob, unfolded f fst_conv snd_conv]
    show ?thesis
      using assms(2) spec f
      by (cases f) (auto simp: s Send fifo_def has_room_def split: if_splits)
  next
    case Receive
    show ?thesis
    proof (cases "mp_recv mp (ob_tx ob)")
      case None
      then show ?thesis using assms(2) by (simp add: s Receive)
    next
      case (Some mc)
      then obtain m tx where "mp_recv mp (ob_tx ob) = Some (m, tx)" by (cases mc) auto
      with mpsc_lawsD(5) [OF assms(1) this] assms(2) show ?thesis
        by (simp add: s Receive fifo_def queued_def)
    qed
  qed
qed

lemma fifo_run:
  assumes "mpsc_laws MAX_SEND_QUEUE_SIZE mp" and "queued mp ob = []"
  shows "fifo mp (outbox_run mp ob evs)"
proof -
  have "fifo mp (fold (outbox_step mp) evs s)" if "fifo mp s" for s
    using that by (induction evs arbitrary: s) (simp_all add: fifo_step [OF assms(1)])
  moreover have "fifo mp (ob, [], [])" using assms(2) by (simp add: fifo_def)
  ultimately show ?thesis by (simp add: outbox_run_def)
qed

text \<open>
  C18. What a session sends is what its peer reads: the messages the send queue accepted arrive at
  the peer's reader complete and in order, except those still queued (at most 200) and those whose
  body is larger than 8190 bytes; as long as no write fails, for every interleaving of the session with the writer, every way
  the writer batches them, and every way the network cuts the bytes.
\<close>

theorem accepted_messages_arrive:
  assumes "mpsc_laws MAX_SEND_QUEUE_SIZE mp" and "fw_laws fw" and "prost_laws p"
    and "\<forall>m. wrapped m \<noteq> None \<longrightarrow> pm_encode p m \<noteq> []"
    and "queued mp ob = []" and "fw_sent fw w = []"
    and "outbox_run mp ob evs = (ob', accepted, concat batches)"
    and "write_loop fw p batches (sink_new fw w st) = (False, s')"
    and "concat chunks = fw_sent fw (sk_transport s')"
  shows "\<exists>arrived st2. framed_read_all (decode p) st0 chunks =
      \<lparr>fr_items = filter (fits p) arrived, fr_error = None, fr_buffer = [], fr_state = st2\<rparr> \<and>
    accepted = arrived @ queued mp ob' \<and> length (queued mp ob') \<le> MAX_SEND_QUEUE_SIZE"
proof -
  from fifo_run [OF assms(1,5), of evs] assms(7)
  have q: "accepted = concat batches @ queued mp ob'" "length (queued mp ob') \<le> MAX_SEND_QUEUE_SIZE"
    by (simp_all add: fifo_def)
  have "\<forall>m\<in>set accepted. wrapped m \<noteq> None" if "outbox_run mp ob evs = (ob', accepted, received)"
    for received using that
  proof (induction evs arbitrary: ob' accepted received rule: rev_induct)
    case Nil
    then show ?case by (simp add: outbox_run_def)
  next
    case (snoc ev evs)
    obtain ob1 a1 r1 where "outbox_run mp ob evs = (ob1, a1, r1)" by (metis prod_cases3)
    with snoc show ?case
      by (cases ev) (auto simp: outbox_run_def outgoing_def split: prod.splits control_flow.splits
          option.splits)
  qed
  from this [OF assms(7)] assms(4) have nonempty: "\<forall>m\<in>set (concat batches). pm_encode p m \<noteq> []"
    by (simp add: q(1) ball_Un)
  have "sink_bytes fw s' = concat (map (wire_frame p) (concat batches)) \<and> sk_buffer s' = []"
    using write_batches_enters [OF assms(2,3), of batches "sink_new fw w st"]
      write_batches_flushed [OF assms(2), of p batches "sink_new fw w st" "()" s'] assms(6,8)
    by (auto simp: write_loop_def enters_def sink_bytes_def sink_new_def split: prod.splits sum.splits)
  then have wire: "concat chunks = concat (map (wire_frame p) (concat batches))"
    using assms(9) by (metis append_Nil2 sink_bytes_def)
  have "takeWhile (\<lambda>m. pm_encode p m \<noteq> []) (concat batches) = concat batches"
    using nonempty by simp
  with drain_all_wire [OF assms(3), of st0 "concat batches"] wire nonempty obtain st2 where
    "drain_all (decode p) st0 (concat chunks) = (filter (fits p) (concat batches), None, [], st2)"
    by auto
  from mc.framed_read_all_chunks [OF this decode_nil] q show ?thesis
    by (intro exI [of _ "concat batches"] exI [of _ st2]) simp
qed

theorem accepted_messages_arrive_witness:
  "\<exists>arrived st2. framed_read_all (decode sample_prost) stats_zero [[5], [0, 0, 0, 0], [0, 2]] =
      \<lparr>fr_items = filter (fits sample_prost) arrived, fr_error = None, fr_buffer = [], fr_state = st2\<rparr> \<and>
    [outgoing KeepAliveNoti, outgoing KeepAliveRequest] = arrived @ [outgoing KeepAliveRequest]"
proof -
  let ?mp = "list_mpsc MAX_SEND_QUEUE_SIZE :: (message_wrapper list \<times> bool, message_wrapper) mpsc"
  let ?ob = "\<lparr>ob_session_id = 7, ob_tx = ([], False)\<rparr>"
  have run: "outbox_run ?mp ?ob [Send KeepAliveNoti, Send KeepAliveRequest, Receive] =
      (\<lparr>ob_session_id = 7, ob_tx = ([outgoing KeepAliveRequest], False)\<rparr>,
       [outgoing KeepAliveNoti, outgoing KeepAliveRequest], concat [[outgoing KeepAliveNoti]])"
    by (simp add: outbox_run_def list_mpsc_def send_flow_def outbox_send_def outgoing_def const_defs)
  have written: "write_loop (limited_write 0) sample_prost [[outgoing KeepAliveNoti]]
      (sink_new (limited_write 0) (9, []) stats_zero) =
    (False, \<lparr>sk_transport = (2, [5, 0, 0, 0, 0, 0, 2]), sk_buffer = [],
       sk_stats = \<lparr>RECEIVED = 0, SENT = 1\<rparr>\<rparr>)"
    by (simp add: write_loop_def sink_new_def limited_write_def sink_feed_def sink_flush_def
        encode_def sample_prost_def put_message_def put_32_def outgoing_def u16_to_le_bytes_def
        const_defs stats_zero_def increment_sent_def)
  have empty: "queued ?mp ?ob = []" by (simp add: queued_def list_mpsc_def)
  have left: "queued ?mp \<lparr>ob_session_id = 7, ob_tx = ([outgoing KeepAliveRequest], False)\<rparr> =
      [outgoing KeepAliveRequest]"
    by (simp add: queued_def list_mpsc_def)
  have start: "fw_sent (limited_write 0) (9, []) = []" by (simp add: limited_write_def)
  have chunks: "concat [[5], [0, 0, 0, 0], [0, 2]] =
      fw_sent (limited_write 0) (sk_transport \<lparr>sk_transport = (2, [5, 0, 0, 0, 0, 0, 2]),
        sk_buffer = [], sk_stats = \<lparr>RECEIVED = 0, SENT = 1\<rparr>\<rparr>)"
    by (simp add: limited_write_def)
  have "\<forall>m. wrapped m \<noteq> None \<longrightarrow> pm_encode sample_prost m \<noteq> []" by simp
  from accepted_messages_arrive [OF mpsc_laws_list fw_laws_limited prost_laws_sample this empty
      start run written chunks, of stats_zero, unfolded left]
  show ?thesis by blast
qed

definition sample_mpsc :: "(message_wrapper list \<times> bool, message_wrapper) mpsc" where
  "sample_mpsc = list_mpsc MAX_SEND_QUEUE_SIZE"

lemma mpsc_laws_sample [simp]: "mpsc_laws MAX_SEND_QUEUE_SIZE sample_mpsc"
  by (simp add: sample_mpsc_def)

definition sample_outbox :: "u64 \<Rightarrow> (message_wrapper list \<times> bool) outbox" where
  "sample_outbox i = \<lparr>ob_session_id = i, ob_tx = ([], False)\<rparr>"

lemmas sample_defs = sample_mpsc_def list_mpsc_def sample_outbox_def queued_def

lemma sample_send:
  "send_flow sample_mpsc m (sample_outbox i) =
    (Continue, \<lparr>ob_session_id = i, ob_tx = ([outgoing m], False)\<rparr>)"
  by (simp add: send_flow_def outbox_send_def sample_defs outgoing_def const_defs)

end
