(* ===== verification/Session_Core.thy ===== *)
theory Session_Core
  imports Outbox Registry
begin

text \<open>
  What the sessions of both servers have in common: the shared world they act on, the biased
  \<open>select!\<close> of their event loops (\<open>event_loop\<close> in \<open>login_server/src/session.rs\<close> and
  \<open>game_server/src/session.rs\<close>), and the loop itself.

  A session is a task that owns its state. What it does not own happens between two wake-ups of its
  loop: other tasks use the registry and cancel tokens, the writer receives from the send queue,
  the reader and the spawned tasks make something ready, time passes. A \<open>poll\<close> is one such wake-up
  with all of that; a run is a list of polls.
\<close>

section \<open>The world\<close>

text \<open>
  \<open>spawned\<close> is the log of the tasks the session started with \<open>tokio::spawn\<close>; \<open>'w\<close> describes the work
  of such a task.
\<close>

record ('k, 'w) world =
  registry :: "'k registry"
  cancelled :: "'k set"
  spawned :: "'w list"

definition world_authenticate :: "u64 \<Rightarrow> string \<Rightarrow> ('k, 'w) world \<Rightarrow> ('k, 'w) world" where
  "world_authenticate session_id user_id w =
     (case authenticate session_id user_id (registry w) of
        (r, ks) \<Rightarrow> w\<lparr>registry := r, cancelled := cancelled w \<union> set ks\<rparr>)"

definition spawn :: "'w \<Rightarrow> ('k, 'w) world \<Rightarrow> ('k, 'w) world" where
  "spawn work w = w\<lparr>spawned := spawned w @ [work]\<rparr>"

definition others_run :: "'k registry_op list \<Rightarrow> ('k, 'w) world \<Rightarrow> ('k, 'w) world" where
  "others_run ops w =
     (case fold registry_step ops (registry w, cancelled w) of
        (r, C) \<Rightarrow> w\<lparr>registry := r, cancelled := C\<rparr>)"

lemma world_simps [simp]:
  "registry (spawn x w) = registry w"
  "cancelled (spawn x w) = cancelled w"
  "spawned (spawn x w) = spawned w @ [x]"
  "spawned (world_authenticate i u w) = spawned w"
  "registry (world_authenticate i u w) = fst (authenticate i u (registry w))"
  "cancelled (world_authenticate i u w) = cancelled w \<union> set (snd (authenticate i u (registry w)))"
  "spawned (others_run ops w) = spawned w"
  "registry (others_run ops w) = fst (fold registry_step ops (registry w, cancelled w))"
  "cancelled (others_run ops w) = snd (fold registry_step ops (registry w, cancelled w))"
  by (simp_all add: spawn_def world_authenticate_def others_run_def split: prod.split)

lemma others_run_Nil [simp]: "others_run [] w = w"
  by (simp add: others_run_def)

section \<open>The select\<close>

text \<open>\<open>reader.next()\<close>: a message, an error, or the end of the stream.\<close>

datatype frame = Message message_wrapper | Read_Error codec_error | End_Of_Stream

datatype 'i select_branch = Kick_Branch | Frame_Branch frame | Inner_Branch 'i | Timeout_Branch

text \<open>\<open>sleep_until_opt\<close>: never ready without a deadline.\<close>

definition sleep_until_opt :: "instant option \<Rightarrow> instant \<Rightarrow> bool" where
  "sleep_until_opt deadline now =
     (case deadline of None \<Rightarrow> False | Some d \<Rightarrow> d \<le> now)"

record ('k, 'i) poll =
  p_now :: instant
  p_others :: "'k registry_op list"
  p_taken :: nat
  p_frame :: "frame option"
  p_inner :: "'i option"

text \<open>The branches in the order of the \<open>biased\<close> select; \<open>None\<close> when none is ready.\<close>

definition select_biased :: "bool \<Rightarrow> instant option \<Rightarrow> ('k, 'i) poll \<Rightarrow> 'i select_branch option" where
  "select_biased kicked deadline p =
     (if kicked then Some Kick_Branch
      else case p_frame p of
        Some f \<Rightarrow> Some (Frame_Branch f)
      | None \<Rightarrow> (case p_inner p of
          Some i \<Rightarrow> Some (Inner_Branch i)
        | None \<Rightarrow> if sleep_until_opt deadline (p_now p) then Some Timeout_Branch else None))"

section \<open>The loop\<close>

text \<open>
  What a server's session contributes: its two handlers, its keep-alive deadline, and the place of
  its outbox.
\<close>

record ('s, 'k, 'i, 'w) actor =
  on_remote :: "instant \<Rightarrow> message_wrapper \<Rightarrow> 's \<times> ('k, 'w) world \<Rightarrow> control_flow \<times> 's \<times> ('k, 'w) world"
  on_inner :: "instant \<Rightarrow> 'i \<Rightarrow> 's \<times> ('k, 'w) world \<Rightarrow> control_flow \<times> 's \<times> ('k, 'w) world"
  keep_alive_deadline :: "'s \<Rightarrow> instant option"
  writer_takes :: "nat \<Rightarrow> 's \<Rightarrow> 's"

definition run_branch :: "('s, 'k, 'i, 'w) actor \<Rightarrow> instant \<Rightarrow> 'i select_branch \<Rightarrow>
    's \<times> ('k, 'w) world \<Rightarrow> control_flow \<times> 's \<times> ('k, 'w) world" where
  "run_branch act now b st =
     (case b of
        Kick_Branch \<Rightarrow> (Break, st)
      | Frame_Branch (Message message) \<Rightarrow> on_remote act now message st
      | Frame_Branch (Read_Error e) \<Rightarrow> (Break, st)
      | Frame_Branch End_Of_Stream \<Rightarrow> (Break, st)
      | Inner_Branch i \<Rightarrow> on_inner act now i st
      | Timeout_Branch \<Rightarrow> (Break, st))"

text \<open>What the other tasks did since the last wake-up.\<close>

definition wake :: "('s, 'k, 'i, 'w) actor \<Rightarrow> ('k, 'i) poll \<Rightarrow> 's \<times> ('k, 'w) world \<Rightarrow> 's \<times> ('k, 'w) world" where
  "wake act p st = (writer_takes act (p_taken p) (fst st), others_run (p_others p) (snd st))"

definition branch_of :: "('s, 'k, 'i, 'w) actor \<Rightarrow> 'k \<Rightarrow> ('k, 'i) poll \<Rightarrow> 's \<times> ('k, 'w) world \<Rightarrow>
    'i select_branch option" where
  "branch_of act kick p st =
     select_biased (kick \<in> cancelled (snd st)) (keep_alive_deadline act (fst st)) p"

definition loop_step :: "('s, 'k, 'i, 'w) actor \<Rightarrow> 'k \<Rightarrow> ('k, 'i) poll \<Rightarrow>
    's \<times> ('k, 'w) world \<Rightarrow> control_flow \<times> 's \<times> ('k, 'w) world" where
  "loop_step act kick p st =
     (let st1 = wake act p st in
      case branch_of act kick p st1 of
        None \<Rightarrow> (Continue, st1)
      | Some b \<Rightarrow> run_branch act (p_now p) b st1)"

text \<open>The loop over a list of polls: \<open>Continue\<close> when it is still running after them.\<close>

fun event_loop :: "('s, 'k, 'i, 'w) actor \<Rightarrow> 'k \<Rightarrow> ('k, 'i) poll list \<Rightarrow>
    's \<times> ('k, 'w) world \<Rightarrow> control_flow \<times> 's \<times> ('k, 'w) world" where
  "event_loop act kick [] st = (Continue, st)"
| "event_loop act kick (p # ps) st =
     (case loop_step act kick p st of
        (Break, st') \<Rightarrow> (Break, st')
      | (Continue, st') \<Rightarrow> event_loop act kick ps st')"

lemma select_biased_kicked [simp]: "select_biased True d p = Some Kick_Branch"
  by (simp add: select_biased_def)

lemma select_biased_timeout:
  "select_biased kicked d p = Some Timeout_Branch \<longleftrightarrow>
    \<not> kicked \<and> p_frame p = None \<and> p_inner p = None \<and> (\<exists>t. d = Some t \<and> t \<le> p_now p)"
  by (auto simp: select_biased_def sleep_until_opt_def split: option.splits)

lemma event_loop_append:
  "event_loop act kick (ps @ qs) st =
    (case event_loop act kick ps st of
       (Break, st') \<Rightarrow> (Break, st')
     | (Continue, st') \<Rightarrow> event_loop act kick qs st')"
  by (induction ps arbitrary: st) (auto split: control_flow.splits prod.splits)

text \<open>
  Invariants of a run. \<open>I seen st\<close> may mention the polls seen so far. One rule for whole steps, one
  where it survives what other tasks do and both handlers.
\<close>

lemma loop_step_cases:
  assumes "loop_step act kick p st = (f, st')"
  obtains (none) "st' = wake act p st"
  | (remote) m where "p_frame p = Some (Message m)" "on_remote act (p_now p) m (wake act p st) = (f, st')"
  | (inner) i where "p_inner p = Some i" "on_inner act (p_now p) i (wake act p st) = (f, st')"
  using assms
  by (auto simp: loop_step_def branch_of_def select_biased_def run_branch_def Let_def
      split: option.splits frame.splits if_splits)

lemma event_loop_steps:
  assumes "event_loop act kick ps st = (f, st')" and "I [] st"
    and step: "\<And>seen p st f st'. I seen st \<Longrightarrow> loop_step act kick p st = (f, st') \<Longrightarrow> I (seen @ [p]) st'"
  shows "\<exists>seen rest. ps = seen @ rest \<and> I seen st' \<and> (f = Continue \<longrightarrow> rest = [])"
proof -
  have "\<exists>seen rest. ps = seen @ rest \<and> I (before @ seen) st' \<and> (f = Continue \<longrightarrow> rest = [])"
    if "event_loop act kick ps st = (f, st')" "I before st" for before
    using that
  proof (induction ps arbitrary: st before)
    case Nil
    then show ?case by simp
  next
    case (Cons p ps)
    obtain g st1 where s: "loop_step act kick p st = (g, st1)" by (rule prod.exhaust)
    have inv: "I (before @ [p]) st1" by (rule step [OF Cons.prems(2) s])
    show ?case
    proof (cases g)
      case Break
      with Cons.prems(1) s inv show ?thesis by (intro exI [of _ "[p]"] exI [of _ ps]) simp
    next
      case Continue
      with Cons.prems(1) s have "event_loop act kick ps st1 = (f, st')" by simp
      from Cons.IH [OF this inv] obtain seen rest where "ps = seen @ rest"
        "I ((before @ [p]) @ seen) st'" "f = Continue \<longrightarrow> rest = []" by blast
      then show ?thesis by (intro exI [of _ "p # seen"] exI [of _ rest]) simp
    qed
  qed
  from this [of "[]"] assms(1,2) show ?thesis by simp
qed

lemma event_loop_invariant:
  assumes "event_loop act kick ps st = (f, st')" and "I [] st"
    and wake: "\<And>seen p st. I seen st \<Longrightarrow> I (seen @ [p]) (wake act p st)"
    and remote: "\<And>seen p m st f st'. I (seen @ [p]) st \<Longrightarrow> p_frame p = Some (Message m) \<Longrightarrow>
      on_remote act (p_now p) m st = (f, st') \<Longrightarrow> I (seen @ [p]) st'"
    and inner: "\<And>seen p i st f st'. I (seen @ [p]) st \<Longrightarrow> p_inner p = Some i \<Longrightarrow>
      on_inner act (p_now p) i st = (f, st') \<Longrightarrow> I (seen @ [p]) st'"
  shows "\<exists>seen rest. ps = seen @ rest \<and> I seen st' \<and> (f = Continue \<longrightarrow> rest = [])"
proof (rule event_loop_steps [where I = I, OF assms(1,2)])
  fix seen p st f st'
  assume "I seen st" and step: "loop_step act kick p st = (f, st')"
  then have w: "I (seen @ [p]) (wake act p st)" by (intro wake)
  from step show "I (seen @ [p]) st'"
    by (cases rule: loop_step_cases) (use w remote [OF w] inner [OF w] in blast)+
qed

section \<open>The contract of a session\<close>

text \<open>
  A run that is still going handled every poll: no kick, no error, and each ready frame and inner
  message went to its handler. So the induction is over runs that continue; a run that ended is
  such a run and one last poll (\<open>event_loop_break\<close>).
\<close>

lemma event_loop_break:
  assumes "event_loop act kick ps st = (Break, st')"
  shows "\<exists>qs p rest st1. ps = qs @ p # rest \<and> event_loop act kick qs st = (Continue, st1) \<and>
    loop_step act kick p st1 = (Break, st')"
  using assms
proof (induction ps arbitrary: st)
  case (Cons p ps)
  obtain g st1 where s: "loop_step act kick p st = (g, st1)" by (rule prod.exhaust)
  show ?case
  proof (cases g)
    case Break
    with Cons.prems s show ?thesis
      by (intro exI [of _ "[]"] exI [of _ p] exI [of _ ps] exI [of _ st]) simp
  next
    case Continue
    with Cons.prems s have "event_loop act kick ps st1 = (Break, st')" by simp
    from Cons.IH [OF this] obtain qs q rest st2 where "ps = qs @ q # rest"
      "event_loop act kick qs st1 = (Continue, st2)" "loop_step act kick q st2 = (Break, st')" by blast
    with s Continue show ?thesis
      by (intro exI [of _ "p # qs"] exI [of _ q] exI [of _ rest] exI [of _ st2]) simp
  qed
qed simp

lemma event_loop_snoc:
  "event_loop act kick (ps @ [p]) st = (Continue, st') \<longleftrightarrow>
    (\<exists>st1. event_loop act kick ps st = (Continue, st1) \<and> loop_step act kick p st1 = (Continue, st'))"
  by (auto simp: event_loop_append split: control_flow.splits prod.splits)

lemma loop_step_continue:
  assumes "loop_step act kick p st = (Continue, st')" and "wake act p st = st1"
  shows "kick \<notin> cancelled (snd st1) \<and>
    (case p_frame p of
       Some fr \<Rightarrow> (\<exists>m. fr = Message m \<and> on_remote act (p_now p) m st1 = (Continue, st'))
     | None \<Rightarrow> (case p_inner p of
         Some i \<Rightarrow> on_inner act (p_now p) i st1 = (Continue, st')
       | None \<Rightarrow> st' = st1 \<and> \<not> sleep_until_opt (keep_alive_deadline act (fst st1)) (p_now p)))"
  using assms
  by (auto simp: loop_step_def branch_of_def select_biased_def run_branch_def Let_def
      split: option.splits frame.splits if_splits)

text \<open>
  \<open>identity\<close> says which inner messages authenticate, and as whom. The identity a poll delivers, what
  the registry goes through during it, and whether the session hears of its client: by a
  keep-alive or an authentication.
\<close>

definition delivered :: "('i \<Rightarrow> string option) \<Rightarrow> ('k, 'i) poll \<Rightarrow> string option" where
  "delivered identity p =
     (case p_frame p of Some _ \<Rightarrow> None | None \<Rightarrow> Option.bind (p_inner p) identity)"

definition poll_ops :: "('i \<Rightarrow> string option) \<Rightarrow> u64 \<Rightarrow> ('k, 'i) poll \<Rightarrow> 'k registry_op list" where
  "poll_ops identity i p =
     p_others p @ (case delivered identity p of None \<Rightarrow> [] | Some u \<Rightarrow> [Authenticate i u])"

definition heard :: "('i \<Rightarrow> string option) \<Rightarrow> ('k, 'i) poll \<Rightarrow> bool" where
  "heard identity p \<longleftrightarrow> delivered identity p \<noteq> None \<or>
     (\<exists>m. p_frame p = Some (Message m) \<and> wrapped m = Some KeepAliveRequest)"

text \<open>
  What both servers promise of their handlers. Only an authenticated session has a keep-alive
  deadline. Before that only some messages are allowed, and any other ends the session with
  nothing done. Messages of the client never authenticate by themselves; the result of a spawned
  task that carries an identity does, and that is the only use the session makes of the registry.
\<close>

locale session_actor =
  fixes act :: "('s, 'k, 'i, 'w) actor"
    and sid :: "'s \<Rightarrow> u64"
    and authed :: "'s \<Rightarrow> bool"
    and last_seen :: "'s \<Rightarrow> instant"
    and timeout :: duration
    and allowed :: "payload option \<Rightarrow> bool"
    and identity :: "'i \<Rightarrow> string option"
  assumes deadline: "keep_alive_deadline act s = (if authed s then Some (last_seen s + timeout) else None)"
    and gate: "\<not> authed s \<Longrightarrow> \<not> allowed (wrapped m) \<Longrightarrow> on_remote act now m (s, w) = (Break, s, w)"
    and takes: "authed (writer_takes act n s) = authed s" "sid (writer_takes act n s) = sid s"
      "last_seen (writer_takes act n s) = last_seen s"
    and remote: "on_remote act now m (s, w) = (f, s', w') \<Longrightarrow>
      authed s' = authed s \<and> sid s' = sid s \<and>
      last_seen s' = (if wrapped m = Some KeepAliveRequest then now else last_seen s) \<and>
      registry w' = registry w \<and> cancelled w' = cancelled w"
    and inner: "on_inner act now i (s, w) = (f, s', w') \<Longrightarrow>
      authed s' = (authed s \<or> identity i \<noteq> None) \<and> sid s' = sid s \<and>
      last_seen s' = (if identity i \<noteq> None then now else last_seen s) \<and>
      (registry w', cancelled w') =
        (case identity i of
           None \<Rightarrow> (registry w, cancelled w)
         | Some u \<Rightarrow> registry_step (Authenticate (sid s) u) (registry w, cancelled w))"
begin

lemma refused_message_ends:
  assumes "\<not> authed s" and "p_frame p = Some (Message m)" and "\<not> allowed (wrapped m)"
  shows "loop_step act kick p (s, w) = (Break, wake act p (s, w))"
  using assms
  by (simp add: loop_step_def branch_of_def select_biased_def run_branch_def wake_def gate
      takes Let_def)

lemma kick_ends:
  "kick \<in> cancelled (others_run (p_others p) w) \<Longrightarrow>
    loop_step act kick p (s, w) = (Break, wake act p (s, w))"
  by (simp add: loop_step_def branch_of_def select_biased_def run_branch_def wake_def Let_def)

lemma step_effects:
  assumes "loop_step act kick p (s, w) = (Continue, s', w')"
  shows "sid s' = sid s \<and> authed s' = (authed s \<or> delivered identity p \<noteq> None) \<and>
    last_seen s' = (if heard identity p then p_now p else last_seen s) \<and>
    (registry w', cancelled w') = fold registry_step (poll_ops identity (sid s) p) (registry w, cancelled w)"
proof -
  let ?s = "writer_takes act (p_taken p) s" and ?w = "others_run (p_others p) w"
  have "wake act p (s, w) = (?s, ?w)" by (simp add: wake_def)
  note c = loop_step_continue [OF assms this]
  show ?thesis
  proof (cases "p_frame p")
    case (Some fr)
    with c obtain m where "fr = Message m" and r: "on_remote act (p_now p) m (?s, ?w) = (Continue, s', w')"
      by auto
    with Some remote [OF r] show ?thesis
      by (auto simp: takes heard_def delivered_def poll_ops_def)
  next
    case None
    note frame = this
    show ?thesis
    proof (cases "p_inner p")
      case None
      with frame c show ?thesis by (auto simp: takes heard_def delivered_def poll_ops_def)
    next
      case (Some i)
      with frame c have r: "on_inner act (p_now p) i (?s, ?w) = (Continue, s', w')" by simp
      from inner [OF r] frame Some show ?thesis
        by (auto simp: takes heard_def delivered_def poll_ops_def split: option.splits)
    qed
  qed
qed

text \<open>
  A run refines a history of the registry: the others' operations, and an authentication of the
  session wherever it was delivered an identity.
\<close>

lemma run_effects:
  assumes "event_loop act kick ps (s, w) = (Continue, s', w')"
  shows "sid s' = sid s \<and> (authed s' \<longleftrightarrow> authed s \<or> (\<exists>p\<in>set ps. delivered identity p \<noteq> None)) \<and>
    (registry w', cancelled w') =
      fold registry_step (concat (map (poll_ops identity (sid s)) ps)) (registry w, cancelled w)"
  using assms
proof (induction ps arbitrary: s' w' rule: rev_induct)
  case Nil
  then show ?case by simp
next
  case (snoc p ps)
  from snoc.prems obtain s1 w1 where run: "event_loop act kick ps (s, w) = (Continue, s1, w1)"
    and step: "loop_step act kick p (s1, w1) = (Continue, s', w')"
    by (auto simp: event_loop_snoc)
  from snoc.IH [OF run] step_effects [OF step] show ?case by auto
qed

lemma last_seen_run:
  assumes "event_loop act kick ps (s, w) = (Continue, s', w')"
    and "sorted (map p_now ps)" and "\<forall>p\<in>set ps. last_seen s \<le> p_now p"
  shows "last_seen s \<le> last_seen s' \<and> (\<forall>p\<in>set ps. heard identity p \<longrightarrow> p_now p \<le> last_seen s') \<and>
    (last_seen s' = last_seen s \<or> (\<exists>p\<in>set ps. heard identity p \<and> last_seen s' = p_now p))"
  using assms
proof (induction ps arbitrary: s' w' rule: rev_induct)
  case Nil
  then show ?case by simp
next
  case (snoc p ps)
  from snoc.prems obtain s1 w1 where run: "event_loop act kick ps (s, w) = (Continue, s1, w1)"
    and step: "loop_step act kick p (s1, w1) = (Continue, s', w')"
    by (auto simp: event_loop_snoc)
  have sorted: "sorted (map p_now ps)" "\<forall>q\<in>set ps. p_now q \<le> p_now p"
    using snoc.prems(2) by (auto simp: sorted_append)
  from snoc.IH [OF run sorted(1)] snoc.prems(3) sorted(2) step_effects [OF step]
  show ?case by (cases "heard identity p") auto
qed

text \<open>The session times out only when it is authenticated and has not heard for the timeout.\<close>

lemma timeout_after_silence:
  assumes "event_loop act kick ps (s, w) = (Continue, s1, w1)"
    and "branch_of act kick p (wake act p (s1, w1)) = Some Timeout_Branch"
    and "sorted (map p_now ps)" and "\<forall>q\<in>set ps. last_seen s \<le> p_now q"
  shows "(authed s \<or> (\<exists>q\<in>set ps. delivered identity q \<noteq> None)) \<and>
    (\<forall>q\<in>set ps. heard identity q \<longrightarrow> p_now q + timeout \<le> p_now p)"
proof -
  from assms(2) have a: "authed s1" and late: "last_seen s1 + timeout \<le> p_now p"
    by (auto simp: branch_of_def select_biased_timeout wake_def deadline takes split: if_splits)
  from run_effects [OF assms(1)] a have "authed s \<or> (\<exists>q\<in>set ps. delivered identity q \<noteq> None)" by blast
  moreover from last_seen_run [OF assms(1,3,4)] late
  have "\<forall>q\<in>set ps. heard identity q \<longrightarrow> p_now q + timeout \<le> p_now p" by fastforce
  ultimately show ?thesis ..
qed

text \<open>And then it does: an authenticated session that goes on at a quiet poll heard recently.\<close>

lemma alive_heard_recently:
  assumes "event_loop act kick (ps @ [p]) (s, w) = (Continue, s', w')"
    and "p_frame p = None" "p_inner p = None" and "\<not> authed s" "authed s'"
    and "sorted (map p_now ps)" and "\<forall>q\<in>set ps. last_seen s \<le> p_now q"
  shows "\<exists>q\<in>set ps. heard identity q \<and> p_now p < p_now q + timeout"
proof -
  from assms(1) obtain s1 w1 where run: "event_loop act kick ps (s, w) = (Continue, s1, w1)"
    and step: "loop_step act kick p (s1, w1) = (Continue, s', w')"
    by (auto simp: event_loop_snoc)
  have quiet: "\<not> heard identity p" "delivered identity p = None" using assms(2,3) by (simp_all add: heard_def delivered_def)
  with step_effects [OF step] assms(5) have a: "authed s1" by simp
  have "\<not> sleep_until_opt (keep_alive_deadline act (writer_takes act (p_taken p) s1)) (p_now p)"
    using loop_step_continue [OF step refl] assms(2,3) by (simp add: wake_def)
  with a have recent: "p_now p < last_seen s1 + timeout"
    by (simp add: deadline takes sleep_until_opt_def)
  from run_effects [OF run] a assms(4) obtain q where q: "q \<in> set ps" "heard identity q"
    by (auto simp: heard_def)
  note seen = last_seen_run [OF run assms(6,7)]
  from seen q assms(7) have "last_seen s1 = last_seen s \<Longrightarrow> p_now q = last_seen s1"
    by (metis antisym)
  with seen q recent show ?thesis by (metis (no_types))
qed

end

text \<open>
  A session that also remembers as whom it is logged in: the identity delivered last.
\<close>

locale identified_actor = session_actor +
  fixes user :: "'a \<Rightarrow> string option"
  assumes authed_user: "authed s \<longleftrightarrow> user s \<noteq> None"
    and takes_user: "user (writer_takes act n s) = user s"
    and remote_user: "on_remote act now m (s, w) = (f, s', w') \<Longrightarrow> user s' = user s"
    and inner_user: "on_inner act now i (s, w) = (f, s', w') \<Longrightarrow>
      user s' = (case identity i of None \<Rightarrow> user s | Some u \<Rightarrow> Some u)"
begin

text \<open>One step, whether it ends the session or not, with no other task in between.\<close>

lemma step_directory:
  assumes "loop_step act kick p (s, w) = (f, s', w')" and "p_others p = []"
  shows "sid s' = sid s \<and>
    (user s' = user s \<and> (registry w', cancelled w') = (registry w, cancelled w) \<or>
     (\<exists>u. user s' = Some u \<and>
        (registry w', cancelled w') = registry_step (Authenticate (sid s) u) (registry w, cancelled w)))"
  using assms(1)
proof (cases rule: loop_step_cases)
  case none
  with assms(2) show ?thesis by (simp add: wake_def takes takes_user)
next
  case (remote m)
  with assms(2) have r: "on_remote act (p_now p) m (writer_takes act (p_taken p) s, w) = (f, s', w')"
    by (simp add: wake_def)
  from session_actor_axioms remote_user [OF r] show ?thesis
    using session_actor.remote [OF session_actor_axioms r] by (simp add: takes takes_user)
next
  case (inner i)
  with assms(2) have r: "on_inner act (p_now p) i (writer_takes act (p_taken p) s, w) = (f, s', w')"
    by (simp add: wake_def)
  from inner_user [OF r] session_actor.inner [OF session_actor_axioms r] show ?thesis
    by (auto simp: takes takes_user split: option.splits)
qed

end

section \<open>Concrete polls\<close>

text \<open>Concrete runs for the witnesses: an empty world, and polls at which one thing is ready.\<close>

definition world_new :: "'k registry \<Rightarrow> ('k, 'w) world" where
  "world_new r = \<lparr>registry = r, cancelled = {}, spawned = []\<rparr>"

definition frame_at :: "instant \<Rightarrow> payload \<Rightarrow> ('k, 'i) poll" where
  "frame_at t m = \<lparr>p_now = t, p_others = [], p_taken = 0,
     p_frame = Some (Message (outgoing m)), p_inner = None\<rparr>"

definition inner_at :: "instant \<Rightarrow> 'i \<Rightarrow> ('k, 'i) poll" where
  "inner_at t i = \<lparr>p_now = t, p_others = [], p_taken = 0, p_frame = None, p_inner = Some i\<rparr>"

definition idle_at :: "instant \<Rightarrow> ('k, 'i) poll" where
  "idle_at t = \<lparr>p_now = t, p_others = [], p_taken = 0, p_frame = None, p_inner = None\<rparr>"

lemmas poll_defs = world_new_def frame_at_def inner_at_def idle_at_def outgoing_def

lemma loop_step_polls:
  "loop_step act kick (frame_at t m) (s, w) =
    (if kick \<in> cancelled w then (Break, writer_takes act 0 s, w)
     else on_remote act t (outgoing m) (writer_takes act 0 s, w))"
  "loop_step act kick (inner_at t i) (s, w) =
    (if kick \<in> cancelled w then (Break, writer_takes act 0 s, w)
     else on_inner act t i (writer_takes act 0 s, w))"
  by (simp_all add: loop_step_def branch_of_def select_biased_def run_branch_def wake_def
      frame_at_def inner_at_def)

end
