(* ===== verification/Auth_Token.thy ===== *)
theory Auth_Token
  imports Prelude
begin

text \<open>
  The authentication token that joins the two servers. LoginServer stores
  \<open>"{account_id}:{user_id}"\<close> under a fresh token (\<open>login_server/src/backend.rs\<close>); GameServer takes
  it once (\<open>game_server/src/backend.rs\<close>) and parses it (\<open>game_server/src/session.rs\<close>).
\<close>

section \<open>Decimal numbers\<close>

text \<open>What \<open>Display\<close> and \<open>FromStr\<close> do for \<open>u64\<close>. Parsing accepts a leading \<open>+\<close>, no sign alone, and
  fails on overflow.\<close>

definition digit_char :: "nat \<Rightarrow> char" where
  "digit_char d = char_of (48 + d)"

definition char_digit :: "char \<Rightarrow> nat option" where
  "char_digit c =
     (let k = of_char c :: nat in if 48 \<le> k \<and> k \<le> 57 then Some (k - 48) else None)"

fun dec_digits :: "nat \<Rightarrow> string" where
  "dec_digits n =
     (if n < 10 then [digit_char n] else dec_digits (n div 10) @ [digit_char (n mod 10)])"

declare dec_digits.simps [simp del]

definition u64_to_string :: "u64 \<Rightarrow> string" where
  "u64_to_string w = dec_digits (unat w)"

fun parse_digits :: "nat \<Rightarrow> string \<Rightarrow> nat option" where
  "parse_digits acc [] = Some acc"
| "parse_digits acc (c # cs) =
     (case char_digit c of
        None \<Rightarrow> None
      | Some d \<Rightarrow>
          let acc' = acc * 10 + d in if acc' < 2 ^ 64 then parse_digits acc' cs else None)"

definition u64_from_str :: "string \<Rightarrow> u64 option" where
  "u64_from_str s =
     (case s of
        [] \<Rightarrow> None
      | c # cs \<Rightarrow>
          if (c = CHR ''+'' \<or> c = CHR ''-'') \<and> cs = [] then None
          else map_option of_nat (parse_digits 0 (if c = CHR ''+'' then cs else s)))"

lemma digit_roundtrip [simp]: "d < 10 \<Longrightarrow> char_digit (digit_char d) = Some d"
  by (simp add: char_digit_def digit_char_def Let_def)

lemma digit_char_neq:
  "d < 10 \<Longrightarrow> digit_char d \<noteq> CHR '':''"
  "d < 10 \<Longrightarrow> digit_char d \<noteq> CHR ''+''"
  "d < 10 \<Longrightarrow> digit_char d \<noteq> CHR ''-''"
  by (auto simp: digit_char_def dest!: arg_cong [where f = "of_char :: char \<Rightarrow> nat"])

lemma set_dec_digits: "c \<in> set (dec_digits n) \<Longrightarrow> \<exists>d<10. c = digit_char d"
proof (induction n rule: dec_digits.induct)
  case (1 n)
  show ?case
  proof (cases "n < 10")
    case True
    with "1.prems" show ?thesis by (auto simp: dec_digits.simps [of n])
  next
    case False
    with "1.prems" have "c \<in> set (dec_digits (n div 10)) \<or> c = digit_char (n mod 10)"
      by (auto simp: dec_digits.simps [of n])
    with "1.IH" [OF False] show ?thesis by force
  qed
qed

lemma dec_digits_nonempty [simp]: "dec_digits n \<noteq> []"
  by (simp add: dec_digits.simps [of n])

lemma parse_digits_append:
  "parse_digits acc (xs @ ys) = Option.bind (parse_digits acc xs) (\<lambda>acc. parse_digits acc ys)"
  by (induction acc xs rule: parse_digits.induct) (auto simp: Let_def split: option.splits)

lemma parse_dec_digits: "n < 2 ^ 64 \<Longrightarrow> parse_digits 0 (dec_digits n) = Some n"
proof (induction n rule: dec_digits.induct)
  case (1 n)
  show ?case
  proof (cases "n < 10")
    case True
    then show ?thesis by (simp add: dec_digits.simps [of n])
  next
    case False
    have "parse_digits 0 (dec_digits (n div 10)) = Some (n div 10)"
      using 1 False by simp
    with False "1.prems" show ?thesis
      by (simp add: dec_digits.simps [of n] parse_digits_append Let_def)
  qed
qed

lemma u64_string_roundtrip [simp]: "u64_from_str (u64_to_string w) = Some w"
proof -
  obtain c cs where s: "dec_digits (unat w) = c # cs" by (cases "dec_digits (unat w)") auto
  then have "c \<in> set (dec_digits (unat w))" by simp
  then obtain d where "d < 10" "c = digit_char d" using set_dec_digits by blast
  then have "c \<noteq> CHR ''+''" "c \<noteq> CHR ''-''" by (simp_all add: digit_char_neq)
  moreover have "parse_digits 0 (c # cs) = Some (unat w)"
    using parse_dec_digits [of "unat w"] unsigned_less [of w, where 'a = nat] s by simp
  ultimately show ?thesis by (simp add: u64_from_str_def u64_to_string_def s)
qed

section \<open>The value of a token\<close>

record account =
  account_id :: u64
  user_id :: string

text \<open>\<open>format!("{account_id}:{user_id}")\<close> of \<open>issue_auth_token\<close>.\<close>

definition token_value :: "u64 \<Rightarrow> string \<Rightarrow> string" where
  "token_value aid uid = u64_to_string aid @ '':'' @ uid"

definition split_once :: "char \<Rightarrow> string \<Rightarrow> (string \<times> string) option" where
  "split_once c s =
     (if c \<in> set s
      then Some (takeWhile (\<lambda>x. x \<noteq> c) s, tl (dropWhile (\<lambda>x. x \<noteq> c) s)) else None)"

definition parse_token_value :: "string \<Rightarrow> account option" where
  "parse_token_value v =
     (case split_once (CHR '':'') v of
        None \<Rightarrow> None
      | Some (a, u) \<Rightarrow>
          (case u64_from_str a of
             None \<Rightarrow> None
           | Some i \<Rightarrow> Some \<lparr>account_id = i, user_id = u\<rparr>))"

lemma split_once_append: "c \<notin> set a \<Longrightarrow> split_once c (a @ c # u) = Some (a, u)"
  by (simp add: split_once_def takeWhile_append dropWhile_append)

lemma colon_notin_u64_to_string: "CHR '':'' \<notin> set (u64_to_string w)"
proof
  assume "CHR '':'' \<in> set (u64_to_string w)"
  then obtain d where "d < 10" "CHR '':'' = digit_char d"
    unfolding u64_to_string_def using set_dec_digits by blast
  with digit_char_neq(1) [of d] show False by simp
qed

lemma parse_token_value_token [simp]:
  "parse_token_value (token_value aid uid) = Some \<lparr>account_id = aid, user_id = uid\<rparr>"
  by (simp add: parse_token_value_def token_value_def split_once_append colon_notin_u64_to_string)

text \<open>
  GameServer reads back the account and the user that LoginServer wrote, for every account id
  and every user name, empty or with colons.
\<close>

theorem token_value_roundtrip:
  "parse_token_value (token_value aid uid) = Some \<lparr>account_id = aid, user_id = uid\<rparr>"
  by (rule parse_token_value_token)

section \<open>Which values GameServer accepts\<close>

definition is_digit :: "char \<Rightarrow> bool" where
  "is_digit c \<longleftrightarrow> char_digit c \<noteq> None"

fun dec_from :: "nat \<Rightarrow> string \<Rightarrow> nat" where
  "dec_from acc [] = acc"
| "dec_from acc (c # cs) = dec_from (acc * 10 + the (char_digit c)) cs"

lemma dec_from_ge: "acc \<le> dec_from acc cs"
proof (induction acc cs rule: dec_from.induct)
  case (2 acc c cs)
  have "acc \<le> acc * 10 + the (char_digit c)" by simp
  also have "\<dots> \<le> dec_from acc (c # cs)" using 2 by simp
  finally show ?case .
qed simp

lemma parse_digits_eq:
  "acc < 2 ^ 64 \<Longrightarrow> parse_digits acc cs =
    (if list_all is_digit cs \<and> dec_from acc cs < 2 ^ 64 then Some (dec_from acc cs) else None)"
proof (induction acc cs rule: parse_digits.induct)
  case (1 acc)
  then show ?case by simp
next
  case (2 acc c cs)
  show ?case
  proof (cases "char_digit c")
    case None
    then show ?thesis by (simp add: is_digit_def)
  next
    case (Some d)
    have "acc * 10 + d \<le> dec_from (acc * 10 + d) cs" by (rule dec_from_ge)
    with 2 Some show ?thesis by (auto simp: is_digit_def Let_def)
  qed
qed

text \<open>A number as \<open>u64\<close> accepts it: at least one digit, perhaps after a \<open>+\<close>, of value below \<open>2^64\<close>.\<close>

definition u64_literal :: "string \<Rightarrow> u64 \<Rightarrow> bool" where
  "u64_literal s w \<longleftrightarrow>
     (\<exists>ds. (s = ds \<or> s = CHR ''+'' # ds) \<and> ds \<noteq> [] \<and> list_all is_digit ds \<and>
       dec_from 0 ds = unat w)"

lemma sign_not_digit [simp]: "\<not> is_digit (CHR ''+'')" "\<not> is_digit (CHR ''-'')"
  by (simp_all add: is_digit_def char_digit_def)

lemma u64_from_str_iff: "u64_from_str s = Some w \<longleftrightarrow> u64_literal s w"
proof -
  have bound: "unat w < 2 ^ 64" using unsigned_less [of w, where 'a = nat] by simp
  have "parse_digits 0 ds = Some n \<and> of_nat n = w \<longleftrightarrow>
      list_all is_digit ds \<and> dec_from 0 ds = n \<and> n = unat w" for ds n
    using bound by (auto simp: parse_digits_eq unat_of_nat)
  then have digits: "map_option of_nat (parse_digits 0 ds) = Some w \<longleftrightarrow>
      list_all is_digit ds \<and> dec_from 0 ds = unat w" for ds
    unfolding map_option_eq_Some by simp
  have literal: "u64_literal (c # cs) w \<longleftrightarrow>
      (if c = CHR ''+'' then cs \<noteq> [] \<and> list_all is_digit cs \<and> dec_from 0 cs = unat w
       else list_all is_digit (c # cs) \<and> dec_from 0 (c # cs) = unat w)" for c cs
  proof (cases "c = CHR ''+''")
    case True
    then have "u64_literal (c # cs) w \<longleftrightarrow> (\<exists>ds. (ds = c # cs \<or> ds = cs) \<and> ds \<noteq> [] \<and> list_all is_digit ds \<and> dec_from 0 ds = unat w)"
      unfolding u64_literal_def by (intro ex_cong1) blast
    with True show ?thesis by auto
  next
    case False
    then show ?thesis by (simp add: u64_literal_def)
  qed
  show ?thesis
  proof (cases s)
    case Nil
    then show ?thesis by (simp add: u64_from_str_def u64_literal_def)
  next
    case (Cons c cs)
    then have "u64_from_str s =
        (if (c = CHR ''+'' \<or> c = CHR ''-'') \<and> cs = [] then None
         else map_option of_nat (parse_digits 0 (if c = CHR ''+'' then cs else c # cs)))"
      by (simp add: u64_from_str_def)
    then have "u64_from_str s = Some w \<longleftrightarrow>
        \<not> ((c = CHR ''+'' \<or> c = CHR ''-'') \<and> cs = []) \<and>
        (if c = CHR ''+'' then list_all is_digit cs \<and> dec_from 0 cs = unat w
         else list_all is_digit (c # cs) \<and> dec_from 0 (c # cs) = unat w)"
      by (simp only: digits option.simps simp_thms split: if_split) blast
    also have "\<dots> \<longleftrightarrow> u64_literal (c # cs) w"
      unfolding literal by (cases "c = CHR ''+''"; cases "c = CHR ''-''") auto
    finally show ?thesis unfolding Cons .
  qed
qed

lemma split_once_iff:
  "split_once c s = Some (a, u) \<longleftrightarrow> s = a @ c # u \<and> c \<notin> set a"
proof
  assume split: "split_once c s = Some (a, u)"
  then obtain xs ys where "s = xs @ c # ys" "c \<notin> set xs"
    by (metis option.distinct(1) split_list_first split_once_def)
  with split show "s = a @ c # u \<and> c \<notin> set a" by (simp add: split_once_append)
qed (simp add: split_once_append)

text \<open>
  GameServer accepts a token's value exactly when it is a \<open>u64\<close> in decimal, a colon, and any
  text: the user is everything after the first colon. Everything else (no colon, no digits, another
  sign, a number of \<open>2^64\<close> or more) is refused.
\<close>

theorem parse_token_value_iff:
  "parse_token_value v = Some a \<longleftrightarrow>
     (\<exists>num. v = num @ '':'' @ user_id a \<and> u64_literal num (account_id a))"
proof -
  have colon: "CHR '':'' \<notin> set num" if "u64_literal num w" for num w
  proof -
    have "\<not> is_digit (CHR '':'')" by (simp add: is_digit_def char_digit_def)
    with that show ?thesis by (auto simp: u64_literal_def list_all_iff)
  qed
  have "parse_token_value v = Some a \<longleftrightarrow>
      (\<exists>num. split_once (CHR '':'') v = Some (num, user_id a) \<and>
        u64_from_str num = Some (account_id a))"
    by (auto simp: parse_token_value_def split: option.splits)
  then show ?thesis using colon by (auto simp: split_once_iff u64_from_str_iff)
qed

end
