(* ===== verification/Password.thy ===== *)
theory Password
  imports Prelude
begin

text \<open>
  \<open>crates/db/src/password.rs\<close>: how the stored password hash is made and checked. SHA-256, PBKDF2,
  Base64 and the constant-time comparison are library functions: parameters here.
\<close>

definition ITERATIONS :: u32 where
  "ITERATIONS = 100000"

definition HASH_SIZE :: nat where
  "HASH_SIZE = 32"

definition SALT_SIZE :: nat where
  "SALT_SIZE = 32"

record crypto =
  cr_sha256 :: "bytes \<Rightarrow> bytes"
  cr_pbkdf2_hmac_sha256 :: "nat \<Rightarrow> bytes \<Rightarrow> bytes \<Rightarrow> u32 \<Rightarrow> bytes"
  cr_encode :: "bytes \<Rightarrow> string"
  cr_decode :: "string \<Rightarrow> bytes option"
  cr_ct_eq :: "bytes \<Rightarrow> bytes \<Rightarrow> bool"

text \<open>Base64 decodes what it encoded; the comparison is equality, of length too.\<close>

definition crypto_laws :: "crypto \<Rightarrow> bool" where
  "crypto_laws cr \<longleftrightarrow>
     (\<forall>b. cr_decode cr (cr_encode cr b) = Some b) \<and> (\<forall>a b. cr_ct_eq cr a b \<longleftrightarrow> a = b)"

datatype password_error = InvalidBase64

text \<open>The UTF-8 bytes of the plain password are given.\<close>

definition client_hash :: "crypto \<Rightarrow> bytes \<Rightarrow> bytes" where
  "client_hash cr plain_password = cr_sha256 cr plain_password"

definition derive :: "crypto \<Rightarrow> bytes \<Rightarrow> bytes \<Rightarrow> bytes" where
  "derive cr h salt = cr_pbkdf2_hmac_sha256 cr HASH_SIZE h salt ITERATIONS"

text \<open>\<open>salt\<close> is what the operating system's random source filled in.\<close>

definition generate_stored_hash :: "crypto \<Rightarrow> bytes \<Rightarrow> bytes \<Rightarrow> string \<times> string" where
  "generate_stored_hash cr salt h =
     (let hash = derive cr h salt in (cr_encode cr hash, cr_encode cr salt))"

definition verify :: "crypto \<Rightarrow> bytes \<Rightarrow> string \<Rightarrow> string \<Rightarrow> password_error + bool" where
  "verify cr h stored_hash_base64 stored_salt_base64 =
     (case cr_decode cr stored_salt_base64 of
        None \<Rightarrow> Inl InvalidBase64
      | Some salt \<Rightarrow>
          (case cr_decode cr stored_hash_base64 of
             None \<Rightarrow> Inl InvalidBase64
           | Some stored \<Rightarrow>
               let expected = derive cr h salt in Inr (cr_ct_eq cr expected stored)))"

lemma verify_generated:
  assumes "crypto_laws cr" and "generate_stored_hash cr salt h = (stored_hash, stored_salt)"
  shows "verify cr h' stored_hash stored_salt = Inr (derive cr h' salt = derive cr h salt)"
  using assms by (auto simp: verify_def generate_stored_hash_def crypto_laws_def Let_def)

text \<open>
  A password that was stored, whatever the salt, is accepted; another one is accepted exactly if
  PBKDF2 maps both to the same hash under that salt; and checking against a stored pair never
  fails.
\<close>

theorem stored_password_verifies:
  assumes "crypto_laws cr"
    and "generate_stored_hash cr salt (client_hash cr plain) = (stored_hash, stored_salt)"
  shows "verify cr (client_hash cr plain) stored_hash stored_salt = Inr True \<and>
    (\<forall>h. verify cr h stored_hash stored_salt = Inr True \<longleftrightarrow>
       derive cr h salt = derive cr (client_hash cr plain) salt) \<and>
    (\<forall>h. verify cr h stored_hash stored_salt \<noteq> Inl InvalidBase64)"
  using verify_generated [OF assms] by simp

text \<open>Functions with the assumed behaviour, for the witnesses: no cryptography.\<close>

definition toy_crypto :: crypto where
  "toy_crypto =
     \<lparr>cr_sha256 = (\<lambda>b. b),
      cr_pbkdf2_hmac_sha256 = (\<lambda>n h salt k. h @ salt),
      cr_encode = map (\<lambda>w. char_of (unat w)),
      cr_decode = (\<lambda>s. Some (map of_char s)),
      cr_ct_eq = (=)\<rparr>"

lemma of_char_char_of_unat [simp]: "of_char (char_of (unat w)) = (w :: u8)"
proof -
  have "unat w < 256" using unsigned_less [of w, where 'a = nat] by simp
  then have "(of_char (char_of (unat w)) :: nat) = unat w" by simp
  then have "(of_nat (of_char (char_of (unat w))) :: u8) = of_nat (unat w)" by (rule arg_cong)
  then show ?thesis by (simp only: of_nat_of_char of_nat_unat ucast_id)
qed

lemma crypto_laws_toy [simp]: "crypto_laws toy_crypto"
  by (simp add: crypto_laws_def toy_crypto_def comp_def)

theorem stored_password_verifies_witness:
  "verify toy_crypto [1, 2] (cr_encode toy_crypto [1, 2, 9]) (cr_encode toy_crypto [9]) = Inr True \<and>
    verify toy_crypto [1, 3] (cr_encode toy_crypto [1, 2, 9]) (cr_encode toy_crypto [9]) \<noteq> Inr True"
proof -
  have "generate_stored_hash toy_crypto [9] (client_hash toy_crypto [1, 2]) =
      (cr_encode toy_crypto [1, 2, 9], cr_encode toy_crypto [9])"
    by (simp add: generate_stored_hash_def client_hash_def derive_def toy_crypto_def)
  from stored_password_verifies [OF crypto_laws_toy this] show ?thesis
    by (simp add: client_hash_def derive_def toy_crypto_def)
qed

end
