(* ===== verification/Token_Store.thy ===== *)
theory Token_Store
  imports Auth_Token
begin

text \<open>
  The one-time tokens in Redis: \<open>issue_auth_token\<close> of \<open>crates/login_server/src/backend.rs\<close> and
  \<open>take_auth_token\<close> of \<open>crates/game_server/src/backend.rs\<close>. Redis is a service: its commands are
  parameters, its documented behaviour is a named hypothesis.
\<close>

section \<open>Redis\<close>

datatype redis_error = RedisError

text \<open>
  The commands the servers use, at a time. \<open>SET key value EX ttl\<close> says whether the reply is
  \<open>Value::Okay\<close>. The two calls of the Lua script run as one step; \<open>rd_script_fails\<close> says whether
  its invocation fails, and the store it then leaves.
\<close>

record 'r redis =
  rd_set_ex :: "instant \<Rightarrow> string \<Rightarrow> string \<Rightarrow> u64 \<Rightarrow> 'r \<Rightarrow> (redis_error + bool) \<times> 'r"
  rd_get :: "instant \<Rightarrow> string \<Rightarrow> 'r \<Rightarrow> string option"
  rd_del :: "instant \<Rightarrow> string \<Rightarrow> 'r \<Rightarrow> 'r"
  rd_script_fails :: "instant \<Rightarrow> string \<Rightarrow> 'r \<Rightarrow> (redis_error \<times> 'r) option"

text \<open>
  The contract: a \<open>SET\<close> that was confirmed is seen by \<open>GET\<close> until its time to live is over and not
  after it; \<open>DEL\<close> removes; other keys are not touched; a value that expired does not come back. Of a
  \<open>SET\<close> that was not confirmed the effect may or may not be there, but not past its time to live.
\<close>

definition redis_laws :: "'r redis \<Rightarrow> bool" where
  "redis_laws rd \<longleftrightarrow>
     (\<forall>t k v ttl r r' t'. rd_set_ex rd t k v ttl r = (Inr True, r') \<longrightarrow> t \<le> t' \<longrightarrow>
        rd_get rd t' k r' = (if t' < t + from_secs (unat ttl) then Some v else None)) \<and>
     (\<forall>t k v ttl r k' t'. k' \<noteq> k \<longrightarrow>
        rd_get rd t' k' (snd (rd_set_ex rd t k v ttl r)) = rd_get rd t' k' r) \<and>
     (\<forall>t k r t'. t \<le> t' \<longrightarrow> rd_get rd t' k (rd_del rd t k r) = None) \<and>
     (\<forall>t k r k' t'. k' \<noteq> k \<longrightarrow> rd_get rd t' k' (rd_del rd t k r) = rd_get rd t' k' r) \<and>
     (\<forall>t t' k r. rd_get rd t k r = None \<longrightarrow> t \<le> t' \<longrightarrow> rd_get rd t' k r = None) \<and>
     (\<forall>t k v ttl r t'. rd_get rd t' k (snd (rd_set_ex rd t k v ttl r)) \<in>
        {None, Some v, rd_get rd t' k r}) \<and>
     (\<forall>t r e r' key k t'. rd_script_fails rd t key r = Some (e, r') \<longrightarrow>
        rd_get rd t' k r' \<in> (if k = key then {None, rd_get rd t' k r} else {rd_get rd t' k r})) \<and>
     (\<forall>t k v ttl r t'. t + from_secs (unat ttl) \<le> t' \<longrightarrow>
        rd_get rd t' k (snd (rd_set_ex rd t k v ttl r)) \<in> {None, rd_get rd t' k r})"

lemma redis_lawsD:
  assumes "redis_laws rd"
  shows "rd_set_ex rd t k v ttl r = (Inr True, r') \<Longrightarrow> t \<le> t' \<Longrightarrow>
      rd_get rd t' k r' = (if t' < t + from_secs (unat ttl) then Some v else None)"
    and "k' \<noteq> k \<Longrightarrow> rd_get rd t' k' (snd (rd_set_ex rd t k v ttl r)) = rd_get rd t' k' r"
    and "t \<le> t' \<Longrightarrow> rd_get rd t' k (rd_del rd t k r) = None"
    and "k' \<noteq> k \<Longrightarrow> rd_get rd t' k' (rd_del rd t k r) = rd_get rd t' k' r"
    and "rd_get rd t k r = None \<Longrightarrow> t \<le> t' \<Longrightarrow> rd_get rd t' k r = None"
    and "rd_get rd t' k (snd (rd_set_ex rd t k v ttl r)) \<in> {None, Some v, rd_get rd t' k r}"
    and "rd_script_fails rd t key r = Some (e, r') \<Longrightarrow>
      rd_get rd t' k r' \<in> (if k = key then {None, rd_get rd t' k r} else {rd_get rd t' k r})"
    and "t + from_secs (unat ttl) \<le> t' \<Longrightarrow>
      rd_get rd t' k (snd (rd_set_ex rd t k v ttl r)) \<in> {None, rd_get rd t' k r}"
proof -
  note laws = assms [unfolded redis_laws_def]
  show "rd_set_ex rd t k v ttl r = (Inr True, r') \<Longrightarrow> t \<le> t' \<Longrightarrow>
      rd_get rd t' k r' = (if t' < t + from_secs (unat ttl) then Some v else None)"
    using laws [THEN conjunct1] by (elim allE impE)
  show "k' \<noteq> k \<Longrightarrow> rd_get rd t' k' (snd (rd_set_ex rd t k v ttl r)) = rd_get rd t' k' r"
    using laws [THEN conjunct2, THEN conjunct1] by (elim allE impE)
  show "t \<le> t' \<Longrightarrow> rd_get rd t' k (rd_del rd t k r) = None"
    using laws [THEN conjunct2, THEN conjunct2, THEN conjunct1] by (elim allE impE)
  show "k' \<noteq> k \<Longrightarrow> rd_get rd t' k' (rd_del rd t k r) = rd_get rd t' k' r"
    using laws [THEN conjunct2, THEN conjunct2, THEN conjunct2, THEN conjunct1] by (elim allE impE)
  show "rd_get rd t k r = None \<Longrightarrow> t \<le> t' \<Longrightarrow> rd_get rd t' k r = None"
    using laws [THEN conjunct2, THEN conjunct2, THEN conjunct2, THEN conjunct2, THEN conjunct1]
    by (elim allE impE)
  show "rd_get rd t' k (snd (rd_set_ex rd t k v ttl r)) \<in> {None, Some v, rd_get rd t' k r}"
    using laws [THEN conjunct2, THEN conjunct2, THEN conjunct2, THEN conjunct2, THEN conjunct2,
        THEN conjunct1] by (elim allE)
  show "rd_script_fails rd t key r = Some (e, r') \<Longrightarrow>
      rd_get rd t' k r' \<in> (if k = key then {None, rd_get rd t' k r} else {rd_get rd t' k r})"
    using laws [THEN conjunct2, THEN conjunct2, THEN conjunct2, THEN conjunct2, THEN conjunct2,
        THEN conjunct2, THEN conjunct1] by (elim allE impE)
  show "t + from_secs (unat ttl) \<le> t' \<Longrightarrow>
      rd_get rd t' k (snd (rd_set_ex rd t k v ttl r)) \<in> {None, rd_get rd t' k r}"
    using laws [THEN conjunct2, THEN conjunct2, THEN conjunct2, THEN conjunct2, THEN conjunct2,
        THEN conjunct2, THEN conjunct2] by (elim allE impE)
qed

text \<open>A map with expiry times behaves so.\<close>

definition map_redis :: "(string \<rightharpoonup> string \<times> instant) redis" where
  "map_redis =
     \<lparr>rd_set_ex = (\<lambda>t k v ttl r. (Inr True, r(k \<mapsto> (v, t + from_secs (unat ttl))))),
      rd_get = (\<lambda>t k r. case r k of None \<Rightarrow> None | Some (v, e) \<Rightarrow> if t < e then Some v else None),
      rd_del = (\<lambda>t k r. r(k := None)),
      rd_script_fails = (\<lambda>t key r. None)\<rparr>"

lemma redis_laws_map [simp]: "redis_laws map_redis"
  by (auto simp: redis_laws_def map_redis_def split: option.splits)

section \<open>Issuing and taking\<close>

text \<open>\<open>token\<close> is the random UUID of the call.\<close>

definition issue_auth_token :: "'r redis \<Rightarrow> string \<Rightarrow> u64 \<Rightarrow> instant \<Rightarrow> string \<Rightarrow> u64 \<Rightarrow> string \<Rightarrow> 'r \<Rightarrow>
    (redis_error + string option) \<times> 'r" where
  "issue_auth_token rd auth_token_prefix auth_token_ttl_seconds now token aid uid r =
     (let key = auth_token_prefix @ token;
          v = token_value aid uid
      in case rd_set_ex rd now key v auth_token_ttl_seconds r of
           (Inl e, r') \<Rightarrow> (Inl e, r')
         | (Inr okay, r') \<Rightarrow> (Inr (if okay then Some token else None), r'))"

text \<open>The Lua script \<open>get_del\<close>.\<close>

definition get_del :: "'r redis \<Rightarrow> instant \<Rightarrow> string \<Rightarrow> 'r \<Rightarrow> string option \<times> 'r" where
  "get_del rd now key r =
     (case rd_get rd now key r of
        None \<Rightarrow> (None, r)
      | Some v \<Rightarrow> (Some v, rd_del rd now key r))"

definition take_auth_token :: "'r redis \<Rightarrow> string \<Rightarrow> instant \<Rightarrow> string \<Rightarrow> 'r \<Rightarrow>
    (redis_error + string option) \<times> 'r" where
  "take_auth_token rd auth_token_prefix now token r =
     (let key = auth_token_prefix @ token in
      case rd_script_fails rd now key r of
        Some (e, r') \<Rightarrow> (Inl e, r')
      | None \<Rightarrow> (case get_del rd now key r of (v, r') \<Rightarrow> (Inr v, r')))"

section \<open>The contract of a token service\<close>

text \<open>
  What the servers rely on when one issues tokens and the other takes them. \<open>stored\<close> observes the
  value a token stands for at a time.
\<close>

locale token_service =
  fixes issue :: "instant \<Rightarrow> string \<Rightarrow> u64 \<Rightarrow> string \<Rightarrow> 'r \<Rightarrow> (redis_error + string option) \<times> 'r"
    and take_token :: "instant \<Rightarrow> string \<Rightarrow> 'r \<Rightarrow> (redis_error + string option) \<times> 'r"
    and stored :: "instant \<Rightarrow> string \<Rightarrow> 'r \<Rightarrow> string option"
    and ttl :: duration
  assumes issue_ok: "issue t tok aid uid r = (Inr (Some tok'), r') \<Longrightarrow> t \<le> t' \<Longrightarrow>
      tok' = tok \<and> stored t' tok r' = (if t' < t + ttl then Some (token_value aid uid) else None)"
    and issue_any: "stored t' tok (snd (issue t tok aid uid r)) \<in>
      {None, Some (token_value aid uid), stored t' tok r}"
    and issue_expires: "t + ttl \<le> t' \<Longrightarrow>
      stored t' tok (snd (issue t tok aid uid r)) \<in> {None, stored t' tok r}"
    and issue_other: "tok' \<noteq> tok \<Longrightarrow> stored t' tok' (snd (issue t tok aid uid r)) = stored t' tok' r"
    and take_ok: "take_token t tok r = (Inr v, r') \<Longrightarrow> t \<le> t' \<Longrightarrow>
      v = stored t tok r \<and> stored t' tok r' = None"
    and take_any: "t \<le> t' \<Longrightarrow> stored t' tok' (snd (take_token t tok r)) \<in> {None, stored t' tok' r}"
    and take_other: "tok' \<noteq> tok \<Longrightarrow> stored t' tok' (snd (take_token t tok r)) = stored t' tok' r"

text \<open>
  A history of the service: LoginServer issues, GameServer takes. The result has the takes that got
  a value, with the value.
\<close>

datatype token_event = Issue instant string u64 string | Take instant string

fun event_time :: "token_event \<Rightarrow> instant" where
  "event_time (Issue t _ _ _) = t"
| "event_time (Take t _) = t"

fun event_token :: "token_event \<Rightarrow> string" where
  "event_token (Issue _ tok _ _) = tok"
| "event_token (Take _ tok) = tok"

fun token_step :: "(instant \<Rightarrow> string \<Rightarrow> u64 \<Rightarrow> string \<Rightarrow> 'r \<Rightarrow> (redis_error + string option) \<times> 'r) \<Rightarrow>
    (instant \<Rightarrow> string \<Rightarrow> 'r \<Rightarrow> (redis_error + string option) \<times> 'r) \<Rightarrow>
    token_event \<Rightarrow> 'r \<times> (string \<times> string) list \<Rightarrow> 'r \<times> (string \<times> string) list" where
  "token_step issue take_token (Issue t tok aid uid) (r, taken) = (snd (issue t tok aid uid r), taken)"
| "token_step issue take_token (Take t tok) (r, taken) =
     (case take_token t tok r of
        (Inr (Some v), r') \<Rightarrow> (r', taken @ [(tok, v)])
      | (_, r') \<Rightarrow> (r', taken))"

fun issued_tokens :: "token_event list \<Rightarrow> (string \<times> string) list" where
  "issued_tokens [] = []"
| "issued_tokens (Issue t tok aid uid # evs) = (tok, token_value aid uid) # issued_tokens evs"
| "issued_tokens (Take t tok # evs) = issued_tokens evs"

lemma issued_tokens_append [simp]: "issued_tokens (xs @ ys) = issued_tokens xs @ issued_tokens ys"
  by (induction xs rule: issued_tokens.induct) simp_all

context token_service begin

definition once :: "instant \<Rightarrow> (string \<times> string) list \<Rightarrow> 'r \<times> (string \<times> string) list \<Rightarrow> bool" where
  "once now issued s \<longleftrightarrow>
     (case s of (r, taken) \<Rightarrow>
        distinct (map fst taken) \<and> set taken \<subseteq> set issued \<and>
        (\<forall>t tok v. now \<le> t \<longrightarrow> stored t tok r = Some v \<longrightarrow>
           (tok, v) \<in> set issued \<and> tok \<notin> fst ` set taken))"

lemma once_later: "once now issued s \<Longrightarrow> now \<le> later \<Longrightarrow> once later issued s"
  by (cases s) (simp add: once_def, meson order_trans)

lemma once_issue:
  assumes "once now issued (r, taken)" and "tok \<notin> fst ` set issued"
  shows "once now (issued @ [(tok, token_value aid uid)]) (snd (issue t tok aid uid r), taken)"
proof -
  have fresh: "tok \<notin> fst ` set taken" using assms by (auto simp: once_def)
  have "(tok', v) \<in> set (issued @ [(tok, token_value aid uid)]) \<and> tok' \<notin> fst ` set taken"
    if "now \<le> t'" "stored t' tok' (snd (issue t tok aid uid r)) = Some v" for t' tok' v
  proof (cases "tok' = tok")
    case True
    with that issue_any [of t' tok t aid uid r]
    have "v = token_value aid uid \<or> stored t' tok r = Some v" by auto
    with True that(1) fresh assms(1) show ?thesis by (auto simp: once_def)
  next
    case False
    with that issue_other [OF False, of t' t aid uid r] assms(1) show ?thesis
      by (auto simp: once_def)
  qed
  with assms(1) show ?thesis unfolding once_def by (simp, blast)
qed

lemma once_take:
  assumes "once now issued (r, taken)" and "now \<le> t"
  shows "once t issued (token_step issue take_token (Take t tok) (r, taken))"
proof (cases "take_token t tok r")
  case (Pair res r')
  have later: "once t issued (r, taken)" using assms by (rule once_later)
  have kept: "t \<le> t' \<Longrightarrow> stored t' tok' r' = Some v \<Longrightarrow> stored t' tok' r = Some v" for t' tok' v
    using take_any [of t t' tok' tok r] Pair by auto
  show ?thesis
  proof (cases "\<exists>v. res = Inr (Some v)")
    case True
    then obtain v where res: "res = Inr (Some v)" ..
    with Pair have taken: "take_token t tok r = (Inr (Some v), r')" by simp
    have v: "stored t tok r = Some v" using take_ok [OF taken, of t] by simp
    have gone: "stored t' tok r' = None" if "t \<le> t'" for t' using take_ok [OF taken that] by simp
    have "(tok, v) \<in> set issued" "tok \<notin> fst ` set taken"
      using assms v by (auto simp: once_def)
    moreover have "(tok', x) \<in> set issued \<and> tok' \<notin> insert tok (fst ` set taken)"
      if "t \<le> t'" "stored t' tok' r' = Some x" for t' tok' x
    proof -
      have "tok' \<noteq> tok" using that gone [OF that(1)] by auto
      with later kept [OF that] that(1) show ?thesis unfolding once_def by simp
    qed
    ultimately show ?thesis using later Pair res unfolding once_def by simp blast
  next
    case False
    then have "token_step issue take_token (Take t tok) (r, taken) = (r', taken)"
      using Pair by (auto split: sum.splits option.splits)
    with later kept show ?thesis unfolding once_def by simp blast
  qed
qed

lemma once_run:
  assumes "once now [] (r, [])" and "sorted (map event_time evs)" and "\<forall>ev\<in>set evs. now \<le> event_time ev"
    and "distinct (map fst (issued_tokens evs))"
  shows "\<exists>later. (\<forall>ev\<in>set evs. event_time ev \<le> later) \<and> (evs \<noteq> [] \<longrightarrow> later \<in> event_time ` set evs) \<and>
    once later (issued_tokens evs) (fold (token_step issue take_token) evs (r, []))"
  using assms(2-)
proof (induction evs rule: rev_induct)
  case Nil
  with assms(1) show ?case by auto
next
  case (snoc ev evs)
  obtain r1 taken1 where run: "fold (token_step issue take_token) evs (r, []) = (r1, taken1)"
    by (rule prod.exhaust)
  from snoc.prems have prems: "sorted (map event_time evs)" "\<forall>ev\<in>set evs. now \<le> event_time ev"
    "distinct (map fst (issued_tokens evs))" "\<forall>e\<in>set evs. event_time e \<le> event_time ev"
    "now \<le> event_time ev" by (auto simp: sorted_append)
  from snoc.IH [OF prems(1-3)] run obtain later where
    l: "evs \<noteq> [] \<longrightarrow> later \<in> event_time ` set evs" "once later (issued_tokens evs) (r1, taken1)" by auto
  have "once (event_time ev) (issued_tokens evs) (r1, taken1)"
  proof (cases "evs = []")
    case True
    with run assms(1) prems(5) show ?thesis by (auto intro: once_later)
  next
    case False
    with l prems(4) show ?thesis by (auto intro: once_later)
  qed
  then have "once (event_time ev) (issued_tokens (evs @ [ev]))
      (token_step issue take_token ev (r1, taken1))"
    using snoc.prems(3) once_issue once_take [of "event_time ev"] by (cases ev) auto
  with run prems(4) show ?case by (intro exI [of _ "event_time ev"]) auto
qed

lemma taken_once:
  assumes "\<forall>t tok. stored t tok r = None"
    and "sorted (map event_time evs)" and "distinct (map fst (issued_tokens evs))"
    and "fold (token_step issue take_token) evs (r, []) = (r', taken)"
  shows "distinct (map fst taken) \<and> set taken \<subseteq> set (issued_tokens evs)"
proof -
  have "once 0 [] (r, [])" using assms(1) by (simp add: once_def)
  from once_run [OF this assms(2) _ assms(3)] assms(4) show ?thesis by (auto simp: once_def)
qed

text \<open>Events about other tokens leave a token alone; so it is there until its time is over.\<close>

lemma stored_others:
  assumes "\<forall>ev\<in>set evs. event_token ev \<noteq> tok"
  shows "stored t tok (fst (fold (token_step issue take_token) evs s)) = stored t tok (fst s)"
  using assms
proof (induction evs arbitrary: s)
  case (Cons ev evs)
  obtain r taken where s: "s = (r, taken)" by (rule prod.exhaust)
  have "stored t tok (fst (token_step issue take_token ev s)) = stored t tok r"
    using Cons.prems issue_other [of tok] take_other [of tok]
    by (cases ev) (auto simp: s split: prod.splits sum.splits option.splits, (metis snd_conv)+)
  with Cons show ?case by (simp add: s)
qed simp

lemma taken_in_time:
  assumes "issue t tok aid uid r = (Inr (Some tok'), r1)"
    and "\<forall>ev\<in>set evs. event_token ev \<noteq> tok" and "fold (token_step issue take_token) evs (r1, taken) = (r2, taken')"
    and "t \<le> t'" and "take_token t' tok' r2 = (Inr v, r3)"
  shows "v = (if t' < t + ttl then Some (token_value aid uid) else None)"
proof -
  from issue_ok [OF assms(1,4)] have "tok' = tok"
    and "stored t' tok r1 = (if t' < t + ttl then Some (token_value aid uid) else None)" by auto
  with stored_others [OF assms(2), of t' "(r1, taken)"] assms(3) take_ok [OF assms(5), of t']
  show ?thesis by simp
qed

end

definition stored_token :: "'r redis \<Rightarrow> string \<Rightarrow> instant \<Rightarrow> string \<Rightarrow> 'r \<Rightarrow> string option" where
  "stored_token rd auth_token_prefix t token r = rd_get rd t (auth_token_prefix @ token) r"

lemmas token_defs = issue_auth_token_def take_auth_token_def get_del_def stored_token_def

text \<open>Over any Redis that keeps its contract, the two operations are a token service.\<close>

lemma token_service_redis:
  assumes "redis_laws rd"
  shows "token_service (issue_auth_token rd pfx ttl) (take_auth_token rd pfx) (stored_token rd pfx)
    (from_secs (unat ttl))"
proof
  fix t tok aid uid r tok' r' t'
  assume "issue_auth_token rd pfx ttl t tok aid uid r = (Inr (Some tok'), r')" "t \<le> t'"
  then show "tok' = tok \<and> stored_token rd pfx t' tok r' =
      (if t' < t + from_secs (unat ttl) then Some (token_value aid uid) else None)"
    using redis_lawsD(1) [OF assms]
    by (auto simp: token_defs Let_def split: prod.splits sum.splits if_splits)
next
  fix t' tok t aid uid r
  show "stored_token rd pfx t' tok (snd (issue_auth_token rd pfx ttl t tok aid uid r)) \<in>
      {None, Some (token_value aid uid), stored_token rd pfx t' tok r}"
    using redis_lawsD(6) [OF assms, of t' "pfx @ tok" t "token_value aid uid" ttl r]
    by (auto simp: token_defs Let_def split: prod.splits sum.splits)
next
  fix t t' :: instant and tok :: string and aid uid r
  assume "t + from_secs (unat ttl) \<le> t'"
  then show "stored_token rd pfx t' tok (snd (issue_auth_token rd pfx ttl t tok aid uid r)) \<in>
      {None, stored_token rd pfx t' tok r}"
    using redis_lawsD(8) [OF assms, of t ttl t' "pfx @ tok" "token_value aid uid" r]
    by (auto simp: token_defs Let_def split: prod.splits sum.splits)
next
  fix tok' tok :: string and t' t aid uid r
  assume "tok' \<noteq> tok"
  then show "stored_token rd pfx t' tok' (snd (issue_auth_token rd pfx ttl t tok aid uid r)) =
      stored_token rd pfx t' tok' r"
    using redis_lawsD(2) [OF assms, of "pfx @ tok'" "pfx @ tok" t' t "token_value aid uid" ttl r]
    by (auto simp: token_defs Let_def split: prod.splits sum.splits)
next
  fix t tok r v r' t'
  assume "take_auth_token rd pfx t tok r = (Inr v, r')" "t \<le> t'"
  then show "v = stored_token rd pfx t tok r \<and> stored_token rd pfx t' tok r' = None"
    using redis_lawsD(3,5) [OF assms]
    by (auto simp: token_defs Let_def split: prod.splits option.splits)
next
  fix t t' :: instant and tok' tok :: string and r
  assume "t \<le> t'"
  then have "rd_get rd t' (pfx @ tok') (rd_del rd t (pfx @ tok) r) \<in> {None, rd_get rd t' (pfx @ tok') r}"
    using redis_lawsD(3,4) [OF assms] by (cases "tok' = tok") auto
  then show "stored_token rd pfx t' tok' (snd (take_auth_token rd pfx t tok r)) \<in>
      {None, stored_token rd pfx t' tok' r}"
    using redis_lawsD(7) [OF assms, of t "pfx @ tok" r _ _ t' "pfx @ tok'"]
    by (auto simp: token_defs Let_def split: option.splits if_splits)
next
  fix t t' :: instant and tok tok' :: string and r
  assume "tok' \<noteq> tok"
  then show "stored_token rd pfx t' tok' (snd (take_auth_token rd pfx t tok r)) =
      stored_token rd pfx t' tok' r"
    using redis_lawsD(4) [OF assms, of "pfx @ tok'" "pfx @ tok"]
      redis_lawsD(7) [OF assms, of t "pfx @ tok" r _ _ t' "pfx @ tok'"]
    by (auto simp: token_defs Let_def split: prod.splits option.splits)
qed

interpretation map_tokens: token_service "issue_auth_token map_redis pfx ttl"
  "take_auth_token map_redis pfx" "stored_token map_redis pfx" "from_secs (unat ttl)"
  by (rule token_service_redis) simp

text \<open>
  C14. A token is good once. However LoginServer's and GameServer's requests interleave and whichever
  of them fail: no token is taken twice, and a token that is taken yields the account and user it
  was issued for.
\<close>

theorem tokens_taken_once:
  assumes "redis_laws rd" and "\<forall>t tok. stored_token rd pfx t tok r = None"
    and "sorted (map event_time evs)" and "distinct (map fst (issued_tokens evs))"
    and "fold (token_step (issue_auth_token rd pfx ttl) (take_auth_token rd pfx)) evs (r, []) = (r', taken)"
  shows "distinct (map fst taken) \<and> set taken \<subseteq> set (issued_tokens evs)"
  by (rule token_service.taken_once [OF token_service_redis [OF assms(1)] assms(2-)])

theorem tokens_taken_once_witness:
  "distinct (map fst [(''x'', token_value 7 ''u'')]) \<and>
    set [(''x'', token_value 7 ''u'')] \<subseteq> set (issued_tokens
      [Issue 1 ''x'' 7 ''u'', Take 2 ''y'', Take 3 ''x'', Take 4 ''x''])"
proof (rule tokens_taken_once [OF redis_laws_map])
  show "fold (token_step (issue_auth_token map_redis ''p:'' 30) (take_auth_token map_redis ''p:''))
      [Issue 1 ''x'' 7 ''u'', Take 2 ''y'', Take 3 ''x'', Take 4 ''x''] (Map.empty, []) =
    (Map.empty, [(''x'', token_value 7 ''u'')])"
    by (simp add: token_defs map_redis_def from_secs_def fun_eq_iff)
qed (simp_all add: stored_token_def map_redis_def)

text \<open>
  A token that was issued is good while its time to live lasts: if neither server uses it in
  between, taking it gives the account and the user of the login; once the time is over it gives
  nothing.
\<close>

theorem issued_token_lasts:
  assumes "redis_laws rd"
    and "issue_auth_token rd pfx ttl t tok aid uid r = (Inr (Some tok'), r1)"
    and "\<forall>ev\<in>set evs. event_token ev \<noteq> tok"
    and "fold (token_step (issue_auth_token rd pfx ttl) (take_auth_token rd pfx)) evs (r1, taken) = (r2, taken')"
    and "t \<le> t'" and "take_auth_token rd pfx t' tok' r2 = (Inr v, r3)"
  shows "Option.bind v parse_token_value =
    (if t' < t + from_secs (unat ttl) then Some \<lparr>account_id = aid, user_id = uid\<rparr> else None)"
  using token_service.taken_in_time [OF token_service_redis [OF assms(1)] assms(2-)] by simp

theorem issued_token_lasts_witness:
  "Option.bind (Some (token_value 7 ''u'')) parse_token_value = Some \<lparr>account_id = 7, user_id = ''u''\<rparr>"
proof -
  let ?r = "[''p:x'' \<mapsto> (token_value 7 ''u'', 1 + from_secs 30)]"
  have "issue_auth_token map_redis ''p:'' 30 1 ''x'' 7 ''u'' Map.empty = (Inr (Some ''x''), ?r)"
    by (simp add: token_defs map_redis_def)
  moreover have "fold (token_step (issue_auth_token map_redis ''p:'' 30) (take_auth_token map_redis ''p:''))
      [Take 2 ''y''] (?r, []) = (?r, [])"
    by (simp add: token_defs map_redis_def)
  moreover have "take_auth_token map_redis ''p:'' 3 ''x'' ?r =
      (Inr (Some (token_value 7 ''u'')), Map.empty)"
    by (simp add: token_defs map_redis_def from_secs_def)
  ultimately have "Option.bind (Some (token_value 7 ''u'')) parse_token_value =
      (if 3 < 1 + from_secs (unat (30 :: u64)) then Some \<lparr>account_id = 7, user_id = ''u''\<rparr> else None)"
    by (intro issued_token_lasts [OF redis_laws_map, where evs = "[Take 2 ''y'']" and tok = "''x''"]) simp_all
  then show ?thesis by (simp add: from_secs_def)
qed

end
