(* ===== verification/Game_Session.thy ===== *)
theory Game_Session
  imports Session_Core Auth_Token
begin

text \<open>
  \<open>crates/game_server/src/session.rs\<close>: a session of GameServer, its handlers, its event loop and the
  work it spawns against the \<open>Backend\<close> trait of \<open>crates/game_server/src/backend.rs\<close>.
\<close>

section \<open>State and messages\<close>

definition GAME_DB_ERROR_CODE :: i32 where
  "GAME_DB_ERROR_CODE = 3"

datatype game_connect_error_code = GC_Success | GC_InvalidToken

fun game_connect_code :: "game_connect_error_code \<Rightarrow> i32" where
  "game_connect_code GC_Success = 0"
| "game_connect_code GC_InvalidToken = 1"

datatype game_inner_message = TokenTaken "string option" | ScoreSaved | GameDbError

text \<open>The work of the two tasks a session spawns: what the \<open>async\<close> blocks capture.\<close>

datatype game_work = TakeAuthToken string | SaveScore u64 i32 i32 i32

text \<open>\<open>inner_tx\<close> is the sending end of the channel whose messages arrive as \<open>p_inner\<close> of a poll.\<close>

record 'c game_session =
  gs_session_id :: u64
  gs_outbox :: "'c outbox"
  gs_account :: "account option"
  gs_last_keep_alive :: instant
  gs_world_id :: u64
  gs_position :: "f32 \<times> f32"

type_synonym ('c, 'k) game_state = "'c game_session \<times> ('k, game_work) world"

definition game_session_new :: "u64 \<Rightarrow> 'c outbox \<Rightarrow> instant \<Rightarrow> 'c game_session" where
  "game_session_new i ob now =
     \<lparr>gs_session_id = i, gs_outbox = ob, gs_account = None, gs_last_keep_alive = now,
      gs_world_id = 0, gs_position = (0, 0)\<rparr>"

section \<open>Handlers\<close>

definition game_send_flow :: "('c, message_wrapper) mpsc \<Rightarrow> payload \<Rightarrow>
    ('c, 'k) game_state \<Rightarrow> control_flow \<times> ('c, 'k) game_state" where
  "game_send_flow mp payload st =
     (case st of (s, w) \<Rightarrow>
        case send_flow mp payload (gs_outbox s) of
          (flow, ob) \<Rightarrow> (flow, s\<lparr>gs_outbox := ob\<rparr>, w))"

definition send_game_connect :: "('c, message_wrapper) mpsc \<Rightarrow> game_connect_error_code \<Rightarrow>
    ('c, 'k) game_state \<Rightarrow> control_flow \<times> ('c, 'k) game_state" where
  "send_game_connect mp code st =
     game_send_flow mp (GameConnectResponse (code = GC_Success) (game_connect_code code)) st"

definition on_game_connect_request :: "('c, message_wrapper) mpsc \<Rightarrow> string \<Rightarrow>
    ('c, 'k) game_state \<Rightarrow> control_flow \<times> ('c, 'k) game_state" where
  "on_game_connect_request mp token st =
     (case st of (s, w) \<Rightarrow>
        if gs_account s \<noteq> None \<or> token = [] then send_game_connect mp GC_InvalidToken st
        else (Continue, s, spawn (TakeAuthToken token) w))"

definition on_game_over_report :: "i32 \<Rightarrow> i32 \<Rightarrow> i32 \<Rightarrow>
    ('c, 'k) game_state \<Rightarrow> control_flow \<times> ('c, 'k) game_state" where
  "on_game_over_report score kill_count survive_seconds st =
     (case st of (s, w) \<Rightarrow>
        case map_option account_id (gs_account s) of
          None \<Rightarrow> (Continue, s, w)
        | Some aid \<Rightarrow> (Continue, s, spawn (SaveScore aid score kill_count survive_seconds) w))"

definition game_on_remote :: "('c, message_wrapper) mpsc \<Rightarrow> instant \<Rightarrow> message_wrapper \<Rightarrow>
    ('c, 'k) game_state \<Rightarrow> control_flow \<times> ('c, 'k) game_state" where
  "game_on_remote mp now message st =
     (case st of (s, w) \<Rightarrow>
      let is_authenticated = (gs_account s \<noteq> None) in
      case wrapped message of
        Some (GameConnectRequest token) \<Rightarrow> on_game_connect_request mp token (s, w)
      | Some KeepAliveRequest \<Rightarrow> (Continue, s\<lparr>gs_last_keep_alive := now\<rparr>, w)
      | other \<Rightarrow>
          if \<not> is_authenticated then (Break, s, w)
          else (case other of
              Some (MoveRequest x y) \<Rightarrow>
                game_send_flow mp (MoveResponse True x y) (s\<lparr>gs_position := (x, y)\<rparr>, w)
            | Some (EnterWorldRequest world_id) \<Rightarrow>
                game_send_flow mp (EnterWorldResponse True) (s\<lparr>gs_world_id := world_id\<rparr>, w)
            | Some (GameOverReport score kill_count survive_seconds) \<Rightarrow>
                on_game_over_report score kill_count survive_seconds (s, w)
            | _ \<Rightarrow> (Continue, s, w)))"

definition game_on_authenticated :: "('c, message_wrapper) mpsc \<Rightarrow> instant \<Rightarrow> account \<Rightarrow>
    ('c, 'k) game_state \<Rightarrow> control_flow \<times> ('c, 'k) game_state" where
  "game_on_authenticated mp now a st =
     (case st of (s, w) \<Rightarrow>
        send_game_connect mp GC_Success
          (s\<lparr>gs_account := Some a, gs_last_keep_alive := now\<rparr>,
           world_authenticate (gs_session_id s) (user_id a) w))"

definition game_on_inner :: "('c, message_wrapper) mpsc \<Rightarrow> instant \<Rightarrow> game_inner_message \<Rightarrow>
    ('c, 'k) game_state \<Rightarrow> control_flow \<times> ('c, 'k) game_state" where
  "game_on_inner mp now message st =
     (case message of
        TokenTaken v \<Rightarrow>
          (case Option.bind v parse_token_value of
             Some a \<Rightarrow> game_on_authenticated mp now a st
           | None \<Rightarrow> send_game_connect mp GC_InvalidToken st)
      | ScoreSaved \<Rightarrow> game_send_flow mp (GameOverResponse True) st
      | GameDbError \<Rightarrow> game_send_flow mp (ErrorResponse GAME_DB_ERROR_CODE) st)"

section \<open>The event loop\<close>

definition game_actor :: "('c, message_wrapper) mpsc \<Rightarrow> duration \<Rightarrow>
    ('c game_session, 'k, game_inner_message, game_work) actor" where
  "game_actor mp keep_alive_timeout =
     \<lparr>on_remote = game_on_remote mp,
      on_inner = game_on_inner mp,
      keep_alive_deadline =
        (\<lambda>s. map_option (\<lambda>_. gs_last_keep_alive s + keep_alive_timeout) (gs_account s)),
      writer_takes = (\<lambda>n s. s\<lparr>gs_outbox := receive_from mp n (gs_outbox s)\<rparr>)\<rparr>"

definition game_event_loop :: "('c, message_wrapper) mpsc \<Rightarrow> duration \<Rightarrow> 'k \<Rightarrow>
    ('k, game_inner_message) poll list \<Rightarrow> ('c, 'k) game_state \<Rightarrow>
    control_flow \<times> ('c, 'k) game_state" where
  "game_event_loop mp keep_alive_timeout kick ps st =
     (case st of (s, w) \<Rightarrow>
        case outbox_send mp (ConnectedResponse 0) (gs_outbox s) of
          (Inl _, ob) \<Rightarrow> (Break, s\<lparr>gs_outbox := ob\<rparr>, w)
        | (Inr _, ob) \<Rightarrow>
            event_loop (game_actor mp keep_alive_timeout) kick ps (s\<lparr>gs_outbox := ob\<rparr>, w))"

section \<open>The spawned tasks\<close>

datatype game_backend_error = GameBackendError

text \<open>The trait \<open>Backend\<close> of GameServer, over the state \<open>'b\<close> of the stores.\<close>

record 'b game_backend =
  gb_take_auth_token :: "string \<Rightarrow> 'b \<Rightarrow> (game_backend_error + string option) \<times> 'b"
  gb_save_score :: "u64 \<Rightarrow> i32 \<Rightarrow> i32 \<Rightarrow> i32 \<Rightarrow> 'b \<Rightarrow> (game_backend_error + unit) \<times> 'b"
  gb_touch_last_login :: "u64 \<Rightarrow> 'b \<Rightarrow> (game_backend_error + unit) \<times> 'b"

text \<open>The two \<open>async\<close> blocks: the message a task sends to its session's inner channel.\<close>

fun game_perform :: "'b game_backend \<Rightarrow> game_work \<Rightarrow> 'b \<Rightarrow> game_inner_message \<times> 'b" where
  "game_perform be (TakeAuthToken token) b =
     (case gb_take_auth_token be token b of
        (Inr v, b') \<Rightarrow> (TokenTaken v, b')
      | (Inl e, b') \<Rightarrow> (GameDbError, b'))"
| "game_perform be (SaveScore aid score kill_count survive_seconds) b =
     (case gb_save_score be aid score kill_count survive_seconds b of
        (Inr _, b') \<Rightarrow> (ScoreSaved, b')
      | (Inl e, b') \<Rightarrow> (GameDbError, b'))"

section \<open>The life of a session\<close>

text \<open>
  \<open>run\<close> before and after the event loop. At the start the session gets its id, is registered with its
  kick token, and gets its outbox over a new channel \<open>tx\<close>. At the end it is removed from the registry;
  the result says for which account \<open>record_logout\<close> runs.
\<close>

definition game_run_start :: "u64 \<Rightarrow> 'k \<Rightarrow> 'c \<Rightarrow> instant \<Rightarrow> ('k, game_work) world \<Rightarrow>
    u64 \<times> ('c, 'k) game_state" where
  "game_run_start NEXT_ID kick tx now w =
     (case generate NEXT_ID of
        (i, NEXT_ID') \<Rightarrow>
          (NEXT_ID', game_session_new i \<lparr>ob_session_id = i, ob_tx = tx\<rparr> now,
           w\<lparr>registry := register i kick (registry w)\<rparr>))"

definition game_run_end :: "('c, 'k) game_state \<Rightarrow> u64 option \<times> ('k, game_work) world" where
  "game_run_end st =
     (case st of (s, w) \<Rightarrow>
        (map_option account_id (gs_account s),
         w\<lparr>registry := remove_session (gs_session_id s) (registry w)\<rparr>))"

section \<open>The session keeps the contract\<close>

definition game_allowed :: "payload option \<Rightarrow> bool" where
  "game_allowed m =
     (case m of Some (GameConnectRequest _) \<Rightarrow> True | Some KeepAliveRequest \<Rightarrow> True | _ \<Rightarrow> False)"

definition game_identity :: "game_inner_message \<Rightarrow> string option" where
  "game_identity i =
     (case i of TokenTaken v \<Rightarrow> map_option user_id (Option.bind v parse_token_value) | _ \<Rightarrow> None)"

definition game_authed :: "'c game_session \<Rightarrow> bool" where
  "game_authed s \<longleftrightarrow> gs_account s \<noteq> None"

lemma game_send_flow_frame:
  "game_send_flow mp m (s, w) = (f, s', w') \<Longrightarrow>
    w' = w \<and> gs_session_id s' = gs_session_id s \<and> gs_account s' = gs_account s \<and>
    gs_last_keep_alive s' = gs_last_keep_alive s \<and> gs_world_id s' = gs_world_id s \<and>
    gs_position s' = gs_position s \<and> (f, gs_outbox s') = send_flow mp m (gs_outbox s)"
  by (auto simp: game_send_flow_def split: prod.splits)

lemmas game_handler_defs =
  game_on_remote_def on_game_connect_request_def on_game_over_report_def send_game_connect_def
  game_on_inner_def game_on_authenticated_def

lemma game_gate:
  "gs_account s = None \<Longrightarrow> \<not> game_allowed (wrapped m) \<Longrightarrow> game_on_remote mp now m (s, w) = (Break, s, w)"
  by (auto simp: game_on_remote_def game_allowed_def split: option.splits payload.splits)

lemma game_on_remote_fields:
  assumes "game_on_remote mp now m (s, w) = (f, s', w')"
  shows "gs_account s' = gs_account s \<and> gs_session_id s' = gs_session_id s \<and>
    gs_last_keep_alive s' = (if wrapped m = Some KeepAliveRequest then now else gs_last_keep_alive s) \<and>
    registry w' = registry w \<and> cancelled w' = cancelled w"
  using assms
  by (auto simp: game_on_remote_def on_game_connect_request_def on_game_over_report_def
      send_game_connect_def Let_def dest!: game_send_flow_frame
      split: option.splits payload.splits if_splits)

lemma game_on_inner_fields:
  assumes "game_on_inner mp now i (s, w) = (f, s', w')"
  shows "game_authed s' = (game_authed s \<or> game_identity i \<noteq> None) \<and>
    gs_session_id s' = gs_session_id s \<and>
    gs_last_keep_alive s' = (if game_identity i \<noteq> None then now else gs_last_keep_alive s) \<and>
    (registry w', cancelled w') =
      (case game_identity i of
         None \<Rightarrow> (registry w, cancelled w)
       | Some u \<Rightarrow> registry_step (Authenticate (gs_session_id s) u) (registry w, cancelled w))"
  using assms
  by (auto simp: game_on_inner_def game_on_authenticated_def send_game_connect_def
      game_identity_def game_authed_def simp del: not_None_eq dest!: game_send_flow_frame
      split: game_inner_message.splits option.splits)

interpretation game: session_actor "game_actor mp keep_alive_timeout" gs_session_id game_authed
  gs_last_keep_alive keep_alive_timeout game_allowed game_identity
  by unfold_locales
    (auto simp: game_actor_def game_authed_def game_gate dest: game_on_remote_fields
      game_on_inner_fields [unfolded game_authed_def])

lemma game_step_simps:
  "on_remote (game_actor mp t) = game_on_remote mp"
  "on_inner (game_actor mp t) = game_on_inner mp"
  "writer_takes (game_actor mp t) n s = s\<lparr>gs_outbox := receive_from mp n (gs_outbox s)\<rparr>"
  by (simp_all add: game_actor_def)

interpretation game: identified_actor "game_actor mp keep_alive_timeout" gs_session_id game_authed
  gs_last_keep_alive keep_alive_timeout game_allowed game_identity
  "\<lambda>s. map_option user_id (gs_account s)"
proof (unfold_locales, goal_cases)
  case (3 now m s w f s' w')
  then show ?case by (auto simp: game_step_simps dest: game_on_remote_fields)
next
  case (4 now i s w f s' w')
  then show ?case
    by (auto simp: game_step_simps game_on_inner_def game_on_authenticated_def send_game_connect_def
        game_identity_def dest!: game_send_flow_frame
        split: game_inner_message.splits option.splits)
qed (simp_all add: game_authed_def game_step_simps)

section \<open>An authenticated session\<close>

text \<open>
  What an authenticated session does with a message, as a specification: the reply it sends, the
  score it saves, and what it notes.
\<close>

fun game_reply :: "payload option \<Rightarrow> payload list" where
  "game_reply (Some (MoveRequest x y)) = [MoveResponse True x y]"
| "game_reply (Some (EnterWorldRequest _)) = [EnterWorldResponse True]"
| "game_reply (Some (GameConnectRequest _)) = [GameConnectResponse False 1]"
| "game_reply _ = []"

fun game_saves :: "u64 \<Rightarrow> payload option \<Rightarrow> game_work list" where
  "game_saves aid (Some (GameOverReport score kills secs)) = [SaveScore aid score kills secs]"
| "game_saves aid _ = []"

fun noted_position :: "payload option \<Rightarrow> f32 \<times> f32 \<Rightarrow> f32 \<times> f32" where
  "noted_position (Some (MoveRequest x y)) _ = (x, y)"
| "noted_position _ pos = pos"

fun noted_world :: "payload option \<Rightarrow> u64 \<Rightarrow> u64" where
  "noted_world (Some (EnterWorldRequest i)) _ = i"
| "noted_world _ i = i"

abbreviation gs_queued where
  "gs_queued mp s \<equiv> queued mp (gs_outbox s)"

lemma game_send_flow_room:
  assumes "mpsc_laws MAX_SEND_QUEUE_SIZE mp" and "has_room mp (gs_outbox s)"
  shows "\<exists>ob. game_send_flow mp m (s, w) = (Continue, s\<lparr>gs_outbox := ob\<rparr>, w) \<and>
    queued mp ob = gs_queued mp s @ [outgoing m] \<and> mp_closed mp (ob_tx ob) = mp_closed mp (ob_tx (gs_outbox s))"
proof -
  obtain f ob where f: "send_flow mp m (gs_outbox s) = (f, ob)" by (rule prod.exhaust)
  with send_flow_spec [OF assms(1), of m "gs_outbox s"] assms(2) show ?thesis
    by (auto simp: game_send_flow_def)
qed

text \<open>How many messages the send queue may hold; none once the writer has stopped.\<close>

definition send_capacity :: "('c, message_wrapper) mpsc \<Rightarrow> 'c outbox \<Rightarrow> nat" where
  "send_capacity mp ob = (if mp_closed mp (ob_tx ob) then 0 else MAX_SEND_QUEUE_SIZE)"

lemma game_on_remote_authed:
  assumes laws: "mpsc_laws MAX_SEND_QUEUE_SIZE mp" and a: "gs_account s = Some a"
    and room: "game_reply (wrapped m) = [] \<or>
      length (gs_queued mp s) + length (game_reply (wrapped m)) \<le> send_capacity mp (gs_outbox s)"
  shows "\<exists>s' w'. game_on_remote mp now m (s, w) = (Continue, s', w') \<and> gs_account s' = Some a \<and>
    gs_queued mp s' = gs_queued mp s @ map outgoing (game_reply (wrapped m)) \<and>
    send_capacity mp (gs_outbox s') = send_capacity mp (gs_outbox s) \<and>
    gs_position s' = noted_position (wrapped m) (gs_position s) \<and>
    gs_world_id s' = noted_world (wrapped m) (gs_world_id s) \<and>
    w' = w\<lparr>spawned := spawned w @ game_saves (account_id a) (wrapped m)\<rparr>"
proof -
  have sends: "\<exists>ob. game_send_flow mp r (s1, w) = (Continue, s1\<lparr>gs_outbox := ob\<rparr>, w) \<and>
      queued mp ob = gs_queued mp s @ [outgoing r] \<and> send_capacity mp ob = send_capacity mp (gs_outbox s)"
    if "gs_outbox s1 = gs_outbox s" "game_reply (wrapped m) = [r]" for s1 r
    using game_send_flow_room [OF laws, of s1 r w] that room
    by (auto simp: has_room_def send_capacity_def split: if_splits)
  show ?thesis
  proof (cases "wrapped m")
    case None
    then show ?thesis using a by (simp add: game_on_remote_def)
  next
    case (Some pl)
    show ?thesis
      using a sends [of s] sends [of "s\<lparr>gs_position := noted_position (wrapped m) (gs_position s)\<rparr>"]
        sends [of "s\<lparr>gs_world_id := noted_world (wrapped m) (gs_world_id s)\<rparr>"]
      by (cases pl) (auto simp: Some game_handler_defs spawn_def)
  qed
qed

lemma game_send_flow_full:
  assumes "mpsc_laws MAX_SEND_QUEUE_SIZE mp" and "\<not> has_room mp (gs_outbox s)"
  shows "fst (game_send_flow mp m (s, w)) = Break"
  using send_flow_spec(1) [OF assms(1), of m "gs_outbox s"] assms(2)
  by (auto simp: game_send_flow_def split: prod.split)

lemma game_on_remote_full:
  assumes "mpsc_laws MAX_SEND_QUEUE_SIZE mp" and "gs_account s = Some a"
    and full: "\<not> (game_reply (wrapped m) = [] \<or>
      length (gs_queued mp s) + length (game_reply (wrapped m)) \<le> send_capacity mp (gs_outbox s))"
  shows "fst (game_on_remote mp now m (s, w)) = Break"
proof -
  have "fst (game_send_flow mp r (s1, w)) = Break"
    if "gs_outbox s1 = gs_outbox s" "game_reply (wrapped m) = [r]" for s1 r
    using that full by (intro game_send_flow_full [OF assms(1)]) (auto simp: has_room_def send_capacity_def)
  with assms(2) full show ?thesis
    by (cases "wrapped m" rule: game_reply.cases) (auto simp: game_handler_defs)
qed

text \<open>The message of a poll at which one arrived.\<close>

definition client_message :: "('k, 'i) poll \<Rightarrow> payload option" where
  "client_message p = (case p_frame p of Some (Message m) \<Rightarrow> wrapped m | _ \<Rightarrow> None)"

text \<open>
  The send queue of such a conversation, poll by poll: first the writer takes \<open>p_taken\<close> messages
  (\<open>taken_by_writer\<close> is what it takes over all polls), then the reply is queued, if it fits
  (\<open>replies_fit\<close>: it did at every poll).
\<close>

definition queue_after :: "('k, 'i) poll \<Rightarrow> message_wrapper list \<Rightarrow> message_wrapper list" where
  "queue_after p q = drop (p_taken p) q @ map outgoing (game_reply (client_message p))"

fun taken_by_writer :: "message_wrapper list \<Rightarrow> ('k, 'i) poll list \<Rightarrow> message_wrapper list" where
  "taken_by_writer q [] = []"
| "taken_by_writer q (p # ps) = take (p_taken p) q @ taken_by_writer (queue_after p q) ps"

fun replies_fit :: "nat \<Rightarrow> message_wrapper list \<Rightarrow> ('k, 'i) poll list \<Rightarrow> bool" where
  "replies_fit cap q [] \<longleftrightarrow> True"
| "replies_fit cap q (p # ps) \<longleftrightarrow>
     (game_reply (client_message p) = [] \<or> length (queue_after p q) \<le> cap) \<and>
     replies_fit cap (queue_after p q) ps"

lemma taken_and_queued:
  "taken_by_writer q ps @ fold queue_after ps q =
    q @ map outgoing (concat (map (game_reply \<circ> client_message) ps))"
proof (induction ps arbitrary: q)
  case (Cons p ps)
  from Cons.IH [of "queue_after p q"] show ?case by (simp add: queue_after_def)
qed simp

text \<open>What a stretch of such a conversation does to the session.\<close>

definition conversed :: "('c, message_wrapper) mpsc \<Rightarrow> account \<Rightarrow> ('k, game_inner_message) poll list \<Rightarrow>
    ('c, 'k) game_state \<Rightarrow> ('c, 'k) game_state \<Rightarrow> bool" where
  "conversed mp a ps st st' \<longleftrightarrow>
     gs_account (fst st') = Some a \<and>
     gs_queued mp (fst st') = fold queue_after ps (gs_queued mp (fst st)) \<and>
     send_capacity mp (gs_outbox (fst st')) = send_capacity mp (gs_outbox (fst st)) \<and>
     gs_position (fst st') = fold noted_position (map client_message ps) (gs_position (fst st)) \<and>
     gs_world_id (fst st') = fold noted_world (map client_message ps) (gs_world_id (fst st)) \<and>
     spawned (snd st') = spawned (snd st) @ concat (map (game_saves (account_id a) \<circ> client_message) ps)"

lemma conversed_trans:
  "conversed mp a ps st st1 \<Longrightarrow> conversed mp a qs st1 st2 \<Longrightarrow> conversed mp a (ps @ qs) st st2"
  by (simp add: conversed_def)

lemma game_step_message:
  assumes "kick \<notin> cancelled (others_run (p_others p) w)" and "p_frame p = Some (Message m)"
  shows "loop_step (game_actor mp t) kick p (s, w) =
    game_on_remote mp (p_now p) m
      (s\<lparr>gs_outbox := receive_from mp (p_taken p) (gs_outbox s)\<rparr>, others_run (p_others p) w)"
  using assms
  by (simp add: loop_step_def branch_of_def select_biased_def run_branch_def wake_def game_step_simps)

lemma game_step_conversed:
  assumes laws: "mpsc_laws MAX_SEND_QUEUE_SIZE mp" and "gs_account s = Some a"
    and m: "p_frame p = Some (Message m)" and "kick \<notin> cancelled (others_run (p_others p) w)"
  shows "if replies_fit (send_capacity mp (gs_outbox s)) (gs_queued mp s) [p]
    then \<exists>s' w'. loop_step (game_actor mp t) kick p (s, w) = (Continue, s', w') \<and>
      conversed mp a [p] (s, w) (s', w') \<and>
      (registry w', cancelled w') = fold registry_step (p_others p) (registry w, cancelled w)
    else fst (loop_step (game_actor mp t) kick p (s, w)) = Break"
proof -
  let ?s = "s\<lparr>gs_outbox := receive_from mp (p_taken p) (gs_outbox s)\<rparr>" and ?w = "others_run (p_others p) w"
  have cm: "client_message p = wrapped m" using m by (simp add: client_message_def)
  have queue: "gs_queued mp ?s = drop (p_taken p) (gs_queued mp s)"
    "send_capacity mp (gs_outbox ?s) = send_capacity mp (gs_outbox s)"
    and same: "send_capacity mp (receive_from mp (p_taken p) (gs_outbox s)) = send_capacity mp (gs_outbox s)"
    using receive_from_spec [OF laws] by (simp_all add: send_capacity_def)
  have a: "gs_account ?s = Some a" using assms(2) by simp
  have fit: "replies_fit (send_capacity mp (gs_outbox s)) (gs_queued mp s) [p] \<longleftrightarrow>
      game_reply (wrapped m) = [] \<or>
      length (gs_queued mp ?s) + length (game_reply (wrapped m)) \<le> send_capacity mp (gs_outbox ?s)"
    unfolding queue by (simp add: queue_after_def cm)
  show ?thesis
  proof (cases "replies_fit (send_capacity mp (gs_outbox s)) (gs_queued mp s) [p]")
    case True
    from game_on_remote_authed [OF laws a True [unfolded fit], of "p_now p" ?w]
    show ?thesis unfolding game_step_message [OF assms(4) m] using True
      by (auto simp: conversed_def cm queue_after_def same receive_from_spec(1) [OF laws]
          simp del: replies_fit.simps)
  next
    case False
    from game_on_remote_full [OF laws a False [unfolded fit], of "p_now p" ?w]
    show ?thesis unfolding game_step_message [OF assms(4) m] using False by simp
  qed
qed

lemma game_conversation_run:
  assumes "mpsc_laws MAX_SEND_QUEUE_SIZE mp" and "gs_account s = Some a"
    and "\<forall>p\<in>set ps. \<exists>m. p_frame p = Some (Message m)"
    and "kick \<notin> snd (fold registry_step (concat (map p_others ps)) (registry w, cancelled w))"
  shows "if replies_fit (send_capacity mp (gs_outbox s)) (gs_queued mp s) ps
    then \<exists>st'. event_loop (game_actor mp t) kick ps (s, w) = (Continue, st') \<and> conversed mp a ps (s, w) st'
    else fst (event_loop (game_actor mp t) kick ps (s, w)) = Break"
  using assms(2-)
proof (induction ps arbitrary: s w)
  case Nil
  then show ?case by (simp add: conversed_def)
next
  case (Cons p ps)
  let ?fit = "replies_fit (send_capacity mp (gs_outbox s)) (gs_queued mp s)"
  obtain m where m: "p_frame p = Some (Message m)" using Cons.prems(2) by auto
  have "kick \<notin> cancelled (others_run (p_others p) w)"
    using Cons.prems(3) registry_steps_cancelled_mono
      [of "fold registry_step (p_others p) (registry w, cancelled w)" "concat (map p_others ps)"]
    by auto
  note step = game_step_conversed [OF assms(1) Cons.prems(1) m this, of t]
  show ?case
  proof (cases "?fit [p]")
    case False
    with step have "fst (loop_step (game_actor mp t) kick p (s, w)) = Break" by argo
    moreover from False have "\<not> ?fit (p # ps)" by simp
    ultimately show ?thesis by (auto split: prod.split)
  next
    case True
    with step obtain s1 w1 where s1: "loop_step (game_actor mp t) kick p (s, w) = (Continue, s1, w1)"
      "conversed mp a [p] (s, w) (s1, w1)"
      "(registry w1, cancelled w1) = fold registry_step (p_others p) (registry w, cancelled w)"
      by (simp only: if_True) blast
    then have same: "gs_account s1 = Some a" "gs_queued mp s1 = queue_after p (gs_queued mp s)"
      "send_capacity mp (gs_outbox s1) = send_capacity mp (gs_outbox s)"
      by (simp_all add: conversed_def)
    have fit: "?fit (p # ps) \<longleftrightarrow> replies_fit (send_capacity mp (gs_outbox s1)) (gs_queued mp s1) ps"
      using True by (simp add: same)
    have "kick \<notin> snd (fold registry_step (concat (map p_others ps)) (registry w1, cancelled w1))"
      unfolding s1(3) using Cons.prems(3) by simp
    from Cons.IH [OF same(1) _ this] Cons.prems(2) s1(1,2)
      conversed_trans [of mp a "[p]" "(s, w)" "(s1, w1)" ps]
    show ?thesis unfolding fit by auto
  qed
qed

text \<open>
  C11. An authenticated session that is not kicked answers every message by its specification,
  in order and for as long as messages come and each reply finds room in the send queue when it is
  due: an accepted move is echoed to its sender, entering a world is confirmed, a second connect
  is refused, a score report starts one save under the session's account with the reported numbers,
  everything else is ignored; position and world are those last sent. No answer is lost: what
  the writer took and what is still queued is, in order, what was queued before and then all the
  answers. And if some reply finds no room, because 200 messages are queued and the writer did not
  take any, or because the writer has stopped, the session ends.
\<close>

theorem game_conversation:
  assumes "mpsc_laws MAX_SEND_QUEUE_SIZE mp" and "gs_account s = Some a"
    and "\<forall>p\<in>set ps. \<exists>m. p_frame p = Some (Message m)"
    and "kick \<notin> snd (fold registry_step (concat (map p_others ps)) (registry w, cancelled w))"
  shows "if replies_fit (send_capacity mp (gs_outbox s)) (gs_queued mp s) ps
    then \<exists>s' w'. event_loop (game_actor mp t) kick ps (s, w) = (Continue, s', w') \<and>
      gs_account s' = Some a \<and>
      taken_by_writer (gs_queued mp s) ps @ gs_queued mp s' =
        gs_queued mp s @ map outgoing (concat (map (game_reply \<circ> client_message) ps)) \<and>
      gs_position s' = fold noted_position (map client_message ps) (gs_position s) \<and>
      gs_world_id s' = fold noted_world (map client_message ps) (gs_world_id s) \<and>
      spawned w' = spawned w @ concat (map (game_saves (account_id a) \<circ> client_message) ps)
    else fst (event_loop (game_actor mp t) kick ps (s, w)) = Break"
  using game_conversation_run [OF assms, of t] taken_and_queued [of "gs_queued mp s" ps]
  by (auto simp: conversed_def)

text \<open>
  Two moves and a report, where the writer takes the first answer; and a move to a session whose
  writer has stopped.
\<close>

theorem game_conversation_witness:
  "(\<exists>s' w'. event_loop (game_actor sample_mpsc KEEP_ALIVE_TIMEOUT) (9 :: nat)
      [frame_at 1 (MoveRequest 5 6), frame_at 2 (GameOverReport 70 8 90) \<lparr>p_taken := 1\<rparr>,
       frame_at 3 (MoveRequest 1 2)]
      (game_session_new 4 (sample_outbox 4) 0 \<lparr>gs_account := Some \<lparr>account_id = 11, user_id = ''u''\<rparr>\<rparr>,
       world_new registry_default) = (Continue, s', w') \<and>
    gs_queued sample_mpsc s' = [outgoing (MoveResponse True 1 2)] \<and>
    gs_position s' = (1, 2) \<and> spawned w' = [SaveScore 11 70 8 90]) \<and>
   fst (event_loop (game_actor sample_mpsc KEEP_ALIVE_TIMEOUT) (9 :: nat) [frame_at 1 (MoveRequest 5 6)]
      (game_session_new 4 (sample_outbox 4) 0
         \<lparr>gs_account := Some \<lparr>account_id = 11, user_id = ''u''\<rparr>,
          gs_outbox := \<lparr>ob_session_id = 4, ob_tx = ([], True)\<rparr>\<rparr>,
       world_new registry_default)) = Break"
proof -
  let ?a = "\<lparr>account_id = 11, user_id = ''u''\<rparr> :: account"
  let ?s = "game_session_new 4 (sample_outbox 4) 0 \<lparr>gs_account := Some ?a\<rparr>"
  let ?c = "?s\<lparr>gs_outbox := \<lparr>ob_session_id = 4, ob_tx = ([], True)\<rparr>\<rparr>"
  let ?w = "world_new registry_default :: (nat, game_work) world"
  let ?ps = "[frame_at 1 (MoveRequest 5 6), frame_at 2 (GameOverReport 70 8 90) \<lparr>p_taken := 1\<rparr>,
    frame_at 3 (MoveRequest 1 2)] :: (nat, game_inner_message) poll list"
  let ?one = "[frame_at 1 (MoveRequest 5 6)] :: (nat, game_inner_message) poll list"
  have q: "gs_queued sample_mpsc ?s = []" "gs_queued sample_mpsc ?c = []"
    "send_capacity sample_mpsc (gs_outbox ?s) = MAX_SEND_QUEUE_SIZE"
    "send_capacity sample_mpsc (gs_outbox ?c) = 0"
    by (simp_all add: game_session_new_def sample_defs send_capacity_def)
  have cm: "client_message (frame_at n m :: (nat, game_inner_message) poll) = Some m"
    "client_message (frame_at n m \<lparr>p_taken := k\<rparr> :: (nat, game_inner_message) poll) = Some m" for n m k
    by (simp_all add: client_message_def poll_defs)
  have taken: "p_taken (frame_at n m :: (nat, game_inner_message) poll) = 0" for n m
    by (simp add: poll_defs)
  have fit: "replies_fit MAX_SEND_QUEUE_SIZE [] ?ps" "\<not> replies_fit 0 [] ?one"
    by (simp_all add: queue_after_def cm taken const_defs)
  have account: "gs_account ?s = Some ?a" "gs_account ?c = Some ?a" by simp_all
  have messages: "\<forall>p\<in>set ?ps. \<exists>m. p_frame p = Some (Message m)"
    "\<forall>p\<in>set ?one. \<exists>m. p_frame p = Some (Message m)"
    and calm: "(9 :: nat) \<notin> snd (fold registry_step (concat (map p_others ?ps)) (registry ?w, cancelled ?w))"
    "(9 :: nat) \<notin> snd (fold registry_step (concat (map p_others ?one)) (registry ?w, cancelled ?w))"
    by (simp_all add: poll_defs world_new_def)
  from game_conversation [OF mpsc_laws_sample account(1) messages(1) calm(1), of KEEP_ALIVE_TIMEOUT, unfolded q]
    fit(1) obtain s' w' where run: "event_loop (game_actor sample_mpsc KEEP_ALIVE_TIMEOUT) 9 ?ps (?s, ?w) =
      (Continue, s', w')"
    and got: "taken_by_writer [] ?ps @ gs_queued sample_mpsc s' =
      map outgoing (concat (map (game_reply \<circ> client_message) ?ps))"
    "gs_position s' = fold noted_position (map client_message ?ps) (gs_position ?s)"
    "spawned w' = spawned ?w @ concat (map (game_saves (account_id ?a) \<circ> client_message) ?ps)"
    by (simp only: if_True append_Nil) blast
  from got have "gs_queued sample_mpsc s' = [outgoing (MoveResponse True 1 2)] \<and>
    gs_position s' = (1, 2) \<and> spawned w' = [SaveScore 11 70 8 90]"
    by (simp add: cm taken queue_after_def world_new_def)
  moreover from game_conversation [OF mpsc_laws_sample account(2) messages(2) calm(2), of KEEP_ALIVE_TIMEOUT,
      unfolded q] fit(2)
  have "fst (event_loop (game_actor sample_mpsc KEEP_ALIVE_TIMEOUT) 9 ?one (?c, ?w)) = Break"
    by argo
  ultimately show ?thesis using run by simp
qed

text \<open>A session that authenticates at time 5 and sends a keep-alive at time 6.\<close>

definition sample_polls :: "(nat, game_inner_message) poll list" where
  "sample_polls = [inner_at 5 (TokenTaken (Some (token_value 7 ''u''))), frame_at 6 KeepAliveRequest]"

definition sample_start :: "(message_wrapper list \<times> bool, nat) game_state" where
  "sample_start = (game_session_new 4 (sample_outbox 4) 0, world_new (register 4 9 registry_default))"

definition sample_end :: "(message_wrapper list \<times> bool, nat) game_state" where
  "sample_end =
     (\<lparr>gs_session_id = 4,
       gs_outbox = \<lparr>ob_session_id = 4, ob_tx = ([outgoing (GameConnectResponse True 0)], False)\<rparr>,
       gs_account = Some \<lparr>account_id = 7, user_id = ''u''\<rparr>, gs_last_keep_alive = 6,
       gs_world_id = 0, gs_position = (0, 0)\<rparr>,
      world_new (fst (authenticate 4 ''u'' (register 4 9 registry_default))))"

lemma game_no_takes [simp]: "writer_takes (game_actor mp t) 0 s = s"
  by (simp add: game_step_simps receive_from_def)

lemma sample_run:
  "event_loop (game_actor sample_mpsc KEEP_ALIVE_TIMEOUT) 9 sample_polls sample_start =
    (Continue, sample_end)"
  by (simp add: sample_polls_def sample_start_def sample_end_def loop_step_polls
      game_step_simps(1,2) game_handler_defs game_send_flow_def sample_send game_session_new_def
      world_new_def outgoing_def world_authenticate_def
      authenticate_def register_def registry_default_def)

text \<open>
  C28. The keep-alive timeout ends a session only if it is authenticated, and only if its last
  keep-alive and its last authentication are at least the timeout ago.
\<close>

theorem game_timeout_after_silence:
  assumes "event_loop (game_actor mp t) kick ps (s, w) = (Continue, s1, w1)"
    and "branch_of (game_actor mp t) kick p (wake (game_actor mp t) p (s1, w1)) = Some Timeout_Branch"
    and "sorted (map p_now ps)" and "\<forall>q\<in>set ps. gs_last_keep_alive s \<le> p_now q"
    and "gs_account s = None"
  shows "(\<exists>q\<in>set ps. delivered game_identity q \<noteq> None) \<and>
    (\<forall>q\<in>set ps. heard game_identity q \<longrightarrow> p_now q + t \<le> p_now p)"
  using game.timeout_after_silence [OF assms(1-4)] assms(5) by (auto simp: game_authed_def)

lemma sample_identity [simp]: "game_identity (TokenTaken (Some (token_value a u))) = Some u"
  by (simp add: game_identity_def)

theorem game_timeout_after_silence_witness:
  "heard game_identity (frame_at 6 KeepAliveRequest :: (nat, game_inner_message) poll) \<and>
    (6 :: nat) + KEEP_ALIVE_TIMEOUT \<le> 10000000006"
proof -
  have timeout: "branch_of (game_actor sample_mpsc KEEP_ALIVE_TIMEOUT) 9 (idle_at 10000000006)
      (wake (game_actor sample_mpsc KEEP_ALIVE_TIMEOUT) (idle_at 10000000006)
        (fst sample_end, snd sample_end)) = Some Timeout_Branch"
    by (simp add: branch_of_def wake_def idle_at_def select_biased_timeout sample_end_def
        world_new_def game_actor_def const_defs)
  have run: "event_loop (game_actor sample_mpsc KEEP_ALIVE_TIMEOUT) 9 sample_polls
      (fst sample_start, snd sample_start) = (Continue, fst sample_end, snd sample_end)"
    by (simp add: sample_run)
  have "heard game_identity (frame_at 6 KeepAliveRequest :: (nat, game_inner_message) poll)"
    by (simp add: heard_def frame_at_def outgoing_def)
  moreover from game_timeout_after_silence [OF run timeout] this
  have "(6 :: nat) + KEEP_ALIVE_TIMEOUT \<le> 10000000006"
    by (simp add: sample_polls_def sample_start_def game_session_new_def poll_defs)
  ultimately show ?thesis ..
qed

text \<open>
  C29. An authenticated session that is still going at a moment when nothing is ready heard of its
  client less than the timeout ago.
\<close>

theorem game_alive_heard_recently:
  assumes "event_loop (game_actor mp t) kick (ps @ [p]) (s, w) = (Continue, s', w')"
    and "p_frame p = None" and "p_inner p = None"
    and "gs_account s = None" and "gs_account s' \<noteq> None"
    and "sorted (map p_now ps)" and "\<forall>q\<in>set ps. gs_last_keep_alive s \<le> p_now q"
  shows "\<exists>q\<in>set ps. heard game_identity q \<and> p_now p < p_now q + t"
  using game.alive_heard_recently [OF assms(1-3) _ _ assms(6,7)] assms(4,5)
  by (simp add: game_authed_def)

theorem game_alive_heard_recently_witness:
  "(\<exists>q\<in>set sample_polls. heard game_identity q \<and> 10000000005 < p_now q + KEEP_ALIVE_TIMEOUT)"
proof -
  have "event_loop (game_actor sample_mpsc KEEP_ALIVE_TIMEOUT) 9
      (sample_polls @ [idle_at 10000000005]) (fst sample_start, snd sample_start) =
    (Continue, fst sample_end, snd sample_end)"
    by (simp add: event_loop_append sample_run)
      (simp add: loop_step_def wake_def branch_of_def select_biased_def sleep_until_opt_def
        idle_at_def sample_end_def world_new_def const_defs, simp add: game_actor_def)
  from game_alive_heard_recently [OF this] show ?thesis
    by (simp add: idle_at_def sample_start_def sample_end_def game_session_new_def)
      (simp add: sample_polls_def frame_at_def inner_at_def)
qed

text \<open>
  While a session goes on, the registry goes through the operations of the other tasks and one
  \<open>authenticate\<close> of this session for every token value it was given that names an account, in the
  order of the polls, and nothing else; the session has an account exactly if there was one.
\<close>

theorem game_run_is_registry_history:
  assumes "event_loop (game_actor mp t) kick ps (s, w) = (Continue, s', w')"
  shows "(registry w', cancelled w') =
      fold registry_step (concat (map (poll_ops game_identity (gs_session_id s)) ps))
        (registry w, cancelled w) \<and>
    (gs_account s' \<noteq> None \<longleftrightarrow>
      gs_account s \<noteq> None \<or> (\<exists>p\<in>set ps. delivered game_identity p \<noteq> None))"
  using game.run_effects [OF assms] by (simp add: game_authed_def)

theorem game_run_is_registry_history_witness:
  "(registry (snd sample_end), cancelled (snd sample_end)) =
    registry_step (Authenticate 4 ''u'') (register 4 9 registry_default, {})"
proof -
  have run: "event_loop (game_actor sample_mpsc KEEP_ALIVE_TIMEOUT) 9 sample_polls
      (fst sample_start, snd sample_start) = (Continue, fst sample_end, snd sample_end)"
    by (simp add: sample_run)
  from game_run_is_registry_history [OF run] show ?thesis
    by (simp add: sample_polls_def sample_start_def game_session_new_def poll_ops_def
        delivered_def frame_at_def inner_at_def world_new_def)
qed

section \<open>What a session does in the name of an account\<close>

text \<open>GameServer's token store answered with a value that names this account.\<close>

definition token_delivered :: "('k, game_inner_message) poll list \<Rightarrow> account \<Rightarrow> bool" where
  "token_delivered ps a \<longleftrightarrow>
     (\<exists>p\<in>set ps. \<exists>v. p_inner p = Some (TokenTaken (Some v)) \<and> parse_token_value v = Some a)"

text \<open>
  The client asked for this work, and a score is saved under an account only if the store named
  that account.
\<close>

fun work_earned :: "('k, game_inner_message) poll list \<Rightarrow> game_work \<Rightarrow> bool" where
  "work_earned ps (TakeAuthToken t) \<longleftrightarrow>
     t \<noteq> [] \<and> Some (GameConnectRequest t) \<in> client_message ` set ps"
| "work_earned ps (SaveScore aid score kills secs) \<longleftrightarrow>
     Some (GameOverReport score kills secs) \<in> client_message ` set ps \<and>
     (\<exists>a. account_id a = aid \<and> token_delivered ps a)"

definition game_earned :: "('k, game_inner_message) poll list \<Rightarrow> ('c, 'k) game_state \<Rightarrow> bool" where
  "game_earned ps st \<longleftrightarrow>
     (\<forall>a. gs_account (fst st) = Some a \<longrightarrow> token_delivered ps a) \<and>
     list_all (work_earned ps) (spawned (snd st))"

lemma token_delivered_mono: "token_delivered ps a \<Longrightarrow> set ps \<subseteq> set qs \<Longrightarrow> token_delivered qs a"
  by (auto simp: token_delivered_def)

lemma work_earned_mono: "work_earned ps x \<Longrightarrow> set ps \<subseteq> set qs \<Longrightarrow> work_earned qs x"
  by (cases x) (auto intro: token_delivered_mono)

lemma game_earned_mono: "game_earned ps st \<Longrightarrow> set ps \<subseteq> set qs \<Longrightarrow> game_earned qs st"
  unfolding game_earned_def list_all_iff
  by (blast intro: token_delivered_mono work_earned_mono)

lemma game_earned_remote:
  assumes "game_earned ps (s, w)" and "p \<in> set ps" "p_frame p = Some (Message m)"
    and "game_on_remote mp now m (s, w) = (f, s', w')"
  shows "game_earned ps (s', w')"
proof -
  have msg: "wrapped m \<in> client_message ` set ps"
    using assms(2,3) by (force simp: client_message_def image_iff)
  have "spawned w' = spawned w \<or> (\<exists>x. spawned w' = spawned w @ [x] \<and> work_earned ps x)"
    using assms(1,4) msg
    by (auto simp: game_on_remote_def on_game_connect_request_def on_game_over_report_def
        send_game_connect_def Let_def game_earned_def dest!: game_send_flow_frame
        split: option.splits payload.splits if_splits)
  with assms(1) game_on_remote_fields [OF assms(4)] show ?thesis
    by (auto simp: game_earned_def)
qed

lemma game_earned_inner:
  assumes "game_earned ps (s, w)" and "p \<in> set ps" "p_inner p = Some i"
    and "game_on_inner mp now i (s, w) = (f, s', w')"
  shows "game_earned ps (s', w')"
proof -
  have "spawned w' = spawned w \<and> (gs_account s' = gs_account s \<or>
      (\<exists>v a. i = TokenTaken (Some v) \<and> parse_token_value v = Some a \<and> gs_account s' = Some a))"
    using assms(4)
    by (auto simp: game_on_inner_def game_on_authenticated_def send_game_connect_def bind_eq_Some_conv
        dest!: game_send_flow_frame split: game_inner_message.splits option.splits)
  moreover have "token_delivered ps a" if "i = TokenTaken (Some v)" "parse_token_value v = Some a" for v a
    using assms(2,3) that by (auto simp: token_delivered_def)
  ultimately show ?thesis using assms(1) by (auto simp: game_earned_def)
qed

lemma game_event_loop_earned:
  assumes "game_event_loop mp t kick ps (s, w) = (f, s', w')" and "game_earned [] (s, w)"
  shows "game_earned ps (s', w')"
proof -
  obtain r ob where r: "outbox_send mp (ConnectedResponse 0) (gs_outbox s) = (r, ob)"
    by (rule prod.exhaust)
  let ?s = "s\<lparr>gs_outbox := ob\<rparr>"
  have start: "game_earned [] (?s, w)" using assms(2) by (simp add: game_earned_def)
  show ?thesis
  proof (cases r)
    case (Inl e)
    with r assms(1) start show ?thesis
      by (auto simp: game_event_loop_def intro: game_earned_mono)
  next
    case (Inr u)
    with r assms(1) have run: "event_loop (game_actor mp t) kick ps (?s, w) = (f, s', w')"
      by (simp add: game_event_loop_def)
    have "\<exists>seen rest. ps = seen @ rest \<and> game_earned seen (s', w') \<and> (f = Continue \<longrightarrow> rest = [])"
    proof (rule event_loop_invariant [where I = game_earned, OF run start])
      fix seen :: "('b, game_inner_message) poll list" and p and st :: "('a, 'b) game_state"
      assume "game_earned seen st"
      then have "game_earned (seen @ [p]) st" by (rule game_earned_mono) auto
      then show "game_earned (seen @ [p]) (wake (game_actor mp t) p st)"
        by (simp add: game_earned_def wake_def game_step_simps)
    next
      fix seen :: "('b, game_inner_message) poll list" and p m f
        and st st' :: "('a, 'b) game_state"
      assume "game_earned (seen @ [p]) st" "p_frame p = Some (Message m)"
        "on_remote (game_actor mp t) (p_now p) m st = (f, st')"
      then show "game_earned (seen @ [p]) st'"
        using game_earned_remote [of "seen @ [p]" "fst st" "snd st" p m]
        by (cases st') (simp add: game_step_simps)
    next
      fix seen :: "('b, game_inner_message) poll list" and p i f
        and st st' :: "('a, 'b) game_state"
      assume "game_earned (seen @ [p]) st" "p_inner p = Some i"
        "on_inner (game_actor mp t) (p_now p) i st = (f, st')"
      then show "game_earned (seen @ [p]) st'"
        using game_earned_inner [of "seen @ [p]" "fst st" "snd st" p i]
        by (cases st') (simp add: game_step_simps)
    qed
    then show ?thesis by (auto intro: game_earned_mono)
  qed
qed

text \<open>
  C10. Whatever the client sends, whatever the store answers and however the run ends: a new session
  takes only non-empty tokens its client sent, saves only scores its client reported, and saves
  them under an account the token store named to this very session; and the account it ends with
  is such an account.
\<close>

theorem game_work_is_earned:
  assumes "game_event_loop mp t kick ps (game_session_new i ob now, world_new r) = (f, s', w')"
  shows "list_all (work_earned ps) (spawned w') \<and>
    (\<forall>a. gs_account s' = Some a \<longrightarrow> token_delivered ps a)"
  using game_event_loop_earned [OF assms]
  by (simp add: game_earned_def game_session_new_def world_new_def)

theorem game_work_is_earned_witness:
  "\<exists>s' w'. game_event_loop sample_mpsc KEEP_ALIVE_TIMEOUT (9 :: nat)
      [frame_at 1 (GameConnectRequest ''x''), inner_at 2 (TokenTaken (Some (token_value 7 ''u''))),
       frame_at 3 (GameOverReport 1 2 3)]
      (game_session_new 4 (sample_outbox 4) 0, world_new registry_default) = (Continue, s', w') \<and>
    spawned w' = [TakeAuthToken ''x'', SaveScore 7 1 2 3] \<and>
    list_all (work_earned ([frame_at 1 (GameConnectRequest ''x''),
       inner_at 2 (TokenTaken (Some (token_value 7 ''u''))),
       frame_at 3 (GameOverReport 1 2 3)] :: (nat, game_inner_message) poll list))
      [TakeAuthToken ''x'', SaveScore 7 1 2 3]"
proof -
  let ?ps = "[frame_at 1 (GameConnectRequest ''x''),
       inner_at 2 (TokenTaken (Some (token_value 7 ''u''))),
       frame_at 3 (GameOverReport 1 2 3)] :: (nat, game_inner_message) poll list"
  obtain s' w' where run: "game_event_loop sample_mpsc KEEP_ALIVE_TIMEOUT (9 :: nat) ?ps
      (game_session_new 4 (sample_outbox 4) 0, world_new registry_default) = (Continue, s', w')"
    and w': "spawned w' = [TakeAuthToken ''x'', SaveScore 7 1 2 3]"
    by (simp add: game_event_loop_def loop_step_polls game_step_simps(1,2) game_handler_defs
        game_send_flow_def outbox_send_def send_flow_def sample_defs const_defs outgoing_def
        game_session_new_def world_new_def authenticate_def registry_default_def)
  from run w' game_work_is_earned [OF run] show ?thesis by metis
qed

section \<open>Two connect requests at once\<close>

text \<open>A token value that names an account, delivered to a session with room for the answer.\<close>

lemma game_token_step:
  assumes laws: "mpsc_laws MAX_SEND_QUEUE_SIZE mp" and v: "parse_token_value v = Some a"
    and room: "has_room mp (gs_outbox s)" and calm: "kick \<notin> cancelled w"
  shows "\<exists>s'. loop_step (game_actor mp t) kick (inner_at now (TokenTaken (Some v))) (s, w) =
      (Continue, s', world_authenticate (gs_session_id s) (user_id a) w) \<and>
    gs_session_id s' = gs_session_id s \<and> gs_account s' = Some a \<and>
    gs_queued mp s' = gs_queued mp s @ [outgoing (GameConnectResponse True 0)] \<and>
    mp_closed mp (ob_tx (gs_outbox s')) = mp_closed mp (ob_tx (gs_outbox s))"
proof -
  let ?s = "s\<lparr>gs_account := Some a, gs_last_keep_alive := now\<rparr>"
  and ?w = "world_authenticate (gs_session_id s) (user_id a) w"
  have "has_room mp (gs_outbox ?s)" using room by simp
  from game_send_flow_room [OF laws this, of "GameConnectResponse True 0" ?w] calm v show ?thesis
    by (auto simp: loop_step_polls game_step_simps(1,2) game_on_inner_def game_on_authenticated_def
        send_game_connect_def)
qed

text \<open>
  C40. Any connected session without an account that is not told to stop and has room for two
  answers, and is sent two connect requests before the first is answered, with no other task in
  between, authenticates twice if both tokens are good: the check for an account
  is made when a request arrives, not when its token comes back. Both tokens are used up, both
  requests are confirmed, and the session ends up as the second user; when the tokens belong to two
  users the registry keeps the first one owned by the session, even after the session is gone.
\<close>

theorem game_double_connect_authenticates_twice:
  assumes "mpsc_laws MAX_SEND_QUEUE_SIZE mp" and "gs_account s = None"
    and "\<not> mp_closed mp (ob_tx (gs_outbox s))" and "length (gs_queued mp s) + 2 \<le> MAX_SEND_QUEUE_SIZE"
    and "registry_kick (registry w) (gs_session_id s) = Some kick" and "kick \<notin> cancelled w"
    and "\<forall>j. j \<noteq> gs_session_id s \<longrightarrow> registry_kick (registry w) j \<noteq> Some kick"
    and "x \<noteq> []" and "y \<noteq> []"
    and "parse_token_value v1 = Some a" and "parse_token_value v2 = Some b"
  shows "\<exists>s' w'. event_loop (game_actor mp t) kick
      [frame_at t1 (GameConnectRequest x), frame_at t2 (GameConnectRequest y),
       inner_at t3 (TokenTaken (Some v1)), inner_at t4 (TokenTaken (Some v2))] (s, w) =
        (Continue, s', w') \<and>
    spawned w' = spawned w @ [TakeAuthToken x, TakeAuthToken y] \<and>
    gs_queued mp s' = gs_queued mp s @
      [outgoing (GameConnectResponse True 0), outgoing (GameConnectResponse True 0)] \<and>
    gs_account s' = Some b \<and>
    sessions (registry (snd (game_run_end (s', w')))) (gs_session_id s) = None \<and>
    (user_id a \<noteq> user_id b \<longrightarrow>
      authenticated (registry (snd (game_run_end (s', w')))) (user_id a) = Some (gs_session_id s))"
proof -
  let ?i = "gs_session_id s" and ?w = "spawn (TakeAuthToken y) (spawn (TakeAuthToken x) w)"
  let ?w1 = "world_authenticate ?i (user_id a) ?w"
  have asked: "loop_step (game_actor mp t) kick (frame_at n (GameConnectRequest z)) (s, w0) =
      (Continue, s, spawn (TakeAuthToken z) w0)" if "z \<noteq> []" "kick \<notin> cancelled w0" for n z w0
    using that assms(2)
    by (simp add: loop_step_polls game_step_simps(1) game_on_remote_def on_game_connect_request_def outgoing_def)
  have calm: "kick \<notin> cancelled ?w" "kick \<notin> cancelled ?w1"
    using assms(5-7) by (auto simp: authenticate_cancels)
  have "has_room mp (gs_outbox s)" using assms(3,4) by (simp add: has_room_def)
  from game_token_step [OF assms(1,10) this calm(1), of t t3] obtain s1 where
    s1: "loop_step (game_actor mp t) kick (inner_at t3 (TokenTaken (Some v1))) (s, ?w) = (Continue, s1, ?w1)"
    "gs_session_id s1 = ?i" "gs_queued mp s1 = gs_queued mp s @ [outgoing (GameConnectResponse True 0)]"
    "mp_closed mp (ob_tx (gs_outbox s1)) = mp_closed mp (ob_tx (gs_outbox s))" by auto
  then have "has_room mp (gs_outbox s1)" using assms(3,4) by (simp add: has_room_def)
  from game_token_step [OF assms(1,11) this calm(2), of t t4] obtain s2 where
    s2: "loop_step (game_actor mp t) kick (inner_at t4 (TokenTaken (Some v2))) (s1, ?w1) =
      (Continue, s2, world_authenticate ?i (user_id b) ?w1)"
    "gs_session_id s2 = ?i" "gs_account s2 = Some b"
    "gs_queued mp s2 = gs_queued mp s1 @ [outgoing (GameConnectResponse True 0)]"
    by (auto simp: s1(2))
  let ?r = "registry (world_authenticate ?i (user_id b) ?w1)"
  have "authenticated (remove_session ?i ?r) (user_id a) = Some ?i" if "user_id a \<noteq> user_id b"
    using assms(5) that by (simp add: authenticate_observers remove_observers)
  moreover have "sessions (remove_session ?i ?r) ?i = None"
    using remove_observers(2) [of ?i ?r] by (simp add: registry_kick_def fun_eq_iff split: if_splits)
  ultimately show ?thesis
    using asked [OF assms(8,6), of t1] asked [OF assms(9), of "spawn (TakeAuthToken x) w" t2] assms(6) s1 s2
    by (simp add: game_run_end_def)
qed

theorem game_double_connect_authenticates_twice_witness:
  "\<exists>s' w'. event_loop (game_actor sample_mpsc KEEP_ALIVE_TIMEOUT) 9
      [frame_at 1 (GameConnectRequest ''x''), frame_at 2 (GameConnectRequest ''y''),
       inner_at 3 (TokenTaken (Some (token_value 1 ''a''))),
       inner_at 4 (TokenTaken (Some (token_value 2 ''b'')))]
      (game_session_new 4 (sample_outbox 4) 0, world_new (register 4 (9 :: nat) registry_default)) =
        (Continue, s', w') \<and>
    spawned w' = [TakeAuthToken ''x'', TakeAuthToken ''y''] \<and>
    gs_account s' = Some \<lparr>account_id = 2, user_id = ''b''\<rparr> \<and>
    authenticated (registry (snd (game_run_end (s', w')))) ''a'' = Some 4"
proof -
  let ?s = "game_session_new 4 (sample_outbox 4) 0"
  and ?w = "world_new (register 4 (9 :: nat) registry_default) :: (nat, game_work) world"
  have start: "gs_account ?s = None" "\<not> mp_closed sample_mpsc (ob_tx (gs_outbox ?s))"
    "length (gs_queued sample_mpsc ?s) + 2 \<le> MAX_SEND_QUEUE_SIZE"
    "registry_kick (registry ?w) (gs_session_id ?s) = Some 9" "9 \<notin> cancelled ?w"
    "\<forall>j. j \<noteq> gs_session_id ?s \<longrightarrow> registry_kick (registry ?w) j \<noteq> Some 9"
    by (simp_all add: game_session_new_def sample_defs const_defs world_new_def register_observers)
  from game_double_connect_authenticates_twice [OF mpsc_laws_sample start, of "''x''" "''y''"
      "token_value 1 ''a''" "\<lparr>account_id = 1, user_id = ''a''\<rparr>" "token_value 2 ''b''"
      "\<lparr>account_id = 2, user_id = ''b''\<rparr>" KEEP_ALIVE_TIMEOUT 1 2 3 4]
  show ?thesis by (simp add: game_session_new_def world_new_def) blast
qed

end
