(* ===== verification/Login_Session.thy ===== *)
theory Login_Session
  imports Session_Core Password
begin

text \<open>
  \<open>crates/login_server/src/session.rs\<close>: a session of LoginServer, its handlers, its login rate limit,
  its event loop, and the login task it spawns against the \<open>Backend\<close> trait of
  \<open>crates/login_server/src/backend.rs\<close>.
\<close>

section \<open>State and messages\<close>

definition LOGIN_ATTEMPTS_PER_WINDOW :: u32 where
  "LOGIN_ATTEMPTS_PER_WINDOW = 5"

definition LOGIN_ATTEMPT_WINDOW :: duration where
  "LOGIN_ATTEMPT_WINDOW = from_secs 60"

definition LOGIN_DB_ERROR_CODE :: i32 where
  "LOGIN_DB_ERROR_CODE = 3"

datatype login_error_code = LE_Success | InvalidCredentials | Banned | ServerError | RateLimited

fun login_code :: "login_error_code \<Rightarrow> i32" where
  "login_code LE_Success = 0"
| "login_code InvalidCredentials = 1"
| "login_code Banned = 2"
| "login_code ServerError = 3"
| "login_code RateLimited = 4"

record login_account =
  la_user_id :: string

datatype login_outcome =
    LoginSuccess login_account string
  | LoginFailure login_error_code
  | LoginDbError

text \<open>The spawned login task: what its \<open>async\<close> block captures.\<close>

datatype login_work = Authenticate_Login string bytes

record 'c login_session =
  ls_session_id :: u64
  ls_outbox :: "'c outbox"
  ls_account :: "login_account option"
  ls_last_keep_alive :: instant
  ls_login_window :: "instant option"
  ls_login_attempts :: u32

type_synonym ('c, 'k) login_state = "'c login_session \<times> ('k, login_work) world"

definition login_session_new :: "u64 \<Rightarrow> 'c outbox \<Rightarrow> instant \<Rightarrow> 'c login_session" where
  "login_session_new i ob now =
     \<lparr>ls_session_id = i, ls_outbox = ob, ls_account = None, ls_last_keep_alive = now,
      ls_login_window = None, ls_login_attempts = 0\<rparr>"

section \<open>The login task\<close>

record account_row =
  ar_account_id :: u64
  ar_user_id :: string
  ar_password_hash :: string
  ar_salt :: string
  ar_status :: u8

datatype backend_error = BackendError

text \<open>The trait \<open>Backend\<close>, over the state \<open>'b\<close> of the stores.\<close>

record 'b login_backend =
  find_account :: "string \<Rightarrow> 'b \<Rightarrow> (backend_error + account_row option) \<times> 'b"
  touch_last_login :: "u64 \<Rightarrow> 'b \<Rightarrow> (backend_error + unit) \<times> 'b"
  issue_token :: "u64 \<Rightarrow> string \<Rightarrow> 'b \<Rightarrow> (backend_error + string option) \<times> 'b"

text \<open>
  \<open>joined\<close> says whether the blocking task that verifies the password ran to its end; the semaphore
  before it only delays.
\<close>

definition login_authenticate :: "crypto \<Rightarrow> 'b login_backend \<Rightarrow> bool \<Rightarrow> string \<Rightarrow> bytes \<Rightarrow> 'b \<Rightarrow>
    login_outcome \<times> 'b" where
  "login_authenticate cr be joined uid h b =
     (case find_account be uid b of
        (Inl e, b1) \<Rightarrow> (LoginDbError, b1)
      | (Inr None, b1) \<Rightarrow> (LoginFailure InvalidCredentials, b1)
      | (Inr (Some row), b1) \<Rightarrow>
          (let verified =
             (if joined then Some (verify cr h (ar_password_hash row) (ar_salt row)) else None)
           in case verified of
             None \<Rightarrow> (LoginDbError, b1)
           | Some (Inl e) \<Rightarrow> (LoginDbError, b1)
           | Some (Inr False) \<Rightarrow> (LoginFailure InvalidCredentials, b1)
           | Some (Inr True) \<Rightarrow>
               if ar_status row = 1 then (LoginFailure Banned, b1)
               else (case touch_last_login be (ar_account_id row) b1 of
                   (Inl e, b2) \<Rightarrow> (LoginDbError, b2)
                 | (Inr _, b2) \<Rightarrow>
                     (case issue_token be (ar_account_id row) (ar_user_id row) b2 of
                        (Inl e, b3) \<Rightarrow> (LoginFailure ServerError, b3)
                      | (Inr None, b3) \<Rightarrow> (LoginFailure ServerError, b3)
                      | (Inr (Some token), b3) \<Rightarrow>
                          (LoginSuccess \<lparr>la_user_id = ar_user_id row\<rparr> token, b3)))))"

section \<open>Handlers\<close>

definition login_send_flow :: "('c, message_wrapper) mpsc \<Rightarrow> payload \<Rightarrow>
    ('c, 'k) login_state \<Rightarrow> control_flow \<times> ('c, 'k) login_state" where
  "login_send_flow mp payload st =
     (case st of (s, w) \<Rightarrow>
        case send_flow mp payload (ls_outbox s) of
          (flow, ob) \<Rightarrow> (flow, s\<lparr>ls_outbox := ob\<rparr>, w))"

definition send_login_failure :: "('c, message_wrapper) mpsc \<Rightarrow> login_error_code \<Rightarrow>
    ('c, 'k) login_state \<Rightarrow> control_flow \<times> ('c, 'k) login_state" where
  "send_login_failure mp code st = login_send_flow mp (LoginResponse False (login_code code) []) st"

definition try_consume_login_attempt :: "instant \<Rightarrow> 'c login_session \<Rightarrow> bool \<times> 'c login_session" where
  "try_consume_login_attempt now s =
     (let s1 =
        (if (case ls_login_window s of None \<Rightarrow> True
             | Some start \<Rightarrow> duration_since now start \<ge> LOGIN_ATTEMPT_WINDOW)
         then s\<lparr>ls_login_window := Some now, ls_login_attempts := 0\<rparr> else s);
          s2 = s1\<lparr>ls_login_attempts := ls_login_attempts s1 + 1\<rparr>
      in (ls_login_attempts s2 \<le> LOGIN_ATTEMPTS_PER_WINDOW, s2))"

definition on_login_request :: "('c, message_wrapper) mpsc \<Rightarrow> instant \<Rightarrow> string \<Rightarrow> bytes \<Rightarrow>
    ('c, 'k) login_state \<Rightarrow> control_flow \<times> ('c, 'k) login_state" where
  "on_login_request mp now uid password_hash st =
     (case st of (s, w) \<Rightarrow>
        if ls_account s \<noteq> None then send_login_failure mp InvalidCredentials (s, w)
        else (case try_consume_login_attempt now s of
            (granted, s1) \<Rightarrow>
              if \<not> granted then send_login_failure mp RateLimited (s1, w)
              else if uid = [] \<or> password_hash = [] then send_login_failure mp InvalidCredentials (s1, w)
              else (Continue, s1, spawn (Authenticate_Login uid password_hash) w)))"

definition login_on_remote :: "('c, message_wrapper) mpsc \<Rightarrow> instant \<Rightarrow> message_wrapper \<Rightarrow>
    ('c, 'k) login_state \<Rightarrow> control_flow \<times> ('c, 'k) login_state" where
  "login_on_remote mp now message st =
     (case st of (s, w) \<Rightarrow>
      let is_authenticated = (ls_account s \<noteq> None) in
      case wrapped message of
        Some (LoginRequest uid password_hash) \<Rightarrow> on_login_request mp now uid password_hash (s, w)
      | Some KeepAliveRequest \<Rightarrow> (Continue, s\<lparr>ls_last_keep_alive := now\<rparr>, w)
      | other \<Rightarrow> if \<not> is_authenticated then (Break, s, w) else (Continue, s, w))"

definition on_login_outcome :: "('c, message_wrapper) mpsc \<Rightarrow> instant \<Rightarrow> login_outcome \<Rightarrow>
    ('c, 'k) login_state \<Rightarrow> control_flow \<times> ('c, 'k) login_state" where
  "on_login_outcome mp now outcome st =
     (case outcome of
        LoginFailure code \<Rightarrow> send_login_failure mp code st
      | LoginDbError \<Rightarrow> login_send_flow mp (ErrorResponse LOGIN_DB_ERROR_CODE) st
      | LoginSuccess a token \<Rightarrow>
          (case st of (s, w) \<Rightarrow>
             login_send_flow mp (LoginResponse True (login_code LE_Success) token)
               (s\<lparr>ls_account := Some a, ls_last_keep_alive := now\<rparr>,
                world_authenticate (ls_session_id s) (la_user_id a) w)))"

section \<open>The event loop\<close>

definition login_actor :: "('c, message_wrapper) mpsc \<Rightarrow> duration \<Rightarrow>
    ('c login_session, 'k, login_outcome, login_work) actor" where
  "login_actor mp keep_alive_timeout =
     \<lparr>on_remote = login_on_remote mp,
      on_inner = on_login_outcome mp,
      keep_alive_deadline =
        (\<lambda>s. map_option (\<lambda>_. ls_last_keep_alive s + keep_alive_timeout) (ls_account s)),
      writer_takes = (\<lambda>n s. s\<lparr>ls_outbox := receive_from mp n (ls_outbox s)\<rparr>)\<rparr>"

definition login_event_loop :: "('c, message_wrapper) mpsc \<Rightarrow> duration \<Rightarrow> 'k \<Rightarrow>
    ('k, login_outcome) poll list \<Rightarrow> ('c, 'k) login_state \<Rightarrow>
    control_flow \<times> ('c, 'k) login_state" where
  "login_event_loop mp keep_alive_timeout kick ps st =
     (case st of (s, w) \<Rightarrow>
        case outbox_send mp (ConnectedResponse 0) (ls_outbox s) of
          (Inl _, ob) \<Rightarrow> (Break, s\<lparr>ls_outbox := ob\<rparr>, w)
        | (Inr _, ob) \<Rightarrow>
            event_loop (login_actor mp keep_alive_timeout) kick ps (s\<lparr>ls_outbox := ob\<rparr>, w))"

section \<open>The life of a session\<close>

text \<open>\<open>run\<close> before and after the event loop.\<close>

definition login_run_start :: "u64 \<Rightarrow> 'k \<Rightarrow> 'c \<Rightarrow> instant \<Rightarrow> ('k, login_work) world \<Rightarrow>
    u64 \<times> ('c, 'k) login_state" where
  "login_run_start NEXT_ID kick tx now w =
     (case generate NEXT_ID of
        (i, NEXT_ID') \<Rightarrow>
          (NEXT_ID', login_session_new i \<lparr>ob_session_id = i, ob_tx = tx\<rparr> now,
           w\<lparr>registry := register i kick (registry w)\<rparr>))"

definition login_run_end :: "('c, 'k) login_state \<Rightarrow> ('k, login_work) world" where
  "login_run_end st =
     (case st of (s, w) \<Rightarrow> w\<lparr>registry := remove_session (ls_session_id s) (registry w)\<rparr>)"

section \<open>The session keeps the contract\<close>

definition login_allowed :: "payload option \<Rightarrow> bool" where
  "login_allowed m =
     (case m of Some (LoginRequest _ _) \<Rightarrow> True | Some KeepAliveRequest \<Rightarrow> True | _ \<Rightarrow> False)"

definition login_identity :: "login_outcome \<Rightarrow> string option" where
  "login_identity i = (case i of LoginSuccess a _ \<Rightarrow> Some (la_user_id a) | _ \<Rightarrow> None)"

definition login_authed :: "'c login_session \<Rightarrow> bool" where
  "login_authed s \<longleftrightarrow> ls_account s \<noteq> None"

lemma login_send_flow_frame:
  "login_send_flow mp m (s, w) = (f, s', w') \<Longrightarrow>
    w' = w \<and> ls_session_id s' = ls_session_id s \<and> ls_account s' = ls_account s \<and>
    ls_last_keep_alive s' = ls_last_keep_alive s \<and> ls_login_window s' = ls_login_window s \<and>
    ls_login_attempts s' = ls_login_attempts s \<and> (f, ls_outbox s') = send_flow mp m (ls_outbox s)"
  by (auto simp: login_send_flow_def split: prod.splits)

lemma try_consume_frame:
  "try_consume_login_attempt now s = (granted, s') \<Longrightarrow>
    ls_session_id s' = ls_session_id s \<and> ls_account s' = ls_account s \<and>
    ls_last_keep_alive s' = ls_last_keep_alive s \<and> ls_outbox s' = ls_outbox s"
  by (auto simp: try_consume_login_attempt_def Let_def)

lemmas login_handler_defs =
  login_on_remote_def on_login_request_def send_login_failure_def on_login_outcome_def

lemma login_gate:
  "ls_account s = None \<Longrightarrow> \<not> login_allowed (wrapped m) \<Longrightarrow>
    login_on_remote mp now m (s, w) = (Break, s, w)"
  by (auto simp: login_on_remote_def login_allowed_def split: option.splits payload.splits)

lemma login_on_remote_fields:
  assumes "login_on_remote mp now m (s, w) = (f, s', w')"
  shows "ls_account s' = ls_account s \<and> ls_session_id s' = ls_session_id s \<and>
    ls_last_keep_alive s' = (if wrapped m = Some KeepAliveRequest then now else ls_last_keep_alive s) \<and>
    registry w' = registry w \<and> cancelled w' = cancelled w"
  using assms
  by (auto simp: login_on_remote_def on_login_request_def send_login_failure_def Let_def
      dest!: login_send_flow_frame try_consume_frame
      split: option.splits payload.splits if_splits prod.splits)

lemma on_login_outcome_fields:
  assumes "on_login_outcome mp now i (s, w) = (f, s', w')"
  shows "login_authed s' = (login_authed s \<or> login_identity i \<noteq> None) \<and>
    ls_session_id s' = ls_session_id s \<and>
    ls_last_keep_alive s' = (if login_identity i \<noteq> None then now else ls_last_keep_alive s) \<and>
    (registry w', cancelled w') =
      (case login_identity i of
         None \<Rightarrow> (registry w, cancelled w)
       | Some u \<Rightarrow> registry_step (Authenticate (ls_session_id s) u) (registry w, cancelled w))"
  using assms
  by (auto simp: on_login_outcome_def send_login_failure_def login_identity_def login_authed_def
      simp del: not_None_eq dest!: login_send_flow_frame split: login_outcome.splits)

interpretation login: session_actor "login_actor mp keep_alive_timeout" ls_session_id login_authed
  ls_last_keep_alive keep_alive_timeout login_allowed login_identity
  by unfold_locales
    (auto simp: login_actor_def login_authed_def login_gate dest: login_on_remote_fields
      on_login_outcome_fields [unfolded login_authed_def])

lemma login_step_simps:
  "on_remote (login_actor mp t) = login_on_remote mp"
  "on_inner (login_actor mp t) = on_login_outcome mp"
  "writer_takes (login_actor mp t) n s = s\<lparr>ls_outbox := receive_from mp n (ls_outbox s)\<rparr>"
  by (simp_all add: login_actor_def)

lemma login_no_takes [simp]: "writer_takes (login_actor mp t) 0 s = s"
  by (simp add: login_step_simps receive_from_def)

section \<open>The rate limit\<close>

text \<open>
  Windows start at least \<open>LOGIN_ATTEMPT_WINDOW\<close> apart: the \<open>n\<close>-th after the first not before
  \<open>n\<close> windows' time has passed; and each lets at most five attempts through.
\<close>

definition windows_inv :: "instant \<Rightarrow> ('k, login_outcome) poll list \<Rightarrow> ('c, 'k) login_state \<Rightarrow> bool" where
  "windows_inv t0 seen st \<longleftrightarrow>
     (case ls_login_window (fst st) of
        None \<Rightarrow> spawned (snd st) = [] \<and> ls_login_attempts (fst st) = 0
      | Some start \<Rightarrow> \<exists>n. t0 + n * LOGIN_ATTEMPT_WINDOW \<le> start \<and> start \<in> p_now ` set seen \<and>
          unat (ls_login_attempts (fst st)) \<le> length seen \<and>
          length (spawned (snd st)) \<le> 5 * n + min 5 (unat (ls_login_attempts (fst st))))"

lemma try_consume_cases:
  assumes "try_consume_login_attempt now s = (granted, s')" and "unat (ls_login_attempts s) < 2 ^ 32 - 1"
  shows "granted = (unat (ls_login_attempts s') \<le> 5)"
    and "(ls_login_window s' = Some now \<and> unat (ls_login_attempts s') = 1 \<and>
        (ls_login_window s = None \<or> (\<exists>start. ls_login_window s = Some start \<and> start + LOGIN_ATTEMPT_WINDOW \<le> now))) \<or>
      (\<exists>start. ls_login_window s = Some start \<and> ls_login_window s' = Some start \<and>
        unat (ls_login_attempts s') = unat (ls_login_attempts s) + 1)"
proof -
  have inc: "unat (ls_login_attempts s + 1) = unat (ls_login_attempts s) + 1"
    using assms(2) by (simp add: unat_word_ariths)
  have w: "0 < LOGIN_ATTEMPT_WINDOW" by (simp add: LOGIN_ATTEMPT_WINDOW_def from_secs_def)
  show "granted = (unat (ls_login_attempts s') \<le> 5)"
    using assms(1) by (auto simp: try_consume_login_attempt_def Let_def word_le_nat_alt
        LOGIN_ATTEMPTS_PER_WINDOW_def)
  show "(ls_login_window s' = Some now \<and> unat (ls_login_attempts s') = 1 \<and>
        (ls_login_window s = None \<or> (\<exists>start. ls_login_window s = Some start \<and> start + LOGIN_ATTEMPT_WINDOW \<le> now))) \<or>
      (\<exists>start. ls_login_window s = Some start \<and> ls_login_window s' = Some start \<and>
        unat (ls_login_attempts s') = unat (ls_login_attempts s) + 1)"
    using assms(1) inc w
    by (auto simp: try_consume_login_attempt_def Let_def duration_since_def
        split: option.splits if_splits)
qed

text \<open>A window that starts now: the earlier ones lie behind it.\<close>

lemma windows_inv_fresh:
  assumes "windows_inv t0 seen (s, w)" and "t0 \<le> now"
    and "ls_login_window s = None \<or> (\<exists>start. ls_login_window s = Some start \<and> start + LOGIN_ATTEMPT_WINDOW \<le> now) \<or>
      ls_login_window s = Some now \<and> unat (ls_login_attempts s) = 0"
  shows "\<exists>n. t0 + n * LOGIN_ATTEMPT_WINDOW \<le> now \<and> length (spawned w) \<le> 5 * n"
proof (cases "ls_login_window s")
  case None
  with assms(1,2) show ?thesis by (intro exI [of _ 0]) (simp add: windows_inv_def)
next
  case (Some start)
  with assms(1) obtain n where n: "t0 + n * LOGIN_ATTEMPT_WINDOW \<le> start"
    "length (spawned w) \<le> 5 * n + min 5 (unat (ls_login_attempts s))"
    by (auto simp: windows_inv_def)
  show ?thesis
  proof (cases "start + LOGIN_ATTEMPT_WINDOW \<le> now")
    case True
    with n show ?thesis by (intro exI [of _ "Suc n"]) auto
  next
    case False
    with n assms(3) Some show ?thesis by (intro exI [of _ n]) auto
  qed
qed

lemma windows_inv_consume:
  assumes "windows_inv t0 seen (s, w)" and "length seen < 2 ^ 32 - 1" and "t0 \<le> p_now p"
    and "try_consume_login_attempt (p_now p) s = (granted, s')"
    and "w' = w \<or> granted \<and> length (spawned w') = length (spawned w) + 1"
  shows "windows_inv t0 (seen @ [p]) (s', w')"
proof -
  have "unat (ls_login_attempts s) \<le> length seen"
    using assms(1) by (auto simp: windows_inv_def split: option.splits)
  with assms(2) have "unat (ls_login_attempts s) < 2 ^ 32 - 1" by simp
  note c = try_consume_cases [OF assms(4) this]
  have more: "length (spawned w') \<le> length (spawned w) + (if granted then 1 else 0)"
    using assms(5) by auto
  show ?thesis
  proof (cases "ls_login_window s' = Some (p_now p) \<and> unat (ls_login_attempts s') = 1")
    case fresh: True
    with c(2) have "ls_login_window s = None \<or>
        (\<exists>start. ls_login_window s = Some start \<and> start + LOGIN_ATTEMPT_WINDOW \<le> p_now p) \<or>
        ls_login_window s = Some (p_now p) \<and> unat (ls_login_attempts s) = 0" by auto
    from windows_inv_fresh [OF assms(1,3) this] fresh more show ?thesis
      by (force simp: windows_inv_def split: if_splits)
  next
    case False
    with c(2) obtain start where start: "ls_login_window s = Some start" "ls_login_window s' = Some start"
      "unat (ls_login_attempts s') = unat (ls_login_attempts s) + 1" by blast
    with assms(1) obtain n where n: "t0 + n * LOGIN_ATTEMPT_WINDOW \<le> start" "start \<in> p_now ` set seen"
      "unat (ls_login_attempts s) \<le> length seen"
      "length (spawned w) \<le> 5 * n + min 5 (unat (ls_login_attempts s))"
      by (auto simp: windows_inv_def)
    have "length (spawned w') \<le> 5 * n + min 5 (unat (ls_login_attempts s'))"
      using n(4) more c(1) start(3) by (auto split: if_splits)
    with n start show ?thesis by (auto simp: windows_inv_def)
  qed
qed

lemma windows_inv_frame:
  assumes "windows_inv t0 seen (s, w)"
    and "ls_login_window s' = ls_login_window s" "ls_login_attempts s' = ls_login_attempts s"
    and "spawned w' = spawned w" and "set seen \<subseteq> set seen'" "length seen \<le> length seen'"
  shows "windows_inv t0 seen' (s', w')"
  using assms by (fastforce simp: windows_inv_def split: option.splits)

lemma login_on_remote_windows:
  assumes "windows_inv t0 seen (s, w)" and "length seen < 2 ^ 32 - 1" and "t0 \<le> p_now p"
    and "login_on_remote mp (p_now p) m (s, w) = (f, s', w')"
  shows "windows_inv t0 (seen @ [p]) (s', w')"
proof (cases "\<exists>uid h. wrapped m = Some (LoginRequest uid h) \<and> ls_account s = None")
  case False
  with assms(4) have "ls_login_window s' = ls_login_window s \<and>
      ls_login_attempts s' = ls_login_attempts s \<and> spawned w' = spawned w"
    by (auto simp: login_on_remote_def on_login_request_def send_login_failure_def Let_def
        dest!: login_send_flow_frame split: option.splits payload.splits if_splits)
  then show ?thesis by (intro windows_inv_frame [OF assms(1)]) auto
next
  case True
  then obtain uid h where m: "wrapped m = Some (LoginRequest uid h)" "ls_account s = None" by blast
  obtain granted s1 where c: "try_consume_login_attempt (p_now p) s = (granted, s1)"
    by (rule prod.exhaust)
  with assms(4) m have "ls_login_window s' = ls_login_window s1 \<and>
      ls_login_attempts s' = ls_login_attempts s1 \<and>
      (spawned w' = spawned w \<or> granted \<and> (\<exists>x. spawned w' = spawned w @ [x]))"
    by (auto simp: login_on_remote_def on_login_request_def send_login_failure_def
        dest!: login_send_flow_frame split: if_splits)
  then have same: "ls_login_window s' = ls_login_window s1" "ls_login_attempts s' = ls_login_attempts s1"
    and w': "w\<lparr>spawned := spawned w'\<rparr> = w \<or>
      granted \<and> length (spawned (w\<lparr>spawned := spawned w'\<rparr>)) = length (spawned w) + 1" by auto
  have "windows_inv t0 (seen @ [p]) (s1, w\<lparr>spawned := spawned w'\<rparr>)"
    by (rule windows_inv_consume [OF assms(1-3) c w'])
  then show ?thesis by (rule windows_inv_frame) (simp_all add: same)
qed

lemma on_login_outcome_windows:
  assumes "windows_inv t0 seen (s, w)" and "on_login_outcome mp now i (s, w) = (f, s', w')"
  shows "windows_inv t0 seen (s', w')"
proof -
  from assms(2) have "ls_login_window s' = ls_login_window s \<and>
      ls_login_attempts s' = ls_login_attempts s \<and> spawned w' = spawned w"
    by (auto simp: on_login_outcome_def send_login_failure_def dest!: login_send_flow_frame
        split: login_outcome.splits)
  then show ?thesis by (intro windows_inv_frame [OF assms(1)]) auto
qed

definition bounded_run :: "instant \<Rightarrow> ('k, login_outcome) poll list \<Rightarrow> bool" where
  "bounded_run t0 ps \<longleftrightarrow> (\<forall>p\<in>set ps. t0 \<le> p_now p) \<and> length ps < 2 ^ 32"

lemma login_step_windows:
  assumes "windows_inv t0 seen (s, w)" and "bounded_run t0 (seen @ [p])"
    and "loop_step (login_actor mp t) kick p (s, w) = (f, s', w')"
  shows "windows_inv t0 (seen @ [p]) (s', w')"
proof -
  obtain s1 w1 where w1: "wake (login_actor mp t) p (s, w) = (s1, w1)" by (rule prod.exhaust)
  have I: "windows_inv t0 seen (s1, w1)"
    by (rule windows_inv_frame [OF assms(1)]) (use w1 in \<open>auto simp: wake_def login_step_simps\<close>)
  from assms(3) show ?thesis
  proof (cases rule: loop_step_cases)
    case none
    with w1 I show ?thesis by (auto intro: windows_inv_frame)
  next
    case (remote m)
    with w1 I assms(2) show ?thesis
      by (intro login_on_remote_windows) (auto simp: login_step_simps bounded_run_def)
  next
    case (inner i)
    with w1 have "on_login_outcome mp (p_now p) i (s1, w1) = (f, s', w')" by (simp add: login_step_simps)
    from on_login_outcome_windows [OF I this] show ?thesis by (rule windows_inv_frame) auto
  qed
qed

lemma login_loop_windows:
  assumes run: "event_loop (login_actor mp t) kick ps (s, w) = (f, s', w')"
    and "windows_inv t0 [] (s, w)" and "bounded_run t0 ps"
  shows "windows_inv t0 ps (s', w')"
proof -
  let ?I = "\<lambda>seen st. bounded_run t0 seen \<longrightarrow> windows_inv t0 seen st"
  have "\<exists>seen rest. ps = seen @ rest \<and> ?I seen (s', w') \<and> (f = Continue \<longrightarrow> rest = [])"
  proof (rule event_loop_steps [where I = ?I, OF run])
    show "?I [] (s, w)" using assms(2) by simp
  next
    fix seen :: "('b, login_outcome) poll list" and p f and st st' :: "('a, 'b) login_state"
    assume "?I seen st" "loop_step (login_actor mp t) kick p st = (f, st')"
    then show "?I (seen @ [p]) st'"
      using login_step_windows [of t0 seen "fst st" "snd st" p mp t kick f "fst st'" "snd st'"]
      by (auto simp: bounded_run_def)
  qed
  then obtain seen rest where "ps = seen @ rest" "?I seen (s', w')" by blast
  with assms(3) show ?thesis by (auto simp: bounded_run_def intro: windows_inv_frame)
qed

text \<open>
  C13. However often a client asks, a connection starts at most five password checks per minute: in
  a run that lasts less than \<open>k\<close> minutes at most \<open>5 * k\<close>, from its first to its last message.
\<close>

theorem login_rate_limit:
  assumes "login_event_loop mp t kick ps (login_session_new i ob now, world_new r) = (f, s', w')"
    and "\<forall>p\<in>set ps. t0 \<le> p_now p \<and> p_now p < t0 + k * from_secs 60"
    and "length ps < 2 ^ 32"
  shows "length (spawned w') \<le> 5 * k"
proof -
  let ?s = "login_session_new i ob now"
  obtain x ob' where x: "outbox_send mp (ConnectedResponse 0) (ls_outbox ?s) = (x, ob')"
    by (rule prod.exhaust)
  show ?thesis
  proof (cases x)
    case (Inl e)
    with x assms(1) show ?thesis by (auto simp: login_event_loop_def world_new_def)
  next
    case (Inr u)
    with x assms(1) have run: "event_loop (login_actor mp t) kick ps
        (?s\<lparr>ls_outbox := ob'\<rparr>, world_new r) = (f, s', w')"
      by (simp add: login_event_loop_def)
    have "windows_inv t0 [] (?s\<lparr>ls_outbox := ob'\<rparr>, world_new r)"
      by (simp add: windows_inv_def login_session_new_def world_new_def)
    from login_loop_windows [OF run this] assms(2,3) have I: "windows_inv t0 ps (s', w')"
      by (simp add: bounded_run_def)
    show ?thesis
    proof (cases "ls_login_window s'")
      case None
      with I show ?thesis by (simp add: windows_inv_def)
    next
      case (Some start)
      with I obtain n where n: "t0 + n * from_secs 60 \<le> start" "start \<in> p_now ` set ps"
        "length (spawned w') \<le> 5 * n + min 5 (unat (ls_login_attempts s'))"
        by (auto simp: windows_inv_def LOGIN_ATTEMPT_WINDOW_def)
      from n(2) assms(2) have "start < t0 + k * from_secs 60" by auto
      with n(1) have "n < k" by (simp add: from_secs_def)
      with n(3) show ?thesis by simp
    qed
  qed
qed

definition six_attempts :: "(nat, login_outcome) poll list" where
  "six_attempts =
     [frame_at 0 (LoginRequest ''u'' [1]), frame_at 1 (LoginRequest ''u'' [2]),
      frame_at 2 (LoginRequest ''u'' [3]), frame_at 3 (LoginRequest ''u'' [4]),
      frame_at 4 (LoginRequest ''u'' [5]), frame_at 5 (LoginRequest ''u'' [6])]"

theorem login_rate_limit_witness:
  "\<exists>s' w'. login_event_loop sample_mpsc KEEP_ALIVE_TIMEOUT 9 six_attempts
      (login_session_new 4 (sample_outbox 4) 0, world_new registry_default) = (Continue, s', w') \<and>
    length (spawned w') = 5 \<and> length (spawned w') \<le> 5 * 1"
proof -
  obtain s' w' where run: "login_event_loop sample_mpsc KEEP_ALIVE_TIMEOUT 9 six_attempts
      (login_session_new 4 (sample_outbox 4) 0, world_new registry_default) = (Continue, s', w')"
    and five: "length (spawned w') = 5"
    by (simp add: six_attempts_def login_event_loop_def loop_step_polls login_step_simps(1,2)
        login_handler_defs try_consume_login_attempt_def LOGIN_ATTEMPTS_PER_WINDOW_def
        LOGIN_ATTEMPT_WINDOW_def duration_since_def
        login_send_flow_def outbox_send_def send_flow_def sample_defs const_defs outgoing_def
        login_session_new_def world_new_def)
  from login_rate_limit [OF run, of 0 1] run five show ?thesis
    by (simp add: six_attempts_def frame_at_def from_secs_def)
qed

section \<open>What a login needs, and what it answers\<close>

text \<open>
  C12. Nothing happens without the right password: the login task changes the stores beyond looking
  up the account, or reports success, only if that account exists, its stored hash verifies
  against what the client sent, and it is not banned. A success carries the user of that row and
  the token the store issued for its account id, after the login time was recorded.
\<close>

theorem login_needs_password:
  assumes "login_authenticate cr be joined uid h b = (outcome, b')"
    and "b' \<noteq> snd (find_account be uid b) \<or> outcome = LoginSuccess a token"
  shows "\<exists>row b1. find_account be uid b = (Inr (Some row), b1) \<and>
    verify cr h (ar_password_hash row) (ar_salt row) = Inr True \<and> ar_status row \<noteq> 1 \<and>
    (outcome = LoginSuccess a token \<longrightarrow>
      la_user_id a = ar_user_id row \<and>
      (\<exists>b2. touch_last_login be (ar_account_id row) b1 = (Inr (), b2) \<and>
        issue_token be (ar_account_id row) (ar_user_id row) b2 = (Inr (Some token), b')))"
  using assms
  by (auto simp: login_authenticate_def Let_def
      split: prod.splits sum.splits option.splits bool.splits if_splits)

text \<open>A backend whose state lists what was done to it; it knows one account.\<close>

definition sample_row :: account_row where
  "sample_row = \<lparr>ar_account_id = 7, ar_user_id = ''u'', ar_password_hash = cr_encode toy_crypto [1, 9],
     ar_salt = cr_encode toy_crypto [9], ar_status = 0\<rparr>"

definition sample_backend :: "string list login_backend" where
  "sample_backend =
     \<lparr>find_account = (\<lambda>u b. (Inr (if u = ''u'' then Some sample_row else None), b)),
      touch_last_login = (\<lambda>i b. (Inr (), b @ [''touch''])),
      issue_token = (\<lambda>i u b. (Inr (Some ''x''), b @ [''issue'']))\<rparr>"

lemma sample_verify: "verify toy_crypto h (ar_password_hash sample_row) (ar_salt sample_row) = Inr (h = [1])"
proof -
  have "generate_stored_hash toy_crypto [9] [1] = (ar_password_hash sample_row, ar_salt sample_row)"
    by (simp add: sample_row_def generate_stored_hash_def derive_def toy_crypto_def)
  from verify_generated [OF crypto_laws_toy this, of h] show ?thesis
    by (simp add: derive_def toy_crypto_def)
qed

theorem login_needs_password_witness:
  "login_authenticate toy_crypto sample_backend True ''u'' [1] [] =
      (LoginSuccess \<lparr>la_user_id = ''u''\<rparr> ''x'', [''touch'', ''issue'']) \<and>
    (\<exists>row :: account_row. verify toy_crypto [1] (ar_password_hash row) (ar_salt row) = Inr True \<and> ar_status row \<noteq> 1)"
proof -
  have run: "login_authenticate toy_crypto sample_backend True ''u'' [1] [] =
      (LoginSuccess \<lparr>la_user_id = ''u''\<rparr> ''x'', [''touch'', ''issue''])"
    using sample_verify by (simp add: login_authenticate_def sample_backend_def) (simp add: sample_row_def)
  from login_needs_password [OF run disjI2 [OF refl]] run show ?thesis by blast
qed

fun login_reply_of :: "login_outcome \<Rightarrow> payload" where
  "login_reply_of (LoginSuccess _ token) = LoginResponse True 0 token"
| "login_reply_of (LoginFailure code) = LoginResponse False (login_code code) []"
| "login_reply_of LoginDbError = ErrorResponse 3"

lemma login_send_flow_room:
  assumes "mpsc_laws MAX_SEND_QUEUE_SIZE mp" and "has_room mp (ls_outbox s)"
  shows "\<exists>ob. login_send_flow mp m (s, w) = (Continue, s\<lparr>ls_outbox := ob\<rparr>, w) \<and>
    queued mp ob = queued mp (ls_outbox s) @ [outgoing m]"
  using send_flow_spec(1,2) [OF assms(1), of m "ls_outbox s"] assms(2)
  by (auto simp: login_send_flow_def split: prod.splits)

lemma on_login_outcome_room:
  assumes "mpsc_laws MAX_SEND_QUEUE_SIZE mp" and "has_room mp (ls_outbox s)"
  shows "\<exists>s' w'. on_login_outcome mp now outcome (s, w) = (Continue, s', w') \<and>
    queued mp (ls_outbox s') = queued mp (ls_outbox s) @ [outgoing (login_reply_of outcome)] \<and>
    ls_account s' = (case outcome of LoginSuccess a _ \<Rightarrow> Some a | _ \<Rightarrow> ls_account s) \<and>
    (registry w', cancelled w') = (case outcome of
        LoginSuccess a _ \<Rightarrow>
          registry_step (Authenticate (ls_session_id s) (la_user_id a)) (registry w, cancelled w)
      | _ \<Rightarrow> (registry w, cancelled w))"
proof -
  note sends = login_send_flow_room [OF assms(1)]
  show ?thesis
  proof (cases outcome)
    case (LoginSuccess a token)
    let ?s = "s\<lparr>ls_account := Some a, ls_last_keep_alive := now\<rparr>"
    have "has_room mp (ls_outbox ?s)" using assms(2) by simp
    from sends [OF this, of "LoginResponse True 0 token" "world_authenticate (ls_session_id s) (la_user_id a) w"]
    show ?thesis by (auto simp: LoginSuccess on_login_outcome_def split: prod.split)
  next
    case (LoginFailure code)
    with sends [OF assms(2), of "LoginResponse False (login_code code) []" w] show ?thesis
      by (auto simp: on_login_outcome_def send_login_failure_def)
  next
    case LoginDbError
    with sends [OF assms(2), of "ErrorResponse 3" w] show ?thesis
      by (auto simp: on_login_outcome_def LOGIN_DB_ERROR_CODE_def)
  qed
qed

text \<open>
  What the client is told, as a specification. A request is refused at once with code 1 when the
  session is logged in, with code 4 when five attempts have been made in a window of 60 seconds that
  is still open, and with code 1 when the user or the hash is empty.
\<close>

definition request_refusal :: "instant \<Rightarrow> 'c login_session \<Rightarrow> string \<Rightarrow> bytes \<Rightarrow> i32 option" where
  "request_refusal now s uid h =
     (if ls_account s \<noteq> None then Some 1
      else if (case ls_login_window s of
                 None \<Rightarrow> False
               | Some start \<Rightarrow> duration_since now start < from_secs 60 \<and> 5 < ls_login_attempts s + 1)
      then Some 4
      else if uid = [] \<or> h = [] then Some 1 else None)"

text \<open>
  Otherwise the task's answer is a code or an error, or success with the token; with it, the user
  the session is logged in as, if any.
\<close>

definition login_answer :: "crypto \<Rightarrow> 'b login_backend \<Rightarrow> bool \<Rightarrow> string \<Rightarrow> bytes \<Rightarrow> 'b \<Rightarrow>
    payload \<times> string option" where
  "login_answer cr be joined uid h b =
     (case find_account be uid b of
        (Inl _, _) \<Rightarrow> (ErrorResponse 3, None)
      | (Inr None, _) \<Rightarrow> (LoginResponse False 1 [], None)
      | (Inr (Some row), b1) \<Rightarrow>
          if \<not> joined \<or> isl (verify cr h (ar_password_hash row) (ar_salt row)) then (ErrorResponse 3, None)
          else if verify cr h (ar_password_hash row) (ar_salt row) = Inr False
          then (LoginResponse False 1 [], None)
          else if ar_status row = 1 then (LoginResponse False 2 [], None)
          else (case touch_last_login be (ar_account_id row) b1 of
              (Inl _, _) \<Rightarrow> (ErrorResponse 3, None)
            | (Inr _, b2) \<Rightarrow>
                (case fst (issue_token be (ar_account_id row) (ar_user_id row) b2) of
                   Inr (Some token) \<Rightarrow> (LoginResponse True 0 token, Some (ar_user_id row))
                 | _ \<Rightarrow> (LoginResponse False 3 [], None))))"

lemma login_answer_outcome:
  "login_answer cr be joined uid h b =
    (case fst (login_authenticate cr be joined uid h b) of
       LoginSuccess a token \<Rightarrow> (LoginResponse True 0 token, Some (la_user_id a))
     | outcome \<Rightarrow> (login_reply_of outcome, None))"
proof -
  obtain r b1 where find: "find_account be uid b = (r, b1)" by (rule prod.exhaust)
  show ?thesis
  proof (cases "\<exists>row. r = Inr (Some row)")
    case False
    then show ?thesis
      by (auto simp: login_answer_def login_authenticate_def find split: sum.split option.split)
  next
    case True
    then obtain row where r: "r = Inr (Some row)" ..
    obtain t b2 where t: "touch_last_login be (ar_account_id row) b1 = (t, b2)" by (rule prod.exhaust)
    obtain i b3 where i: "issue_token be (ar_account_id row) (ar_user_id row) b2 = (i, b3)"
      by (rule prod.exhaust)
    show ?thesis
      by (cases "verify cr h (ar_password_hash row) (ar_salt row)"; cases t; cases i)
        (auto simp: login_answer_def login_authenticate_def find r t i split: option.split bool.split)
  qed
qed

lemma login_request_answer:
  assumes "mpsc_laws MAX_SEND_QUEUE_SIZE mp" and "has_room mp (ls_outbox s)"
    and "request_refusal now s uid h = refused"
  shows "\<exists>s1 w1. login_on_remote mp now (outgoing (LoginRequest uid h)) (s, w) = (Continue, s1, w1) \<and>
    queued mp (ls_outbox s1) = queued mp (ls_outbox s) @
      (case refused of None \<Rightarrow> [] | Some code \<Rightarrow> [outgoing (LoginResponse False code [])]) \<and>
    spawned w1 = spawned w @ (case refused of None \<Rightarrow> [Authenticate_Login uid h] | Some _ \<Rightarrow> []) \<and>
    ls_account s1 = ls_account s \<and> registry w1 = registry w \<and> cancelled w1 = cancelled w"
proof -
  obtain granted s1 where attempt: "try_consume_login_attempt now s = (granted, s1)" by (rule prod.exhaust)
  note frame = try_consume_frame [OF attempt]
  have room: "has_room mp (ls_outbox s1)" using assms(2) frame by simp
  note sends = login_send_flow_room [OF assms(1,2), of "LoginResponse False 1 []" w]
    login_send_flow_room [OF assms(1) room, of "LoginResponse False 1 []" w]
    login_send_flow_room [OF assms(1) room, of "LoginResponse False 4 []" w]
  have granted: "\<not> granted \<longleftrightarrow> (case ls_login_window s of None \<Rightarrow> False
      | Some start \<Rightarrow> duration_since now start < from_secs 60 \<and> 5 < ls_login_attempts s + 1)"
    using attempt by (auto simp: try_consume_login_attempt_def Let_def LOGIN_ATTEMPT_WINDOW_def
        LOGIN_ATTEMPTS_PER_WINDOW_def not_less not_le split: option.splits if_splits)
  have handled: "login_on_remote mp now (outgoing (LoginRequest uid h)) (s, w) =
      (if ls_account s \<noteq> None then login_send_flow mp (LoginResponse False 1 []) (s, w)
       else if \<not> granted then login_send_flow mp (LoginResponse False 4 []) (s1, w)
       else if uid = [] \<or> h = [] then login_send_flow mp (LoginResponse False 1 []) (s1, w)
       else (Continue, s1, spawn (Authenticate_Login uid h) w))"
    by (simp add: login_on_remote_def on_login_request_def send_login_failure_def attempt outgoing_def)
  have refused: "refused = (if ls_account s \<noteq> None then Some 1 else if \<not> granted then Some 4
      else if uid = [] \<or> h = [] then Some 1 else None)"
    unfolding granted using assms(3) by (simp add: request_refusal_def)
  consider (logged_in) "ls_account s \<noteq> None" | (limited) "ls_account s = None" "\<not> granted"
    | (blank) "ls_account s = None" "granted" "uid = [] \<or> h = []"
    | (tried) "ls_account s = None" "granted" "\<not> (uid = [] \<or> h = [])" by blast
  then show ?thesis
    by cases (use sends frame in \<open>auto simp: handled refused\<close>)
qed

text \<open>
  C25. Every login request a session handles while its queue has room is answered as specified, with
  the protocol's codes. At once: code 1 when the session is already logged in, code 4 when the
  window's five attempts are used up, code 1 for an empty user or hash; only otherwise, and without
  an answer yet, exactly one login task for this user and hash starts. By the task's outcome,
  whatever the stores answer: code 1 for an unknown account and for a wrong password (checked before
  the ban), code 2 for a banned account, code 3 when no token could be issued, an \<open>ErrorResponse\<close> 3 when
  the database fails, the stored hash is malformed or the verifying thread dies; only otherwise
  success and the token. With success, and with nothing else, the session's account becomes that user
  and the registry authenticates the session as that user.
\<close>

theorem login_answers:
  assumes "mpsc_laws MAX_SEND_QUEUE_SIZE mp" and "has_room mp (ls_outbox s)"
    and "request_refusal now s uid h = refused" and "login_answer cr be joined uid h b = (answer, user)"
  shows "(\<exists>s1 w1. login_on_remote mp now (outgoing (LoginRequest uid h)) (s, w) = (Continue, s1, w1) \<and>
      queued mp (ls_outbox s1) = queued mp (ls_outbox s) @
        (case refused of None \<Rightarrow> [] | Some code \<Rightarrow> [outgoing (LoginResponse False code [])]) \<and>
      spawned w1 = spawned w @ (case refused of None \<Rightarrow> [Authenticate_Login uid h] | Some _ \<Rightarrow> []) \<and>
      ls_account s1 = ls_account s \<and> registry w1 = registry w \<and> cancelled w1 = cancelled w) \<and>
    (\<exists>s2 w2. on_login_outcome mp now (fst (login_authenticate cr be joined uid h b)) (s, w) =
        (Continue, s2, w2) \<and>
      queued mp (ls_outbox s2) = queued mp (ls_outbox s) @ [outgoing answer] \<and>
      ls_account s2 = (case user of None \<Rightarrow> ls_account s | Some u \<Rightarrow> Some \<lparr>la_user_id = u\<rparr>) \<and>
      (registry w2, cancelled w2) = (case user of
          None \<Rightarrow> (registry w, cancelled w)
        | Some u \<Rightarrow> registry_step (Authenticate (ls_session_id s) u) (registry w, cancelled w)))"
proof -
  let ?outcome = "fst (login_authenticate cr be joined uid h b)"
  have "(\<exists>s2 w2. on_login_outcome mp now ?outcome (s, w) = (Continue, s2, w2) \<and>
      queued mp (ls_outbox s2) = queued mp (ls_outbox s) @ [outgoing answer] \<and>
      ls_account s2 = (case user of None \<Rightarrow> ls_account s | Some u \<Rightarrow> Some \<lparr>la_user_id = u\<rparr>) \<and>
      (registry w2, cancelled w2) = (case user of
          None \<Rightarrow> (registry w, cancelled w)
        | Some u \<Rightarrow> registry_step (Authenticate (ls_session_id s) u) (registry w, cancelled w)))"
    using on_login_outcome_room [OF assms(1,2), of now ?outcome w] assms(4)
    by (cases ?outcome) (auto simp: login_answer_outcome)
  with login_request_answer [OF assms(1-3), of w] show ?thesis by blast
qed

text \<open>
  A right password; and, with a session whose five attempts are used up, a refusal without a task.
\<close>

theorem login_answers_witness:
  "(\<exists>s2 w2. on_login_outcome sample_mpsc 5
      (fst (login_authenticate toy_crypto sample_backend True ''u'' [1] []))
      (login_session_new 4 (sample_outbox 4) 0, world_new registry_default :: (nat, login_work) world) =
        (Continue, s2, w2) \<and>
    queued sample_mpsc (ls_outbox s2) = [outgoing (LoginResponse True 0 ''x'')] \<and>
    ls_account s2 = Some \<lparr>la_user_id = ''u''\<rparr> \<and> authenticated (registry w2) ''u'' = Some 4) \<and>
   (\<exists>s1 w1. login_on_remote sample_mpsc 5 (outgoing (LoginRequest ''u'' [1]))
      (login_session_new 4 (sample_outbox 4) 0 \<lparr>ls_login_window := Some 1, ls_login_attempts := 5\<rparr>,
       world_new registry_default :: (nat, login_work) world) = (Continue, s1, w1) \<and>
    queued sample_mpsc (ls_outbox s1) = [outgoing (LoginResponse False 4 [])] \<and> spawned w1 = [])"
proof -
  let ?s = "login_session_new 4 (sample_outbox 4) 0"
  let ?l = "?s\<lparr>ls_login_window := Some 1, ls_login_attempts := 5\<rparr>"
  let ?w = "world_new registry_default :: (nat, login_work) world"
  have room: "has_room sample_mpsc (ls_outbox ?s)" "has_room sample_mpsc (ls_outbox ?l)"
    and empty: "queued sample_mpsc (ls_outbox ?s) = []" "queued sample_mpsc (ls_outbox ?l) = []"
    by (simp_all add: has_room_def login_session_new_def sample_defs const_defs)
  have refused: "request_refusal 5 ?s ''u'' [1] = None" "request_refusal 5 ?l ''u'' [1] = Some 4"
    by (simp_all add: request_refusal_def login_session_new_def duration_since_def from_secs_def)
  have answer: "login_answer toy_crypto sample_backend True ''u'' [1] [] =
      (LoginResponse True 0 ''x'', Some ''u'')"
    using sample_verify by (simp add: login_answer_def sample_backend_def) (simp add: sample_row_def)
  from login_answers [OF mpsc_laws_sample room(1) refused(1) answer, of ?w, unfolded empty]
  have "\<exists>s2 w2. on_login_outcome sample_mpsc 5
      (fst (login_authenticate toy_crypto sample_backend True ''u'' [1] [])) (?s, ?w) = (Continue, s2, w2) \<and>
    queued sample_mpsc (ls_outbox s2) = [outgoing (LoginResponse True 0 ''x'')] \<and>
    ls_account s2 = Some \<lparr>la_user_id = ''u''\<rparr> \<and> authenticated (registry w2) ''u'' = Some 4"
    by (auto simp: login_session_new_def world_new_def authenticate_observers split: prod.splits)
  moreover from login_answers [OF mpsc_laws_sample room(2) refused(2) answer, of ?w, unfolded empty]
  have "\<exists>s1 w1. login_on_remote sample_mpsc 5 (outgoing (LoginRequest ''u'' [1])) (?l, ?w) =
      (Continue, s1, w1) \<and>
    queued sample_mpsc (ls_outbox s1) = [outgoing (LoginResponse False 4 [])] \<and> spawned w1 = []"
    by (simp add: world_new_def) blast
  ultimately show ?thesis ..
qed

text \<open>
  LoginServer's sessions use the registry as GameServer's do: while a session goes on, the
  registry goes through the operations of the other tasks and one \<open>authenticate\<close> of this session for
  every successful login it was told of, and nothing else.
\<close>

theorem login_run_is_registry_history:
  assumes "event_loop (login_actor mp t) kick ps (s, w) = (Continue, s', w')"
  shows "(registry w', cancelled w') =
      fold registry_step (concat (map (poll_ops login_identity (ls_session_id s)) ps))
        (registry w, cancelled w) \<and>
    (ls_account s' \<noteq> None \<longleftrightarrow>
      ls_account s \<noteq> None \<or> (\<exists>p\<in>set ps. delivered login_identity p \<noteq> None))"
  using login.run_effects [OF assms] by (simp add: login_authed_def)

theorem login_run_is_registry_history_witness:
  "\<exists>s' w'. event_loop (login_actor sample_mpsc KEEP_ALIVE_TIMEOUT) 9
      [inner_at 5 (LoginSuccess \<lparr>la_user_id = ''u''\<rparr> ''x'')]
      (login_session_new 4 (sample_outbox 4) 0, world_new (register 4 9 registry_default)) =
        (Continue, s', w') \<and>
    (registry w', cancelled w') =
      registry_step (Authenticate 4 ''u'') (register 4 (9 :: nat) registry_default, {})"
proof -
  let ?s = "login_session_new 4 (sample_outbox 4) 0" and ?w = "world_new (register 4 (9 :: nat) registry_default)"
  let ?ps = "[inner_at 5 (LoginSuccess \<lparr>la_user_id = ''u''\<rparr> ''x'')]"
  obtain s' w' where run: "event_loop (login_actor sample_mpsc KEEP_ALIVE_TIMEOUT) 9 ?ps (?s, ?w) =
      (Continue, s', w')"
    by (simp add: loop_step_polls login_step_simps(1,2) login_handler_defs login_send_flow_def
        login_session_new_def sample_send world_new_def)
  from login_run_is_registry_history [OF run] run show ?thesis
    by (simp add: poll_ops_def delivered_def inner_at_def login_identity_def login_session_new_def
        world_new_def)
qed

interpretation login: identified_actor "login_actor mp keep_alive_timeout" ls_session_id login_authed
  ls_last_keep_alive keep_alive_timeout login_allowed login_identity
  "\<lambda>s. map_option la_user_id (ls_account s)"
proof (unfold_locales, goal_cases)
  case (3 now m s w f s' w')
  then show ?case by (auto simp: login_step_simps dest: login_on_remote_fields)
next
  case (4 now i s w f s' w')
  then show ?case
    by (auto simp: login_step_simps on_login_outcome_def send_login_failure_def login_identity_def
        dest!: login_send_flow_frame split: login_outcome.splits)
qed (simp_all add: login_authed_def login_step_simps)

end
