(* ===== verification/Retry.thy ===== *)
theory Retry
  imports Prelude
begin

text \<open>
  The two retry loops of the servers and their back-off: \<open>record_logout\<close> of
  \<open>crates/game_server/src/session.rs\<close> and \<open>subscribe\<close> of \<open>crates/db/src/broadcast.rs\<close>.
\<close>

section \<open>Capped doubling\<close>

locale capped_backoff =
  fixes delay :: "nat \<Rightarrow> duration"
    and base :: duration
    and cap :: duration
  assumes first: "delay 0 = base"
    and doubles: "delay (Suc n) = min (delay n * 2) cap"
    and base_le: "base \<le> cap"
begin

lemma delay_closed: "delay n = min (base * 2 ^ n) cap"
proof (induction n)
  case 0
  show ?case using base_le by (simp add: first)
next
  case (Suc n)
  have "min (min a cap * 2) cap = min (a * 2) cap" for a :: nat by (simp add: min_def)
  with Suc show ?case by (simp add: doubles mult_ac)
qed

lemma delay_le: "delay n \<le> cap"
  by (simp add: delay_closed)

lemma delay_ge: "base \<le> delay n"
  using base_le by (simp add: delay_closed)

lemma delay_mono: "m \<le> n \<Longrightarrow> delay m \<le> delay n"
  unfolding delay_closed by (intro min.mono mult_left_mono power_increasing) simp_all

lemma total_le: "sum_list (map delay ns) \<le> cap * length ns"
  by (induction ns) (simp_all add: add_mono delay_le)

end

section \<open>Recording a logout\<close>

definition LOGOUT_RETRY_BASE_DELAY :: duration where
  "LOGOUT_RETRY_BASE_DELAY = from_millis 500"

definition LOGOUT_RETRY_MAX_DELAY :: duration where
  "LOGOUT_RETRY_MAX_DELAY = from_secs 30"

lemmas logout_const_defs = LOGOUT_RETRY_BASE_DELAY_def LOGOUT_RETRY_MAX_DELAY_def from_secs_def
  from_millis_def

definition logout_delay :: "u32 \<Rightarrow> duration" where
  "logout_delay attempt =
     min (LOGOUT_RETRY_BASE_DELAY * 2 ^ unat (min attempt 10)) LOGOUT_RETRY_MAX_DELAY"

datatype logout_end = Recorded | Abandoned

text \<open>
  \<open>touch\<close> is \<open>backend.touch_last_login(account_id)\<close> on the backend's state; \<open>stopped\<close> says whether the
  shutdown token wins the \<open>select!\<close> against the sleep after that attempt. The result: the delays slept,
  how the loop ended, and the backend. The loop need not end, so it has fuel.
\<close>

fun record_logout :: "nat \<Rightarrow> ('b \<Rightarrow> bool \<times> 'b) \<Rightarrow> (u32 \<Rightarrow> bool) \<Rightarrow> u32 \<Rightarrow> 'b \<Rightarrow>
    (duration list \<times> logout_end \<times> 'b) option" where
  "record_logout 0 touch stopped attempt b = None"
| "record_logout (Suc fuel) touch stopped attempt b =
     (case touch b of
        (True, b') \<Rightarrow> Some ([], Recorded, b')
      | (False, b') \<Rightarrow>
          (let delay = logout_delay attempt in
           if stopped attempt then Some ([], Abandoned, b')
           else map_option (\<lambda>(ds, e, b''). (delay # ds, e, b''))
             (record_logout fuel touch stopped (attempt + 1) b')))"

definition logout_delay_nat :: "nat \<Rightarrow> duration" where
  "logout_delay_nat n = min (LOGOUT_RETRY_BASE_DELAY * 2 ^ min n 10) LOGOUT_RETRY_MAX_DELAY"

interpretation logout: capped_backoff logout_delay_nat LOGOUT_RETRY_BASE_DELAY LOGOUT_RETRY_MAX_DELAY
proof
  fix n
  show "logout_delay_nat (Suc n) = min (logout_delay_nat n * 2) LOGOUT_RETRY_MAX_DELAY"
  proof (cases "n < 10")
    case True
    then show ?thesis by (simp add: logout_delay_nat_def min_def)
  next
    case False
    then show ?thesis by (simp add: logout_delay_nat_def logout_const_defs)
  qed
qed (simp_all add: logout_delay_nat_def logout_const_defs)

lemma logout_delay_of_nat:
  assumes "n < 2 ^ 32"
  shows "logout_delay (of_nat n) = logout_delay_nat n"
proof -
  have "unat (of_nat n :: u32) = n" using assms by (simp add: unat_of_nat)
  then have "unat (min (of_nat n :: u32) 10) = min n 10"
    by (simp add: min_def word_le_nat_alt)
  then show ?thesis by (simp add: logout_delay_def logout_delay_nat_def)
qed

text \<open>The delays: doubled from half a second, and thirty seconds from the seventh on.\<close>

lemma logout_delays_list:
  "map logout_delay_nat [0..<n] =
    take n ([from_millis 500, from_secs 1, from_secs 2, from_secs 4, from_secs 8, from_secs 16] @
      replicate n (from_secs 30))"
proof (rule nth_equalityI)
  fix i
  assume i: "i < length (map logout_delay_nat [0..<n])"
  then have "i < n" by simp
  have "from_secs 30 \<le> LOGOUT_RETRY_BASE_DELAY * 2 ^ i" if "6 \<le> i"
  proof -
    have "(2 :: nat) ^ 6 \<le> 2 ^ i" using that by (rule power_increasing) simp
    then show ?thesis by (simp add: logout_const_defs)
  qed
  then have "logout_delay_nat i = from_secs 30" if "6 \<le> i"
    using that logout.delay_closed [of i] by (simp add: LOGOUT_RETRY_MAX_DELAY_def)
  moreover have "i \<in> {0, 1, 2, 3, 4, 5} \<or> 6 \<le> i" by auto
  ultimately show "map logout_delay_nat [0..<n] ! i =
      take n ([from_millis 500, from_secs 1, from_secs 2, from_secs 4, from_secs 8, from_secs 16] @
        replicate n (from_secs 30)) ! i"
    using \<open>i < n\<close> by (auto simp: nth_append nth_Cons' logout_delay_nat_def logout_const_defs)
qed simp

text \<open>The backend after \<open>n\<close> attempts.\<close>

definition after_attempts :: "('b \<Rightarrow> bool \<times> 'b) \<Rightarrow> nat \<Rightarrow> 'b \<Rightarrow> 'b" where
  "after_attempts touch n b = ((snd \<circ> touch) ^^ n) b"

lemma after_attempts_Suc: "after_attempts touch (Suc n) b = after_attempts touch n (snd (touch b))"
  by (simp add: after_attempts_def funpow_swap1)

lemma record_logout_run:
  assumes "\<forall>k<n. \<not> fst (touch (after_attempts touch k b))"
    and "\<forall>k<n. \<not> stopped (a + of_nat k)"
  shows "record_logout (n + fuel) touch stopped a b =
    map_option (\<lambda>(ds, e, b'). (map (\<lambda>k. logout_delay (a + of_nat k)) [0..<n] @ ds, e, b'))
      (record_logout fuel touch stopped (a + of_nat n) (after_attempts touch n b))"
  using assms
proof (induction n arbitrary: a b)
  case 0
  then show ?case by (simp add: after_attempts_def option.map_ident case_prod_unfold)
next
  case (Suc n)
  obtain b' where b': "touch b = (False, b')"
    using Suc.prems(1) by (cases "touch b") (auto simp: after_attempts_def dest!: spec [of _ 0])
  have "\<not> stopped a" using Suc.prems(2) by (auto dest: spec [of _ 0])
  moreover have "\<forall>k<n. \<not> fst (touch (after_attempts touch k b'))"
    using Suc.prems(1) by (metis Suc_less_eq after_attempts_Suc b' snd_conv)
  moreover have "\<forall>k<n. \<not> stopped (a + 1 + of_nat k)"
    using Suc.prems(2) by (metis Suc_less_eq add.assoc of_nat_Suc add.commute)
  moreover have "map (\<lambda>k. logout_delay (a + of_nat k)) [0..<Suc n] =
      logout_delay a # map (\<lambda>k. logout_delay (a + 1 + of_nat k)) [0..<n]"
    by (simp add: upt_conv_Cons map_Suc_upt [symmetric] add_ac del: upt_Suc)
  ultimately show ?case
    using b' Suc.IH [of b' "a + 1"]
    by (simp add: after_attempts_Suc option.map_comp comp_def case_prod_unfold add_ac)
qed

lemma after_attempts_snoc: "after_attempts touch (Suc n) b = snd (touch (after_attempts touch n b))"
  by (simp add: after_attempts_def)

text \<open>
  C36. The logout of an account is retried until it is recorded or the server stops: if the first
  \<open>n\<close> attempts fail and the server does not stop, and the next attempt succeeds or the server stops
  after it, the loop ends there, having touched the database exactly once more. It slept 0.5, 1, 2,
  4, 8, 16 and then 30 seconds, between 0.5 and 30 seconds each time.
\<close>

theorem record_logout_retries:
  assumes "\<forall>k<n. \<not> fst (touch (after_attempts touch k b))" and "\<forall>k<n. \<not> stopped (of_nat k)"
    and "fst (touch (after_attempts touch n b)) \<or> stopped (of_nat n)"
    and "n < 2 ^ 32" and "n < fuel"
  shows "record_logout fuel touch stopped 0 b =
      Some (map logout_delay_nat [0..<n],
            if fst (touch (after_attempts touch n b)) then Recorded else Abandoned,
            after_attempts touch (Suc n) b) \<and>
    map logout_delay_nat [0..<n] =
      take n ([from_millis 500, from_secs 1, from_secs 2, from_secs 4, from_secs 8, from_secs 16] @
        replicate n (from_secs 30)) \<and>
    (\<forall>d\<in>set (map logout_delay_nat [0..<n]). from_millis 500 \<le> d \<and> d \<le> from_secs 30)"
proof -
  obtain fuel' where fuel: "fuel = n + Suc fuel'" using assms(5) by (auto simp: less_iff_Suc_add)
  have last: "record_logout (Suc fuel') touch stopped (of_nat n) (after_attempts touch n b) =
      Some ([], if fst (touch (after_attempts touch n b)) then Recorded else Abandoned,
            after_attempts touch (Suc n) b)"
    using assms(3) by (cases "touch (after_attempts touch n b)")
      (auto simp: after_attempts_snoc split: bool.splits)
  have "map (\<lambda>k. logout_delay (0 + of_nat k)) [0..<n] = map logout_delay_nat [0..<n]"
    using assms(4) by (simp add: logout_delay_of_nat)
  then have "record_logout fuel touch stopped 0 b =
      Some (map logout_delay_nat [0..<n],
            if fst (touch (after_attempts touch n b)) then Recorded else Abandoned,
            after_attempts touch (Suc n) b)"
    using record_logout_run [OF assms(1), of stopped 0 "Suc fuel'"] assms(2) last
    by (simp add: fuel del: record_logout.simps)
  moreover have "\<forall>d\<in>set (map logout_delay_nat [0..<n]). from_millis 500 \<le> d \<and> d \<le> from_secs 30"
    using logout.delay_ge logout.delay_le
    by (simp add: LOGOUT_RETRY_BASE_DELAY_def LOGOUT_RETRY_MAX_DELAY_def)
  ultimately show ?thesis using logout_delays_list by blast
qed

text \<open>A database that recovers after some failures.\<close>

definition recovering_touch :: "nat \<Rightarrow> bool \<times> nat" where
  "recovering_touch failures = (failures = 0, failures - 1)"

theorem record_logout_retries_witness:
  "record_logout 3 recovering_touch (\<lambda>_. False) 0 2 =
    Some ([from_millis 500, from_secs 1], Recorded, 0)"
proof -
  have after: "after_attempts recovering_touch k b = b - k" for k b
    by (induction k) (simp_all add: after_attempts_snoc recovering_touch_def,
      simp add: after_attempts_def)
  have delays: "map logout_delay_nat [0..<2] = [from_millis 500, from_secs 1]"
    by (simp add: upt_conv_Cons logout_delay_nat_def logout_const_defs)
  have fails: "\<forall>k<2. \<not> fst (recovering_touch (after_attempts recovering_touch k 2))"
    unfolding after recovering_touch_def by simp
  have "fst (recovering_touch (after_attempts recovering_touch 2 2)) \<or> False"
    unfolding after recovering_touch_def by simp
  then have "record_logout 3 recovering_touch (\<lambda>_. False) 0 2 =
      Some (map logout_delay_nat [0..<2],
            if fst (recovering_touch (after_attempts recovering_touch 2 2)) then Recorded else Abandoned,
            after_attempts recovering_touch (Suc 2) 2)"
    by (intro conjunct1 [OF record_logout_retries [OF fails]]) simp_all
  then show ?thesis unfolding delays after recovering_touch_def by simp
qed

section \<open>Resubscribing to the broadcast channel\<close>

definition RESUBSCRIBE_DELAY_MIN :: duration where
  "RESUBSCRIBE_DELAY_MIN = from_secs 1"

definition RESUBSCRIBE_DELAY_MAX :: duration where
  "RESUBSCRIBE_DELAY_MAX = from_secs 30"

text \<open>
  One turn of the loop: how the \<open>session\<close> future went (a message whose payload is not text is
  \<open>None\<close>), whether the shutdown token ended it, and whether it ended the sleep after it.
\<close>

datatype pubsub_session = ConnectFailed | SubscribeFailed | Subscribed "string option list"

record pubsub_turn =
  ps_session :: pubsub_session
  ps_shutdown_in_session :: bool
  ps_shutdown_in_sleep :: bool

definition on_received_of :: "pubsub_session \<Rightarrow> string list" where
  "on_received_of session =
     (case session of Subscribed ms \<Rightarrow> map the (filter (\<lambda>m. m \<noteq> None) ms) | _ \<Rightarrow> [])"

definition delay_after :: "pubsub_session \<Rightarrow> duration \<Rightarrow> duration" where
  "delay_after session delay =
     (case session of Subscribed _ \<Rightarrow> RESUBSCRIBE_DELAY_MIN | _ \<Rightarrow> delay)"

text \<open>The delays slept, the payloads handed to \<open>on_received\<close>, and whether the function returned.\<close>

fun subscribe_loop :: "duration \<Rightarrow> pubsub_turn list \<Rightarrow> duration list \<times> string list \<times> bool" where
  "subscribe_loop delay [] = ([], [], False)"
| "subscribe_loop delay (t # ts) =
     (let received = on_received_of (ps_session t);
          delay1 = delay_after (ps_session t) delay
      in if ps_shutdown_in_session t then ([], received, True)
         else if ps_shutdown_in_sleep t then ([], received, True)
         else case subscribe_loop (min (delay1 * 2) RESUBSCRIBE_DELAY_MAX) ts of
           (ds, rs, returned) \<Rightarrow> (delay1 # ds, received @ rs, returned))"

definition subscribe :: "pubsub_turn list \<Rightarrow> duration list \<times> string list \<times> bool" where
  "subscribe ts = subscribe_loop RESUBSCRIBE_DELAY_MIN ts"

definition resubscribe_delay :: "nat \<Rightarrow> duration" where
  "resubscribe_delay n = min (RESUBSCRIBE_DELAY_MIN * 2 ^ n) RESUBSCRIBE_DELAY_MAX"

interpretation resub: capped_backoff resubscribe_delay RESUBSCRIBE_DELAY_MIN RESUBSCRIBE_DELAY_MAX
  by unfold_locales
    (simp_all add: resubscribe_delay_def RESUBSCRIBE_DELAY_MIN_def RESUBSCRIBE_DELAY_MAX_def
      from_secs_def min_def)

text \<open>The number of turns since the last one that subscribed, where the start counts as one.\<close>

fun failed_turns :: "nat \<Rightarrow> pubsub_turn list \<Rightarrow> nat list" where
  "failed_turns n [] = []"
| "failed_turns n (t # ts) =
     (let k = (case ps_session t of Subscribed _ \<Rightarrow> 0 | _ \<Rightarrow> n) in k # failed_turns (Suc k) ts)"

definition goes_on :: "pubsub_turn \<Rightarrow> bool" where
  "goes_on t \<longleftrightarrow> \<not> ps_shutdown_in_session t \<and> \<not> ps_shutdown_in_sleep t"

lemma subscribe_loop_eq:
  "subscribe_loop (resubscribe_delay n) ts =
    (let before = takeWhile goes_on ts in
     (map resubscribe_delay (failed_turns n before),
      concat (map (on_received_of \<circ> ps_session) (take (Suc (length before)) ts)),
      length before < length ts))"
proof (induction ts arbitrary: n)
  case Nil
  then show ?case by simp
next
  case (Cons t ts)
  define k where "k = (case ps_session t of Subscribed _ \<Rightarrow> 0 | _ \<Rightarrow> n)"
  have d: "delay_after (ps_session t) (resubscribe_delay n) = resubscribe_delay k"
    using resub.first by (simp add: delay_after_def k_def split: pubsub_session.split)
  show ?case
    using Cons [of "Suc k"]
    by (simp add: d resub.doubles [symmetric] goes_on_def Let_def k_def [symmetric])
qed

lemma on_received_of_eq:
  "on_received_of session = (case session of Subscribed ms \<Rightarrow> List.map_filter (\<lambda>m. m) ms | _ \<Rightarrow> [])"
  by (simp add: on_received_of_def List.map_filter_def comp_def split: pubsub_session.split)

text \<open>
  C39. The broadcast subscription goes on until the shutdown token is cancelled and returns then; up
  to there every text message of every session was handed on, once and in order, and nothing
  else: what is not text is dropped, and a turn that did not subscribe hands on nothing. The delay
  before turn after turn is 1 s doubled for every turn since the channel was last subscribed (at
  first: since the start), at most 30 s.
\<close>

theorem subscribe_resubscribes:
  "subscribe ts =
    (let before = takeWhile goes_on ts in
     (map (\<lambda>n. min (from_secs (2 ^ n)) (from_secs 30)) (failed_turns 0 before),
      concat (map (\<lambda>t. case ps_session t of
          Subscribed ms \<Rightarrow> List.map_filter (\<lambda>m. m) ms
        | _ \<Rightarrow> []) (take (Suc (length before)) ts)),
      length before < length ts))"
proof -
  have "resubscribe_delay = (\<lambda>n. min (from_secs (2 ^ n)) (from_secs 30))"
    by (simp add: resubscribe_delay_def RESUBSCRIBE_DELAY_MIN_def RESUBSCRIBE_DELAY_MAX_def
        from_secs_def fun_eq_iff mult.commute)
  moreover have "subscribe ts = subscribe_loop (resubscribe_delay 0) ts"
    by (simp add: subscribe_def resub.first)
  ultimately show ?thesis by (simp only: subscribe_loop_eq on_received_of_eq comp_def)
qed

end
