(* ===== verification/Server.thy ===== *)
theory Server
  imports Game_Session Login_Session
begin

text \<open>
  A whole server (\<open>serve\<close> in \<open>crates/login_server/src/lib.rs\<close> and \<open>crates/game_server/src/lib.rs\<close>): any
  number of sessions that share the registry, as a step relation. Each step is atomic: the
  registry is behind a lock and the handlers do not await.
\<close>

section \<open>The step relation\<close>

text \<open>
  Sessions are kept by their id. The kick token of a session is a new one, so its id names it too.
\<close>

record ('s, 'w) server =
  sv_next_id :: u64
  sv_running :: "u64 \<rightharpoonup> 's"
  sv_world :: "(u64, 'w) world"

text \<open>
  What a server contributes besides the sessions' handlers: \<open>run\<close> before and after the event loop.
  Starting takes the value of \<open>NEXT_ID\<close>.
\<close>

record ('s, 'w) service =
  sc_start :: "u64 \<Rightarrow> u64 \<Rightarrow> instant \<Rightarrow> (u64, 'w) world \<Rightarrow> u64 \<times> 's \<times> (u64, 'w) world"
  sc_end :: "'s \<times> (u64, 'w) world \<Rightarrow> (u64, 'w) world"

text \<open>
  A connection is accepted; a session handles a wake-up and goes on; one handles a wake-up and ends;
  a token is cancelled from outside (the admin API, a writer that failed, the server's shutdown).
  Session ids do not wrap around: after \<open>2^64 - 1\<close> sessions the model accepts no more.
\<close>

inductive server_step :: "('s, u64, 'i, 'w) actor \<Rightarrow> ('s, 'w) service \<Rightarrow>
    ('s, 'w) server \<Rightarrow> ('s, 'w) server \<Rightarrow> bool"
  for act and svc where
  accept: "sc_start svc (sv_next_id v) (sv_next_id v + 1) now (sv_world v) = (n, s, w) \<Longrightarrow>
    sv_next_id v + 1 \<noteq> 0 \<Longrightarrow>
    server_step act svc v
      (v\<lparr>sv_next_id := n, sv_running := (sv_running v)(sv_next_id v + 1 \<mapsto> s), sv_world := w\<rparr>)"
| go_on: "sv_running v i = Some s \<Longrightarrow> p_others p = [] \<Longrightarrow>
    loop_step act i p (s, sv_world v) = (Continue, s', w) \<Longrightarrow>
    server_step act svc v (v\<lparr>sv_running := (sv_running v)(i \<mapsto> s'), sv_world := w\<rparr>)"
| finish: "sv_running v i = Some s \<Longrightarrow> p_others p = [] \<Longrightarrow>
    loop_step act i p (s, sv_world v) = (Break, s', w) \<Longrightarrow>
    server_step act svc v (v\<lparr>sv_running := (sv_running v)(i := None), sv_world := sc_end svc (s', w)\<rparr>)"
| cancel: "server_step act svc v
    (v\<lparr>sv_world := (sv_world v)\<lparr>cancelled := insert k (cancelled (sv_world v))\<rparr>\<rparr>)"

inductive_cases server_stepE: "server_step act svc v v'"

definition server_start :: "('s, 'w) server" where
  "server_start = \<lparr>sv_next_id = 0, sv_running = Map.empty, sv_world = world_new registry_default\<rparr>"

definition server_reachable :: "('s, u64, 'i, 'w) actor \<Rightarrow> ('s, 'w) service \<Rightarrow> ('s, 'w) server \<Rightarrow> bool" where
  "server_reachable act svc v \<longleftrightarrow> (server_step act svc)\<^sup>*\<^sup>* server_start v"

section \<open>The invariant\<close>

locale connection_server = identified_actor act sid authed last_seen timeout allowed identity user
  for act :: "('s, u64, 'i, 'w) actor" and sid authed last_seen timeout allowed identity user +
  fixes svc :: "('s, 'w) service"
  assumes start: "sc_start svc n k now w = (n', s, w') \<Longrightarrow>
      n' = n + 1 \<and> sid s = n + 1 \<and> user s = None \<and>
      registry w' = register (n + 1) k (registry w) \<and> cancelled w' = cancelled w"
    and end_registry: "registry (sc_end svc (s, w)) = remove_session (sid s) (registry w)"
    and end_cancelled: "cancelled (sc_end svc (s, w)) = cancelled w"
begin

text \<open>
  The registry mirrors the running sessions: it has exactly their ids, with their tokens and the
  users they are logged in as; and a session whose token is not cancelled owns its user.
\<close>

definition server_inv :: "('s, 'w) server \<Rightarrow> bool" where
  "server_inv v \<longleftrightarrow>
     (\<forall>i s. sv_running v i = Some s \<longrightarrow> sid s = i \<and> i \<le> sv_next_id v \<and>
        registry_kick (registry (sv_world v)) i = Some i \<and>
        registry_user (registry (sv_world v)) i = user s) \<and>
     (\<forall>i. sv_running v i = None \<longrightarrow> registry_kick (registry (sv_world v)) i = None) \<and>
     dir.dir_inv (registry (sv_world v)) (cancelled (sv_world v))"

lemma server_inv_start: "server_inv server_start"
  by (simp add: server_inv_def server_start_def world_new_def dir.dir_inv_def)

lemma server_inv_accept:
  assumes inv: "server_inv v"
    and started: "sc_start svc (sv_next_id v) (sv_next_id v + 1) now (sv_world v) = (n, s, w)"
    and "sv_next_id v + 1 \<noteq> 0"
  shows "server_inv (v\<lparr>sv_next_id := n, sv_running := (sv_running v)(sv_next_id v + 1 \<mapsto> s), sv_world := w\<rparr>)"
proof -
  have n: "sv_next_id v < sv_next_id v + 1" using unatSuc [of "sv_next_id v"] assms(3)
    by (simp add: word_less_nat_alt add.commute)
  have "i \<noteq> sv_next_id v + 1 \<and> i \<le> sv_next_id v + 1" if "sv_running v i = Some s'" for i s'
    using inv n that by (fastforce simp: server_inv_def)
  with inv start [OF started] show ?thesis
    by (auto simp: server_inv_def register_observers dir.dir_inv_reg)
qed

text \<open>A session's own step, whether it goes on or ends.\<close>

lemma server_inv_session:
  assumes inv: "server_inv v" and run: "sv_running v i = Some s" and "p_others p = []"
    and "loop_step act i p (s, sv_world v) = (f, s', w)"
  shows "server_inv (v\<lparr>sv_running := (sv_running v)(i \<mapsto> s'), sv_world := w\<rparr>)"
proof -
  have s: "sid s = i" "registry_kick (registry (sv_world v)) i = Some i" "i \<le> sv_next_id v"
    using inv run by (auto simp: server_inv_def)
  note d = step_directory [OF assms(4,3)]
  then consider (same) "user s' = user s" "registry w = registry (sv_world v)"
      "cancelled w = cancelled (sv_world v)"
    | (auth) u where "user s' = Some u"
      "registry w = fst (authenticate i u (registry (sv_world v)))"
      "cancelled w = cancelled (sv_world v) \<union> set (snd (authenticate i u (registry (sv_world v))))"
    using s(1) by auto
  then show ?thesis
  proof cases
    case same
    with inv run d show ?thesis by (auto simp: server_inv_def)
  next
    case auth
    have "dir.dir_inv (registry w) (cancelled w)"
      using inv unfolding auth by (intro dir.dir_inv_auth) (simp add: server_inv_def)
    with inv d s show ?thesis
      by (auto simp: server_inv_def authenticate_observers auth(1,2))
  qed
qed

lemma server_inv_end:
  assumes inv: "server_inv v" and run: "sv_running v i = Some s"
  shows "server_inv (v\<lparr>sv_running := (sv_running v)(i := None), sv_world := sc_end svc (s, sv_world v)\<rparr>)"
proof -
  have "sid s = i" using inv run by (auto simp: server_inv_def)
  with inv show ?thesis
    by (auto simp: server_inv_def end_registry end_cancelled remove_observers dir.dir_inv_rem)
qed

lemma server_inv_step:
  assumes "server_step act svc v v'" and inv: "server_inv v"
  shows "server_inv v'"
  using assms(1)
proof (rule server_stepE)
  fix i s p s' w
  assume v': "v' = v\<lparr>sv_running := (sv_running v)(i := None), sv_world := sc_end svc (s', w)\<rparr>"
    and "sv_running v i = Some s" "p_others p = []"
    and "loop_step act i p (s, sv_world v) = (Break, s', w)"
  with inv have "server_inv (v\<lparr>sv_running := (sv_running v)(i \<mapsto> s'), sv_world := w\<rparr>)"
    by (intro server_inv_session)
  from server_inv_end [OF this, of i s'] show ?thesis by (simp add: v')
next
  fix k
  assume "v' = v\<lparr>sv_world := (sv_world v)\<lparr>cancelled := insert k (cancelled (sv_world v))\<rparr>\<rparr>"
  with inv show ?thesis by (auto simp: server_inv_def elim!: dir.dir_inv_mono)
qed (use inv server_inv_accept server_inv_session in simp_all)

lemma server_reachable_inv: "server_reachable act svc v \<Longrightarrow> server_inv v"
  unfolding server_reachable_def
  by (induction rule: rtranclp_induct) (auto intro: server_inv_start server_inv_step)

lemma reachable_one_live:
  assumes "server_reachable act svc v"
    and "sv_running v i = Some s" "user s = Some u" "i \<notin> cancelled (sv_world v)"
    and "sv_running v j = Some s'" "user s' = Some u" "j \<notin> cancelled (sv_world v)"
  shows "i = j"
  using server_reachable_inv [OF assms(1)] assms(2-)
  by (auto simp: server_inv_def intro: dir.dir_inv_unique)

lemma reachable_snapshot:
  assumes "server_reachable act svc v"
  shows "snapshot (registry (sv_world v)) =
      {\<lparr>si_session_id = i, si_user_id = user s\<rparr> | i s. sv_running v i = Some s}"
proof -
  note inv = server_reachable_inv [OF assms, unfolded server_inv_def]
  have "dom (sessions (registry (sv_world v))) = dom (sv_running v)"
    using inv by (force simp: registry_kick_def dom_def)
  then show ?thesis using inv by (auto simp: snapshot_image)
qed

end

section \<open>GameServer and LoginServer\<close>

text \<open>
  Starting a session includes the \<open>ConnectedResponse\<close> its event loop begins with; on its new, empty
  channel \<open>tx\<close> that is accepted.
\<close>

definition game_service :: "('c, message_wrapper) mpsc \<Rightarrow> 'c \<Rightarrow> ('c game_session, game_work) service" where
  "game_service mp tx =
     \<lparr>sc_start = (\<lambda>n k now w.
        case game_run_start n k tx now w of
          (n', s, w') \<Rightarrow>
            (n', s\<lparr>gs_outbox := snd (outbox_send mp (ConnectedResponse 0) (gs_outbox s))\<rparr>, w')),
      sc_end = (\<lambda>st. snd (game_run_end st))\<rparr>"

definition login_service :: "('c, message_wrapper) mpsc \<Rightarrow> 'c \<Rightarrow> ('c login_session, login_work) service" where
  "login_service mp tx =
     \<lparr>sc_start = (\<lambda>n k now w.
        case login_run_start n k tx now w of
          (n', s, w') \<Rightarrow>
            (n', s\<lparr>ls_outbox := snd (outbox_send mp (ConnectedResponse 0) (ls_outbox s))\<rparr>, w')),
      sc_end = login_run_end\<rparr>"

interpretation game_server: connection_server "game_actor mp keep_alive_timeout" gs_session_id
  game_authed gs_last_keep_alive keep_alive_timeout game_allowed game_identity
  "\<lambda>s. map_option user_id (gs_account s)" "game_service mp tx"
  by unfold_locales
    (auto simp: game_service_def game_run_start_def game_run_end_def generate_def
      game_session_new_def)

interpretation login_server: connection_server "login_actor mp keep_alive_timeout" ls_session_id
  login_authed ls_last_keep_alive keep_alive_timeout login_allowed login_identity
  "\<lambda>s. map_option la_user_id (ls_account s)" "login_service mp tx"
  by unfold_locales
    (auto simp: login_service_def login_run_start_def login_run_end_def generate_def
      login_session_new_def)

text \<open>
  C3. In every reachable state of GameServer, of two sessions that are logged in as the same user
  one has been kicked; and whatever is ready for a kicked session, its next step ends it with
  nothing done.
\<close>

theorem game_server_one_live_session:
  assumes "server_reachable (game_actor mp t) (game_service mp tx) v"
    and "sv_running v i = Some s" "gs_account s = Some a"
    and "sv_running v j = Some s'" "gs_account s' = Some b"
    and "user_id a = user_id b" and "i \<noteq> j"
  shows "\<exists>k\<in>{i, j}. k \<in> cancelled (sv_world v) \<and>
    (\<forall>p x. p_others p = [] \<longrightarrow> loop_step (game_actor mp t) k p (x, sv_world v) =
       (Break, x\<lparr>gs_outbox := receive_from mp (p_taken p) (gs_outbox x)\<rparr>, sv_world v))"
proof -
  have "i \<in> cancelled (sv_world v) \<or> j \<in> cancelled (sv_world v)"
    using game_server.reachable_one_live [OF assms(1), of i s "user_id a" j s'] assms(2-) by auto
  moreover have "loop_step (game_actor mp t) k p (x, sv_world v) =
       (Break, x\<lparr>gs_outbox := receive_from mp (p_taken p) (gs_outbox x)\<rparr>, sv_world v)"
    if "k \<in> cancelled (sv_world v)" "p_others p = []" for k x p
    using game.kick_ends [of k p "sv_world v" mp t x] that
    by (simp add: wake_def game_step_simps)
  ultimately show ?thesis by blast
qed

text \<open>Two connections, both authenticated as the same user, for the witness.\<close>

definition sample_session :: "u64 \<Rightarrow> (message_wrapper list \<times> bool) game_session" where
  "sample_session i = game_session_new i
     \<lparr>ob_session_id = i, ob_tx = ([outgoing (ConnectedResponse 0)], False)\<rparr> 0"

definition sample_logged_in :: "u64 \<Rightarrow> (message_wrapper list \<times> bool) game_session" where
  "sample_logged_in i = sample_session i
     \<lparr>gs_account := Some \<lparr>account_id = 7, user_id = ''u''\<rparr>, gs_last_keep_alive := 1,
      gs_outbox := \<lparr>ob_session_id = i,
        ob_tx = ([outgoing (ConnectedResponse 0), outgoing (GameConnectResponse True 0)], False)\<rparr>\<rparr>"

definition sample_registry :: "u64 registry" where
  "sample_registry = register 2 2 (register 1 1 registry_default)"

definition sample_server :: "u64 registry \<Rightarrow> u64 set \<Rightarrow>
    (u64 \<rightharpoonup> (message_wrapper list \<times> bool) game_session) \<Rightarrow>
    ((message_wrapper list \<times> bool) game_session, game_work) server" where
  "sample_server r C running =
     \<lparr>sv_next_id = 2, sv_running = running, sv_world = \<lparr>registry = r, cancelled = C, spawned = []\<rparr>\<rparr>"

abbreviation sample_step where
  "sample_step \<equiv>
     server_step (game_actor sample_mpsc KEEP_ALIVE_TIMEOUT) (game_service sample_mpsc ([], False))"

lemma sample_start: "sc_start (game_service sample_mpsc ([], False)) n k 0 w =
    (n + 1, sample_session (n + 1), w\<lparr>registry := register (n + 1) k (registry w)\<rparr>)"
  by (simp add: game_service_def game_run_start_def generate_def sample_session_def
      game_session_new_def outbox_send_def sample_defs outgoing_def const_defs)

lemma sample_accepts:
  "sample_step\<^sup>*\<^sup>* server_start
     (sample_server sample_registry {} [1 \<mapsto> sample_session 1, 2 \<mapsto> sample_session 2])"
proof -
  let ?w1 = "(world_new registry_default)\<lparr>registry := register 1 1 registry_default\<rparr>"
  let ?v1 = "\<lparr>sv_next_id = 1, sv_running = [1 \<mapsto> sample_session 1], sv_world = ?w1\<rparr>"
  have "sample_step server_start ?v1"
    using server_step.accept [of "game_service sample_mpsc ([], False)" server_start 0 1
        "sample_session 1" ?w1]
    by (simp add: sample_start server_start_def world_new_def)
  moreover have "sample_step ?v1
      (sample_server sample_registry {} [1 \<mapsto> sample_session 1, 2 \<mapsto> sample_session 2])"
    using server_step.accept [of "game_service sample_mpsc ([], False)" ?v1 0 2 "sample_session 2"
        "?w1\<lparr>registry := sample_registry\<rparr>"]
    by (simp add: sample_start sample_server_def world_new_def sample_registry_def)
  ultimately show ?thesis by (rule converse_rtranclp_into_rtranclp [OF _ r_into_rtranclp])
qed

lemma sample_login:
  assumes "i \<notin> C" and "running i = Some (sample_session i)"
  shows "sample_step (sample_server r C running)
    (sample_server (fst (authenticate i ''u'' r)) (C \<union> set (snd (authenticate i ''u'' r)))
      (running(i \<mapsto> sample_logged_in i)))"
proof -
  have "loop_step (game_actor sample_mpsc KEEP_ALIVE_TIMEOUT) i
      (inner_at 1 (TokenTaken (Some (token_value 7 ''u''))))
      (sample_session i, sv_world (sample_server r C running)) =
    (Continue, sample_logged_in i,
     \<lparr>registry = fst (authenticate i ''u'' r), cancelled = C \<union> set (snd (authenticate i ''u'' r)),
      spawned = []\<rparr>)"
    using assms(1)
    by (simp add: loop_step_polls sample_server_def game_step_simps(1,2) game_handler_defs
        game_send_flow_def send_flow_def outbox_send_def sample_session_def sample_logged_in_def
        sample_defs const_defs game_session_new_def outgoing_def world_authenticate_def
        split: prod.split)
  from server_step.go_on [OF _ _ this, of "game_service sample_mpsc ([], False)"] assms(2)
  show ?thesis by (simp add: sample_server_def inner_at_def)
qed

theorem game_server_one_live_session_witness:
  "\<exists>v. server_reachable (game_actor sample_mpsc KEEP_ALIVE_TIMEOUT) (game_service sample_mpsc ([], False)) v \<and>
    sv_running v 1 \<noteq> None \<and> sv_running v 2 \<noteq> None \<and> {1, 2} \<inter> cancelled (sv_world v) \<noteq> {}"
proof -
  let ?r1 = "fst (authenticate 1 ''u'' sample_registry)"
  let ?v = "sample_server (fst (authenticate 2 ''u'' ?r1)) (set (snd (authenticate 2 ''u'' ?r1)))
      [1 \<mapsto> sample_logged_in 1, 2 \<mapsto> sample_logged_in 2]"
  have "set (snd (authenticate 1 ''u'' sample_registry)) = {}"
    by (simp add: sample_registry_def authenticate_def register_def registry_default_def)
  then have "sample_step (sample_server sample_registry {} [1 \<mapsto> sample_session 1, 2 \<mapsto> sample_session 2])
      (sample_server ?r1 {} [1 \<mapsto> sample_logged_in 1, 2 \<mapsto> sample_session 2])"
    using sample_login [of 1 "{}" "[1 \<mapsto> sample_session 1, 2 \<mapsto> sample_session 2]" sample_registry]
    by (simp add: fun_upd_twist)
  moreover have "sample_step (sample_server ?r1 {} [1 \<mapsto> sample_logged_in 1, 2 \<mapsto> sample_session 2]) ?v"
    using sample_login [of 2 "{}" "[1 \<mapsto> sample_logged_in 1, 2 \<mapsto> sample_session 2]" ?r1] by simp
  ultimately have reach: "server_reachable (game_actor sample_mpsc KEEP_ALIVE_TIMEOUT)
      (game_service sample_mpsc ([], False)) ?v"
    using sample_accepts unfolding server_reachable_def by (meson rtranclp.rtrancl_into_rtrancl)
  have run: "sv_running ?v 1 = Some (sample_logged_in 1)" "sv_running ?v 2 = Some (sample_logged_in 2)"
    by (simp_all add: sample_server_def)
  have logged: "gs_account (sample_logged_in i) = Some \<lparr>account_id = 7, user_id = ''u''\<rparr>" for i
    by (simp add: sample_logged_in_def)
  have "\<exists>k\<in>{1, 2}. k \<in> cancelled (sv_world ?v)"
    using game_server_one_live_session [OF reach run(1) logged run(2) logged] by auto
  then show ?thesis using reach run by (intro exI [of _ ?v]) blast
qed

end
