(* ===== verification/Backends.thy ===== *)
theory Backends
  imports Token_Store Game_Session Login_Session
begin

text \<open>
  The production backends of both servers, \<open>MySqlRedisBackend\<close> of \<open>crates/login_server/src/backend.rs\<close>
  and \<open>crates/game_server/src/backend.rs\<close>, and the way an account takes from one server to the other.
  MySQL is a service: its three statements are parameters.
\<close>

section \<open>MySQL and Redis behind the traits\<close>

datatype sql_error = SqlError

record 'd mysql =
  sql_select_account :: "string \<Rightarrow> 'd \<Rightarrow> (sql_error + (u64 \<times> string \<times> string \<times> string \<times> u8) option) \<times> 'd"
  sql_update_last_login :: "u64 \<Rightarrow> 'd \<Rightarrow> (sql_error + unit) \<times> 'd"
  sql_insert_score :: "u64 \<Rightarrow> i32 \<Rightarrow> i32 \<Rightarrow> i32 \<Rightarrow> 'd \<Rightarrow> (sql_error + unit) \<times> 'd"

record login_config =
  lc_auth_token_prefix :: string
  lc_auth_token_ttl_seconds :: u64

definition account_of_columns :: "u64 \<times> string \<times> string \<times> string \<times> u8 \<Rightarrow> account_row" where
  "account_of_columns = (\<lambda>(aid, uid, password_hash, salt, status).
     \<lparr>ar_account_id = aid, ar_user_id = uid, ar_password_hash = password_hash, ar_salt = salt,
      ar_status = status\<rparr>)"

text \<open>Over the pair of the two stores; \<open>now\<close> and \<open>token\<close> are the time and the UUID of a call.\<close>

definition login_mysql_redis :: "'d mysql \<Rightarrow> 'r redis \<Rightarrow> login_config \<Rightarrow> instant \<Rightarrow> string \<Rightarrow>
    ('d \<times> 'r) login_backend" where
  "login_mysql_redis db rd cfg now token =
     \<lparr>find_account = (\<lambda>uid (d, r).
        case sql_select_account db uid d of
          (Inl e, d') \<Rightarrow> (Inl BackendError, (d', r))
        | (Inr row, d') \<Rightarrow> (Inr (map_option account_of_columns row), (d', r))),
      touch_last_login = (\<lambda>aid (d, r).
        case sql_update_last_login db aid d of
          (Inl e, d') \<Rightarrow> (Inl BackendError, (d', r))
        | (Inr _, d') \<Rightarrow> (Inr (), (d', r))),
      issue_token = (\<lambda>aid uid (d, r).
        case issue_auth_token rd (lc_auth_token_prefix cfg) (lc_auth_token_ttl_seconds cfg) now token
            aid uid r of
          (Inl e, r') \<Rightarrow> (Inl BackendError, (d, r'))
        | (Inr t, r') \<Rightarrow> (Inr t, (d, r')))\<rparr>"

definition game_mysql_redis :: "'d mysql \<Rightarrow> 'r redis \<Rightarrow> string \<Rightarrow> instant \<Rightarrow> ('d \<times> 'r) game_backend" where
  "game_mysql_redis db rd auth_token_prefix now =
     \<lparr>gb_take_auth_token = (\<lambda>token (d, r).
        case take_auth_token rd auth_token_prefix now token r of
          (Inl e, r') \<Rightarrow> (Inl GameBackendError, (d, r'))
        | (Inr v, r') \<Rightarrow> (Inr v, (d, r'))),
      gb_save_score = (\<lambda>aid score kill_count survive_seconds (d, r).
        case sql_insert_score db aid score kill_count survive_seconds d of
          (Inl e, d') \<Rightarrow> (Inl GameBackendError, (d', r))
        | (Inr _, d') \<Rightarrow> (Inr (), (d', r))),
      gb_touch_last_login = (\<lambda>aid (d, r).
        case sql_update_last_login db aid d of
          (Inl e, d') \<Rightarrow> (Inl GameBackendError, (d', r))
        | (Inr _, d') \<Rightarrow> (Inr (), (d', r)))\<rparr>"

section \<open>From LoginServer to GameServer\<close>

lemma game_on_inner_taken:
  assumes "game_on_inner mp now (TokenTaken v) (s, w) = (f, s', w')" and "Option.bind v parse_token_value = Some a"
  shows "gs_account s' = Some a \<and>
    registry w' = fst (authenticate (gs_session_id s) (user_id a) (registry w))"
  using assms
  by (auto simp: game_on_inner_def game_on_authenticated_def send_game_connect_def
      dest!: game_send_flow_frame)

lemma perform_take:
  assumes "game_perform (game_mysql_redis db rd pfx t) (TakeAuthToken tok) (d, r) = (m, d', r')"
    and "m \<noteq> GameDbError"
  shows "\<exists>v. m = TokenTaken v \<and> take_auth_token rd pfx t tok r = (Inr v, r') \<and> d' = d"
  using assms by (auto simp: game_mysql_redis_def split: prod.splits sum.splits)

text \<open>Behind a successful login: the row that was checked, and the token issued for it.\<close>

lemma login_success_row:
  assumes "login_authenticate cr (login_mysql_redis db rd cfg t token) True uid h (d, r) = (LoginSuccess a tok, d1, r1)"
  obtains row where "fst (sql_select_account db uid d) = Inr (Some row)"
    "verify cr h (ar_password_hash (account_of_columns row)) (ar_salt (account_of_columns row)) = Inr True"
    "ar_status (account_of_columns row) \<noteq> 1"
    "issue_auth_token rd (lc_auth_token_prefix cfg) (lc_auth_token_ttl_seconds cfg) t token
      (ar_account_id (account_of_columns row)) (ar_user_id (account_of_columns row)) r = (Inr (Some tok), r1)"
  using assms
  by (auto simp: login_authenticate_def login_mysql_redis_def Let_def
      split: prod.splits sum.splits option.splits bool.splits if_splits)

text \<open>A token that was taken gives nothing from then on.\<close>

lemma perform_take_again:
  assumes "redis_laws rd" "take_auth_token rd pfx t' tok r2 = (Inr v, r3)" "t' \<le> t''"
  shows "fst (game_perform (game_mysql_redis db rd pfx t'') (TakeAuthToken tok) (d4, r3)) \<in> {TokenTaken None, GameDbError}"
proof -
  note service = token_service_redis [OF assms(1), of pfx 0]
  have gone: "stored_token rd pfx t'' tok r3 = None" using token_service.take_ok [OF service assms(2,3)] by simp
  obtain m d5 r5 where again: "game_perform (game_mysql_redis db rd pfx t'') (TakeAuthToken tok) (d4, r3) = (m, d5, r5)"
    by (metis prod_cases3)
  have "m \<in> {TokenTaken None, GameDbError}"
  proof (cases "m = GameDbError")
    case False
    then obtain v' where v': "m = TokenTaken v'" "take_auth_token rd pfx t'' tok r3 = (Inr v', r5)"
      using perform_take [OF again] by auto
    from token_service.take_ok [OF service v'(2) order_refl] gone v'(1) show ?thesis by simp
  qed simp
  then show ?thesis unfolding again fst_conv .
qed

text \<open>
  C2. The hand-over. Whoever logs in at LoginServer and shows the token to GameServer while it lasts
  is there the very account whose password was checked, and is registered under that account's
  user; a second showing of the token, at any later time, gives nothing. In between both servers
  may have served any other requests.
\<close>

theorem login_hands_over_to_game:
  assumes "redis_laws rd"
    and "login_authenticate cr (login_mysql_redis db rd cfg t token) True uid h (d, r) =
      (LoginSuccess a tok, d1, r1)"
    and "\<forall>ev\<in>set evs. event_token ev \<noteq> token"
    and "fold (token_step (issue_auth_token rd (lc_auth_token_prefix cfg) (lc_auth_token_ttl_seconds cfg))
        (take_auth_token rd (lc_auth_token_prefix cfg))) evs (r1, []) = (r2, taken)"
    and "t \<le> t'" and "t' < t + from_secs (unat (lc_auth_token_ttl_seconds cfg))"
    and "game_perform (game_mysql_redis db rd (lc_auth_token_prefix cfg) t') (TakeAuthToken tok) (d2, r2) =
      (m, d3, r3)" and "m \<noteq> GameDbError"
    and "game_on_inner mp now m (s, w) = (f, s', w')"
    and "t' \<le> t''"
  shows "\<exists>row. fst (sql_select_account db uid d) = Inr (Some row) \<and>
    verify cr h (ar_password_hash (account_of_columns row)) (ar_salt (account_of_columns row)) = Inr True \<and>
    ar_status (account_of_columns row) \<noteq> 1 \<and>
    gs_account s' = Some \<lparr>account_id = ar_account_id (account_of_columns row),
      user_id = ar_user_id (account_of_columns row)\<rparr> \<and>
    registry w' = fst (authenticate (gs_session_id s) (ar_user_id (account_of_columns row)) (registry w)) \<and>
    fst (game_perform (game_mysql_redis db rd (lc_auth_token_prefix cfg) t'') (TakeAuthToken tok) (d4, r3))
      \<in> {TokenTaken None, GameDbError}"
proof -
  obtain row where row: "fst (sql_select_account db uid d) = Inr (Some row)"
    "verify cr h (ar_password_hash (account_of_columns row)) (ar_salt (account_of_columns row)) = Inr True"
    "ar_status (account_of_columns row) \<noteq> 1"
    and issued: "issue_auth_token rd (lc_auth_token_prefix cfg) (lc_auth_token_ttl_seconds cfg) t token
      (ar_account_id (account_of_columns row)) (ar_user_id (account_of_columns row)) r = (Inr (Some tok), r1)"
    by (rule login_success_row [OF assms(2)])
  let ?acc = "\<lparr>account_id = ar_account_id (account_of_columns row), user_id = ar_user_id (account_of_columns row)\<rparr>"
  obtain v where m: "m = TokenTaken v"
    and taken: "take_auth_token rd (lc_auth_token_prefix cfg) t' tok r2 = (Inr v, r3)"
    using perform_take [OF assms(7,8)] by auto
  have "v = Some (token_value (ar_account_id (account_of_columns row)) (ar_user_id (account_of_columns row)))"
    using token_service.taken_in_time [OF token_service_redis [OF assms(1)] issued assms(3,4,5) taken] assms(6) by simp
  then have "Option.bind v parse_token_value = Some ?acc" by simp
  from game_on_inner_taken [OF assms(9) [unfolded m] this] row perform_take_again [OF assms(1) taken assms(10)]
  show ?thesis by (intro exI [of _ row]) simp
qed

text \<open>A database with one account and a table of scores, for the witnesses.\<close>

type_synonym score_row = "u64 \<times> i32 \<times> i32 \<times> i32"

definition sample_columns :: "u64 \<times> string \<times> string \<times> string \<times> u8" where
  "sample_columns =
     (7, ''u'', ar_password_hash sample_row, ar_salt sample_row, 0)"

definition sample_mysql :: "score_row list mysql" where
  "sample_mysql =
     \<lparr>sql_select_account = (\<lambda>uid d. (Inr (if uid = ''u'' then Some sample_columns else None), d)),
      sql_update_last_login = (\<lambda>aid d. (Inr (), d)),
      sql_insert_score = (\<lambda>aid score kills secs d. (Inr (), d @ [(aid, score, kills, secs)]))\<rparr>"

definition sample_config :: login_config where
  "sample_config = \<lparr>lc_auth_token_prefix = ''p:'', lc_auth_token_ttl_seconds = 30\<rparr>"

theorem login_hands_over_to_game_witness:
  "\<exists>f s' w'. game_on_inner sample_mpsc 5 (TokenTaken (Some (token_value 7 ''u'')))
      (game_session_new 4 (sample_outbox 4) 0, world_new (register 4 9 registry_default)) =
        (f, s', w' :: (nat, game_work) world) \<and>
    gs_account s' = Some \<lparr>account_id = 7, user_id = ''u''\<rparr>"
proof -
  let ?r = "[''p:x'' \<mapsto> (token_value 7 ''u'', from_secs 30)]"
  have login: "login_authenticate toy_crypto (login_mysql_redis sample_mysql map_redis sample_config 0 ''x'')
      True ''u'' [1] ([], Map.empty) = (LoginSuccess \<lparr>la_user_id = ''u''\<rparr> ''x'', [], ?r)"
    using sample_verify [of "[1]"]
    by (simp add: login_authenticate_def login_mysql_redis_def sample_mysql_def sample_columns_def
        account_of_columns_def sample_config_def token_defs map_redis_def)
  have between: "fold (token_step (issue_auth_token map_redis (lc_auth_token_prefix sample_config)
        (lc_auth_token_ttl_seconds sample_config))
      (take_auth_token map_redis (lc_auth_token_prefix sample_config))) [] (?r, []) = (?r, [])"
    by simp
  have taken: "game_perform (game_mysql_redis sample_mysql map_redis (lc_auth_token_prefix sample_config) 1)
      (TakeAuthToken ''x'') ([], ?r) = (TokenTaken (Some (token_value 7 ''u'')), [], Map.empty)"
    by (simp add: game_mysql_redis_def sample_config_def token_defs map_redis_def from_secs_def)
  obtain f s' w' where inner: "game_on_inner sample_mpsc 5 (TokenTaken (Some (token_value 7 ''u'')))
      (game_session_new 4 (sample_outbox 4) 0, world_new (register 4 9 registry_default)) =
        (f, s', w' :: (nat, game_work) world)" by (metis prod_cases3)
  have "\<exists>row. fst (sql_select_account sample_mysql ''u'' []) = Inr (Some row) \<and>
      gs_account s' = Some \<lparr>account_id = ar_account_id (account_of_columns row),
        user_id = ar_user_id (account_of_columns row)\<rparr>"
    using login_hands_over_to_game [where ?d4.0 = "[]" and t'' = 1,
        OF redis_laws_map login _ between _ _ taken _ inner]
    by (auto simp: sample_config_def from_secs_def)
  then show ?thesis using inner by (simp add: sample_mysql_def sample_columns_def account_of_columns_def)
qed

end
