(* ===== verification/Metrics.thy ===== *)
theory Metrics
  imports Stats
begin

text \<open>
  \<open>crates/net/src/monitor.rs\<close>: the CPU and memory figures (\<open>ProcessMetrics\<close>) and the monitor loop. What
  the operating system reports is data; the operations of \<open>f64\<close> are parameters.
\<close>

record 'f f64_ops =
  f_of_u64 :: "u64 \<Rightarrow> 'f"
  f_of_nat :: "nat \<Rightarrow> 'f"
  f_as_secs :: "duration \<Rightarrow> 'f"
  f_div :: "'f \<Rightarrow> 'f \<Rightarrow> 'f"
  f_mul :: "'f \<Rightarrow> 'f \<Rightarrow> 'f"
  f_positive :: "'f \<Rightarrow> bool"
  f_round :: "'f \<Rightarrow> 'f"

text \<open>The admin API keeps the 64 bits of a float, as JSON gets them.\<close>

type_synonym f64 = "64 word"

text \<open>\<open>pm_pid\<close> is whether the process id is known.\<close>

record 'f process_metrics =
  pm_pid :: bool
  pm_cpu_count :: 'f
  pm_prev_cpu_ms :: u64
  pm_prev_at :: instant

text \<open>\<open>refresh\<close>: the accumulated CPU time in milliseconds and the memory in bytes, if the process is found.\<close>

definition metrics_refresh :: "(u64 \<times> u64) option \<Rightarrow> 'f process_metrics \<Rightarrow> (u64 \<times> u64) option" where
  "metrics_refresh found m = (if pm_pid m then found else None)"

definition metrics_default :: "'f f64_ops \<Rightarrow> bool \<Rightarrow> nat option \<Rightarrow> instant \<Rightarrow> (u64 \<times> u64) option \<Rightarrow> 'f process_metrics" where
  "metrics_default fl pid parallelism now found =
     (let metrics = \<lparr>pm_pid = pid, pm_cpu_count = f_of_nat fl (case parallelism of None \<Rightarrow> 1 | Some n \<Rightarrow> n),
            pm_prev_cpu_ms = 0, pm_prev_at = now\<rparr>
      in metrics\<lparr>pm_prev_cpu_ms :=
           (case metrics_refresh found metrics of None \<Rightarrow> 0 | Some (cpu_ms, _) \<Rightarrow> cpu_ms)\<rparr>)"

definition saturating_sub :: "u64 \<Rightarrow> u64 \<Rightarrow> u64" where
  "saturating_sub a b = (if b \<le> a then a - b else 0)"

definition metrics_sample :: "'f f64_ops \<Rightarrow> instant \<Rightarrow> (u64 \<times> u64) option \<Rightarrow> 'f process_metrics \<Rightarrow>
    ('f \<times> 'f) \<times> 'f process_metrics" where
  "metrics_sample fl now found m =
     (case metrics_refresh found m of
        None \<Rightarrow> ((f_of_nat fl 0, f_of_nat fl 0), m)
      | Some (cpu_ms, memory_bytes) \<Rightarrow>
          (let elapsed = f_as_secs fl (duration_since now (pm_prev_at m));
               cpu_percent =
                 (if f_positive fl elapsed
                  then f_mul fl
                    (f_div fl (f_div fl (f_of_u64 fl (saturating_sub cpu_ms (pm_prev_cpu_ms m))) (f_of_nat fl 1000))
                      (f_mul fl elapsed (pm_cpu_count m)))
                    (f_of_nat fl 100)
                  else f_of_nat fl 0)
           in ((cpu_percent, f_div fl (f_div fl (f_of_u64 fl memory_bytes) (f_of_nat fl 1024)) (f_of_nat fl 1024)),
               m\<lparr>pm_prev_cpu_ms := cpu_ms, pm_prev_at := now\<rparr>)))"

text \<open>
  A sample that finds no process changes nothing, so the next one that does covers the time since the
  last that did: the CPU times and the intervals the samples account for add up.
\<close>

definition sample_time :: "instant \<Rightarrow> (u64 \<times> u64) option \<Rightarrow> 'f process_metrics \<Rightarrow> nat \<times> duration" where
  "sample_time now found m =
     (case metrics_refresh found m of
        None \<Rightarrow> (0, 0)
      | Some (cpu_ms, _) \<Rightarrow>
          (unat (saturating_sub cpu_ms (pm_prev_cpu_ms m)), duration_since now (pm_prev_at m)))"

fun sample_times :: "'f f64_ops \<Rightarrow> (instant \<times> (u64 \<times> u64) option) list \<Rightarrow> 'f process_metrics \<Rightarrow>
    (nat \<times> duration) list \<times> 'f process_metrics" where
  "sample_times fl [] m = ([], m)"
| "sample_times fl ((now, found) # xs) m =
     (case sample_times fl xs (snd (metrics_sample fl now found m)) of
        (ts, m') \<Rightarrow> (sample_time now found m # ts, m'))"

text \<open>Neither the clock nor the CPU time the system reports runs backwards.\<close>

fun monotone_samples :: "(instant \<times> (u64 \<times> u64) option) list \<Rightarrow> u64 \<Rightarrow> instant \<Rightarrow> bool" where
  "monotone_samples [] cpu at = True"
| "monotone_samples ((now, None) # xs) cpu at = monotone_samples xs cpu at"
| "monotone_samples ((now, Some (cpu_ms, _)) # xs) cpu at =
     (cpu \<le> cpu_ms \<and> at \<le> now \<and> monotone_samples xs cpu_ms now)"

theorem metrics_samples_add_up:
  assumes "monotone_samples xs (pm_prev_cpu_ms m) (pm_prev_at m)" and "pm_pid m"
    and "sample_times fl xs m = (ts, m')"
  shows "unat (pm_prev_cpu_ms m) + sum_list (map fst ts) = unat (pm_prev_cpu_ms m') \<and>
    pm_prev_at m + sum_list (map snd ts) = pm_prev_at m'"
  using assms
proof (induction xs "pm_prev_cpu_ms m" "pm_prev_at m" arbitrary: m ts rule: monotone_samples.induct)
  case 1
  then show ?case by simp
next
  case (2 now xs)
  then show ?case by (auto simp: metrics_sample_def sample_time_def metrics_refresh_def split: prod.splits)
next
  case (3 now cpu_ms mem xs)
  let ?m = "m\<lparr>pm_prev_cpu_ms := cpu_ms, pm_prev_at := now\<rparr>"
  obtain us where rest: "sample_times fl xs ?m = (us, m')"
    and ts: "ts = (unat (cpu_ms - pm_prev_cpu_ms m), now - pm_prev_at m) # us"
    using 3(2-4) by (auto simp: metrics_sample_def sample_time_def metrics_refresh_def saturating_sub_def
        duration_since_def Let_def split: prod.splits)
  from 3(1) [of ?m us] 3(2-3) rest have "unat cpu_ms + sum_list (map fst us) = unat (pm_prev_cpu_ms m') \<and>
      now + sum_list (map snd us) = pm_prev_at m'" by simp
  moreover have "unat (cpu_ms - pm_prev_cpu_ms m) = unat cpu_ms - unat (pm_prev_cpu_ms m)"
    "unat (pm_prev_cpu_ms m) \<le> unat cpu_ms" "pm_prev_at m \<le> now"
    using 3(2) by (simp_all add: unat_sub word_le_nat_alt)
  ultimately show ?case by (simp add: ts)
qed

section \<open>The monitor loop\<close>

text \<open>
  A turn of \<open>monitor::run\<close> is what it meets when it wakes up after \<open>MONITOR_INTERVAL\<close>, or \<open>None\<close> when the
  shutdown token ends the sleep; the result is the lines it logs.
\<close>

definition MONITOR_INTERVAL :: duration where
  "MONITOR_INTERVAL = from_secs 10"

record monitor_wake =
  mw_now :: instant
  mw_process :: "(u64 \<times> u64) option"
  mw_stats :: packet_stats
  mw_active_sessions :: nat

record 'f monitor_line =
  ml_active_sessions :: nat
  ml_cpu :: 'f
  ml_memory_mb :: 'f
  ml_received :: u64
  ml_sent :: u64

fun monitor_loop :: "'f f64_ops \<Rightarrow> 'f process_metrics \<Rightarrow> u64 \<Rightarrow> u64 \<Rightarrow> monitor_wake option list \<Rightarrow>
    'f monitor_line list" where
  "monitor_loop fl metrics prev_recv prev_sent [] = []"
| "monitor_loop fl metrics prev_recv prev_sent (None # turns) = []"
| "monitor_loop fl metrics prev_recv prev_sent (Some w # turns) =
     (case metrics_sample fl (mw_now w) (mw_process w) metrics of
        ((cpu, memory_mb), metrics') \<Rightarrow>
          (case stats_snapshot (mw_stats w) of
             (recv, sent) \<Rightarrow>
               \<lparr>ml_active_sessions = mw_active_sessions w, ml_cpu = cpu, ml_memory_mb = memory_mb,
                ml_received = recv - prev_recv, ml_sent = sent - prev_sent\<rparr> #
               monitor_loop fl metrics' recv sent turns))"

text \<open>\<open>pid\<close>, \<open>parallelism\<close>, \<open>now\<close> and \<open>found\<close> are what \<open>ProcessMetrics::default\<close> meets.\<close>

definition monitor_run :: "'f f64_ops \<Rightarrow> bool \<Rightarrow> nat option \<Rightarrow> instant \<Rightarrow> (u64 \<times> u64) option \<Rightarrow> packet_stats \<Rightarrow>
    monitor_wake option list \<Rightarrow> 'f monitor_line list" where
  "monitor_run fl pid parallelism now found stats turns =
     (case stats_snapshot stats of
        (prev_recv, prev_sent) \<Rightarrow>
          monitor_loop fl (metrics_default fl pid parallelism now found) prev_recv prev_sent turns)"

text \<open>The wake-ups before the shutdown: each logs one line.\<close>

fun wakes :: "monitor_wake option list \<Rightarrow> monitor_wake list" where
  "wakes [] = []"
| "wakes (None # turns) = []"
| "wakes (Some w # turns) = w # wakes turns"

lemma monitor_loop_rates:
  "map ml_active_sessions (monitor_loop fl m r t turns) = map mw_active_sessions (wakes turns) \<and>
   r + sum_list (map ml_received (monitor_loop fl m r t turns)) = last (r # map (RECEIVED \<circ> mw_stats) (wakes turns)) \<and>
   t + sum_list (map ml_sent (monitor_loop fl m r t turns)) = last (t # map (SENT \<circ> mw_stats) (wakes turns))"
proof (induction turns arbitrary: m r t)
  case (Cons turn turns)
  show ?case
  proof (cases turn)
    case (Some w)
    obtain cpu mem m' where "metrics_sample fl (mw_now w) (mw_process w) m = ((cpu, mem), m')"
      by (metis prod.exhaust)
    with Cons [of m' "RECEIVED (mw_stats w)" "SENT (mw_stats w)"] Some show ?thesis
      by (simp add: stats_snapshot_def algebra_simps)
  qed simp
qed simp

text \<open>
  The packet rates the monitor logs account for every packet: added up from the start they give
  the counters at the last wake-up, for both directions, in the counters' own arithmetic, so also when
  a counter wraps around. There is a line for each wake-up, with the sessions of that moment.
\<close>

theorem monitor_rates_add_up:
  "RECEIVED stats + sum_list (map ml_received (monitor_run fl pid parallelism now found stats turns)) =
      last (RECEIVED stats # map (RECEIVED \<circ> mw_stats) (wakes turns)) \<and>
   SENT stats + sum_list (map ml_sent (monitor_run fl pid parallelism now found stats turns)) =
      last (SENT stats # map (SENT \<circ> mw_stats) (wakes turns)) \<and>
   map ml_active_sessions (monitor_run fl pid parallelism now found stats turns) = map mw_active_sessions (wakes turns)"
  unfolding monitor_run_def stats_snapshot_def prod.case
  by (intro conjI monitor_loop_rates [THEN conjunct1] monitor_loop_rates [THEN conjunct2, THEN conjunct1]
      monitor_loop_rates [THEN conjunct2, THEN conjunct2])

text \<open>A line every ten seconds at most: \<open>sleep\<close> takes at least as long as it is told.\<close>

fun paced :: "instant \<Rightarrow> monitor_wake list \<Rightarrow> bool" where
  "paced at [] = True"
| "paced at (w # ws) = (at + MONITOR_INTERVAL \<le> mw_now w \<and> paced (mw_now w) ws)"

lemma monitor_lines_paced:
  assumes "paced now (wakes turns)"
  shows "now + length (monitor_run fl pid parallelism now found stats turns) * MONITOR_INTERVAL \<le>
    last (now # map mw_now (wakes turns))"
proof -
  have "at + length ws * MONITOR_INTERVAL \<le> last (at # map mw_now ws)" if "paced at ws" for at ws
    using that by (induction at ws rule: paced.induct) auto
  with assms have "now + length (wakes turns) * MONITOR_INTERVAL \<le> last (now # map mw_now (wakes turns))" by blast
  moreover have "length (monitor_run fl pid parallelism now found stats turns) = length (wakes turns)"
    using monitor_rates_add_up [of stats fl pid parallelism now found turns] by (metis length_map)
  ultimately show ?thesis by simp
qed

end
