(* ===== verification/Admin.thy ===== *)
theory Admin
  imports Registry Password Token_Store Metrics
begin

text \<open>
  The admin HTTP API of LoginServer: \<open>crates/login_server/src/admin/session_key.rs\<close> (the session keys
  and the middleware that asks for them), \<open>admin/handlers.rs\<close> (the endpoints) and \<open>router\<close> of
  \<open>admin/mod.rs\<close>. axum, serde and the drivers are libraries: a request comes parsed, and the stores
  are parameters.
\<close>

section \<open>Strings of a request\<close>

text \<open>\<open>eq_ignore_ascii_case\<close>.\<close>

definition ascii_lower :: "char \<Rightarrow> char" where
  "ascii_lower c =
     (let k = of_char c :: nat in if 65 \<le> k \<and> k \<le> 90 then char_of (k + 32) else c)"

definition eq_ignore_ascii_case :: "string \<Rightarrow> string \<Rightarrow> bool" where
  "eq_ignore_ascii_case a b \<longleftrightarrow> map ascii_lower a = map ascii_lower b"

text \<open>
  \<open>s.trim().is_empty()\<close>: only white space. The UTF-8 forms of the characters Unicode counts as such.
\<close>

definition white_space :: "nat list list" where
  "white_space =
     [[9], [10], [11], [12], [13], [32], [194, 133], [194, 160], [225, 154, 128]] @
     map (\<lambda>k. [226, 128, 128 + k]) [0, 1, 2, 3, 4, 5, 6, 7, 8, 9, 10] @
     [[226, 128, 168], [226, 128, 169], [226, 128, 175], [226, 129, 159], [227, 128, 128]]"

fun blank_bytes :: "nat \<Rightarrow> nat list \<Rightarrow> bool" where
  "blank_bytes 0 s = (s = [])"
| "blank_bytes (Suc n) s =
     (s = [] \<or> list_ex (\<lambda>w. take (length w) s = w \<and> blank_bytes n (drop (length w) s)) white_space)"

definition is_blank :: "string \<Rightarrow> bool" where
  "is_blank s = blank_bytes (length s) (map of_char s)"

section \<open>Session keys\<close>

text \<open>
  The Redis commands of \<open>SessionKeyStore\<close>, \<open>PUBLISH\<close> and \<open>PING\<close>. Redis takes the seconds of \<open>EXPIRE\<close> as a signed
  integer.
\<close>

record 'r key_redis =
  kr_set_ex :: "instant \<Rightarrow> string \<Rightarrow> string \<Rightarrow> u64 \<Rightarrow> 'r \<Rightarrow> (redis_error + unit) \<times> 'r"
  kr_get :: "instant \<Rightarrow> string \<Rightarrow> 'r \<Rightarrow> redis_error + string option"
  kr_expire :: "instant \<Rightarrow> string \<Rightarrow> int \<Rightarrow> 'r \<Rightarrow> (redis_error + unit) \<times> 'r"
  kr_del :: "instant \<Rightarrow> string \<Rightarrow> 'r \<Rightarrow> (redis_error + unit) \<times> 'r"
  kr_publish :: "string \<Rightarrow> string \<Rightarrow> 'r \<Rightarrow> (redis_error + unit) \<times> 'r"
  kr_ping :: "'r \<Rightarrow> redis_error + string"

record admin_config =
  ac_admins :: "string list"
  ac_session_key_ttl_minutes :: u64
  ac_redis_key_prefix :: string
  ac_broadcast_channel :: string

text \<open>\<open>Duration::from_secs(session_key_ttl_minutes * 60)\<close>, in \<open>u64\<close>.\<close>

definition key_ttl :: "admin_config \<Rightarrow> u64" where
  "key_ttl cfg = ac_session_key_ttl_minutes cfg * 60"

text \<open>\<open>key\<close> is the encoding of 32 random bytes.\<close>

definition key_issue :: "'r key_redis \<Rightarrow> admin_config \<Rightarrow> instant \<Rightarrow> string \<Rightarrow> string \<Rightarrow> 'r \<Rightarrow>
    (redis_error + string) \<times> 'r" where
  "key_issue kr cfg now key uid r =
     (case kr_set_ex kr now (ac_redis_key_prefix cfg @ key) uid (key_ttl cfg) r of
        (Inl e, r') \<Rightarrow> (Inl e, r')
      | (Inr _, r') \<Rightarrow> (Inr key, r'))"

definition key_validate :: "'r key_redis \<Rightarrow> admin_config \<Rightarrow> instant \<Rightarrow> string \<Rightarrow> 'r \<Rightarrow>
    (redis_error + string option) \<times> 'r" where
  "key_validate kr cfg now key r =
     (if key = [] then (Inr None, r)
      else let redis_key = ac_redis_key_prefix cfg @ key in
        case kr_get kr now redis_key r of
          Inl e \<Rightarrow> (Inl e, r)
        | Inr None \<Rightarrow> (Inr None, r)
        | Inr (Some uid) \<Rightarrow>
            if uid = [] then (Inr None, r)
            else (case kr_expire kr now redis_key (sint (key_ttl cfg)) r of
                (Inl e, r') \<Rightarrow> (Inl e, r')
              | (Inr _, r') \<Rightarrow> (Inr (Some uid), r')))"

definition key_revoke :: "'r key_redis \<Rightarrow> admin_config \<Rightarrow> instant \<Rightarrow> string \<Rightarrow> 'r \<Rightarrow>
    (redis_error + unit) \<times> 'r" where
  "key_revoke kr cfg now key r = kr_del kr now (ac_redis_key_prefix cfg @ key) r"

section \<open>Requests and responses\<close>

datatype status =
    OK | NO_CONTENT | BAD_REQUEST | UNAUTHORIZED | NOT_FOUND | METHOD_NOT_ALLOWED
  | PAYLOAD_TOO_LARGE | UNSUPPORTED_MEDIA_TYPE | UNPROCESSABLE_ENTITY | INTERNAL_SERVER_ERROR

type_synonym score_row = "u64 \<times> u64 \<times> u32 \<times> u32 \<times> u32 \<times> string"

record score_dto =
  sd_score_id :: u64
  sd_account_id :: u64
  sd_score :: u32
  sd_kill_count :: u32
  sd_survive_seconds :: u32
  sd_played_at :: string

definition score_dto_of :: "score_row \<Rightarrow> score_dto" where
  "score_dto_of = (\<lambda>(score_id, account_id, score, kill_count, survive_seconds, played_at).
     \<lparr>sd_score_id = score_id, sd_account_id = account_id, sd_score = score,
      sd_kill_count = kill_count, sd_survive_seconds = survive_seconds, sd_played_at = played_at\<rparr>)"

record session_dto =
  se_session_id :: u64
  se_user_id :: "string option"
  se_world_id :: u64
  se_is_authenticated :: bool

record health_dto =
  he_status :: string
  he_db :: string
  he_redis :: string

record stats_dto =
  st_active_sessions :: nat
  st_packets_received_total :: u64
  st_packets_sent_total :: u64
  st_cpu_percent :: f64
  st_memory_mb :: f64
  st_uptime_seconds :: u64

text \<open>\<open>LibraryBody\<close> is a text that axum writes.\<close>

datatype body =
    NoBody
  | TextBody string
  | LibraryBody
  | LoginBody string u64
  | HealthBody health_dto
  | ScoresBody "score_dto list"
  | SessionsBody "session_dto set"
  | StatsBody stats_dto

datatype meth = GET | HEAD | POST | OTHER_METHOD

text \<open>Why axum refuses a body or a query string that it cannot read.\<close>

datatype rejection = Bad_Syntax | Too_Large | Bad_Media_Type | Bad_Data

fun rejection_status :: "rejection \<Rightarrow> status" where
  "rejection_status Bad_Syntax = BAD_REQUEST"
| "rejection_status Too_Large = PAYLOAD_TOO_LARGE"
| "rejection_status Bad_Media_Type = UNSUPPORTED_MEDIA_TYPE"
| "rejection_status Bad_Data = UNPROCESSABLE_ENTITY"

text \<open>
  The header \<open>X-Session-Key\<close> is missing (\<open>None\<close>), not text (\<open>Some None\<close>) or text. The fields of the JSON
  body or of the query string come parsed, with their defaults; \<open>rq_rejection\<close> tells that axum cannot
  parse them. \<open>i64\<close> limits are integers.
\<close>

record request =
  rq_method :: meth
  rq_path :: string
  rq_session_key :: "string option option"
  rq_rejection :: "rejection option"
  rq_user_id :: string
  rq_password :: string
  rq_message :: string
  rq_account_id :: u64
  rq_limit :: "int option"

text \<open>
  What the API changes: the registry of LoginServer with the cancelled kick tokens, Redis, and the
  measurement the next CPU figure starts from. From MySQL it only reads.
\<close>

record ('k, 'r) admin_state =
  as_registry :: "'k registry"
  as_cancelled :: "'k set"
  as_redis :: 'r
  as_metrics :: "f64 process_metrics"

datatype admin_sql_error = AdminSqlError

record 'd admin_mysql =
  am_select_password :: "string \<Rightarrow> 'd \<Rightarrow> admin_sql_error + (string \<times> string) option"
  am_scores_by_account :: "u64 \<Rightarrow> int \<Rightarrow> 'd \<Rightarrow> admin_sql_error + score_row list"
  am_scores_top :: "int \<Rightarrow> 'd \<Rightarrow> admin_sql_error + score_row list"
  am_select_1 :: "'d \<Rightarrow> admin_sql_error + unit"

text \<open>The health checks of \<open>db/src/lib.rs\<close>.\<close>

definition check_mysql :: "'d admin_mysql \<Rightarrow> 'd \<Rightarrow> bool" where
  "check_mysql my d \<longleftrightarrow> \<not> isl (am_select_1 my d)"

definition check_redis :: "'r key_redis \<Rightarrow> 'r \<Rightarrow> bool" where
  "check_redis kr r \<longleftrightarrow> \<not> isl (kr_ping kr r)"

text \<open>
  All that a request meets: configuration and libraries, the database as it is at that moment, the
  time, the random key, whether the blocking task runs to its end, the packet counters, and the CPU
  time and memory the system reports for the process.
\<close>

record ('d, 'r) admin_env =
  ae_config :: admin_config
  ae_crypto :: crypto
  ae_mysql :: "'d admin_mysql"
  ae_redis :: "'r key_redis"
  ae_percent_decode :: "string \<Rightarrow> string option"
  ae_db :: 'd
  ae_now :: instant
  ae_started_at :: instant
  ae_random_key :: string
  ae_joined :: bool
  ae_stats :: packet_stats
  ae_f64 :: "f64 f64_ops"
  ae_process :: "(u64 \<times> u64) option"

type_synonym ('k, 'r) handler = "('k, 'r) admin_state \<Rightarrow> (status \<times> body) \<times> ('k, 'r) admin_state"

text \<open>\<open>InternalError\<close>: a store that fails ends the request with 500.\<close>

definition internal_error :: "('k, 'r) handler" where
  "internal_error st = ((INTERNAL_SERVER_ERROR, NoBody), st)"

text \<open>A handler whose extractor refuses the request is not called.\<close>

definition extracted :: "request \<Rightarrow> ('k, 'r) handler \<Rightarrow> ('k, 'r) handler" where
  "extracted rq h st =
     (case rq_rejection rq of None \<Rightarrow> h st | Some x \<Rightarrow> ((rejection_status x, LibraryBody), st))"

section \<open>Handlers\<close>

definition admin_login :: "('d, 'r) admin_env \<Rightarrow> request \<Rightarrow> ('k, 'r) handler" where
  "admin_login e rq st =
     (if is_blank (rq_user_id rq) \<or> rq_password rq = []
      then ((BAD_REQUEST, TextBody ''userId and password required''), st)
      else if rq_user_id rq \<notin> set (ac_admins (ae_config e))
      then ((UNAUTHORIZED, TextBody ''not an admin account''), st)
      else (case am_select_password (ae_mysql e) (rq_user_id rq) (ae_db e) of
          Inl _ \<Rightarrow> internal_error st
        | Inr None \<Rightarrow> ((UNAUTHORIZED, TextBody ''invalid credentials''), st)
        | Inr (Some (stored_hash, salt)) \<Rightarrow>
            if \<not> ae_joined e then internal_error st
            else (case verify (ae_crypto e) (client_hash (ae_crypto e) (map of_char (rq_password rq)))
                stored_hash salt of
                Inl _ \<Rightarrow> internal_error st
              | Inr verified \<Rightarrow>
                  if \<not> verified then ((UNAUTHORIZED, TextBody ''invalid credentials''), st)
                  else (case key_issue (ae_redis e) (ae_config e) (ae_now e) (ae_random_key e)
                      (rq_user_id rq) (as_redis st) of
                      (Inl _, r) \<Rightarrow> internal_error (st\<lparr>as_redis := r\<rparr>)
                    | (Inr key, r) \<Rightarrow>
                        ((OK, LoginBody key (ac_session_key_ttl_minutes (ae_config e))),
                         st\<lparr>as_redis := r\<rparr>)))))"

definition admin_logout :: "('d, 'r) admin_env \<Rightarrow> request \<Rightarrow> ('k, 'r) handler" where
  "admin_logout e rq st =
     (case rq_session_key rq of
        Some (Some key) \<Rightarrow>
          (case key_revoke (ae_redis e) (ae_config e) (ae_now e) key (as_redis st) of
             (Inl _, r) \<Rightarrow> internal_error (st\<lparr>as_redis := r\<rparr>)
           | (Inr _, r) \<Rightarrow> ((NO_CONTENT, NoBody), st\<lparr>as_redis := r\<rparr>))
      | _ \<Rightarrow> ((NO_CONTENT, NoBody), st))"

definition up_down :: "bool \<Rightarrow> string" where
  "up_down ok = (if ok then ''ok'' else ''down'')"

definition admin_health :: "('d, 'r) admin_env \<Rightarrow> ('k, 'r) handler" where
  "admin_health e st =
     (let db_ok = check_mysql (ae_mysql e) (ae_db e); redis_ok = check_redis (ae_redis e) (as_redis st) in
      ((OK, HealthBody
          \<lparr>he_status = (if db_ok \<and> redis_ok then ''ok'' else ''degraded''), he_db = up_down db_ok,
           he_redis = up_down redis_ok\<rparr>), st))"

text \<open>With \<open>db::broadcast::publish\<close>.\<close>

text \<open>\<open>publish\<close> of \<open>db/src/broadcast.rs\<close>.\<close>

definition publish :: "'r key_redis \<Rightarrow> string \<Rightarrow> string \<Rightarrow> 'r \<Rightarrow> (redis_error + unit) \<times> 'r" where
  [simp]: "publish kr channel message r = kr_publish kr channel message r"

definition admin_notice :: "('d, 'r) admin_env \<Rightarrow> request \<Rightarrow> ('k, 'r) handler" where
  "admin_notice e rq st =
     (if is_blank (rq_message rq) then ((BAD_REQUEST, TextBody ''message required''), st)
      else (case publish (ae_redis e) (ac_broadcast_channel (ae_config e)) (rq_message rq) (as_redis st) of
          (Inl _, r) \<Rightarrow> internal_error (st\<lparr>as_redis := r\<rparr>)
        | (Inr _, r) \<Rightarrow> ((NO_CONTENT, NoBody), st\<lparr>as_redis := r\<rparr>)))"

definition clamp :: "int \<Rightarrow> int \<Rightarrow> int \<Rightarrow> int" where
  "clamp lo hi x = (if x < lo then lo else if x > hi then hi else x)"

definition unwrap_or :: "'a option \<Rightarrow> 'a \<Rightarrow> 'a" where
  "unwrap_or x d = (case x of None \<Rightarrow> d | Some y \<Rightarrow> y)"

definition scores_by_account :: "('d, 'r) admin_env \<Rightarrow> request \<Rightarrow> ('k, 'r) handler" where
  "scores_by_account e rq st =
     (let limit = clamp 1 200 (unwrap_or (rq_limit rq) 50) in
      case am_scores_by_account (ae_mysql e) (rq_account_id rq) limit (ae_db e) of
        Inl _ \<Rightarrow> internal_error st
      | Inr rows \<Rightarrow> ((OK, ScoresBody (map score_dto_of rows)), st))"

definition scores_top :: "('d, 'r) admin_env \<Rightarrow> request \<Rightarrow> ('k, 'r) handler" where
  "scores_top e rq st =
     (let limit = clamp 1 100 (unwrap_or (rq_limit rq) 10) in
      case am_scores_top (ae_mysql e) limit (ae_db e) of
        Inl _ \<Rightarrow> internal_error st
      | Inr rows \<Rightarrow> ((OK, ScoresBody (map score_dto_of rows)), st))"

definition session_dto_of :: "session_info \<Rightarrow> session_dto" where
  "session_dto_of s =
     \<lparr>se_session_id = si_session_id s, se_user_id = si_user_id s, se_world_id = 0,
      se_is_authenticated = is_authenticated s\<rparr>"

definition admin_sessions :: "('k, 'r) handler" where
  "admin_sessions st = ((OK, SessionsBody (session_dto_of ` snapshot (as_registry st))), st)"

definition admin_disconnect :: "u64 \<Rightarrow> ('k, 'r) handler" where
  "admin_disconnect session_id st =
     (case disconnect session_id (as_registry st) of
        (found, ks) \<Rightarrow>
          ((if found then NO_CONTENT else NOT_FOUND, NoBody),
           st\<lparr>as_cancelled := as_cancelled st \<union> set ks\<rparr>))"

text \<open>\<open>(x * k).round() / k\<close> for the factors 100 and 10.\<close>

definition f64_rounded :: "f64 f64_ops \<Rightarrow> nat \<Rightarrow> f64 \<Rightarrow> f64" where
  "f64_rounded fl k x = f_div fl (f_round fl (f_mul fl x (f_of_nat fl k))) (f_of_nat fl k)"

definition admin_stats :: "('d, 'r) admin_env \<Rightarrow> ('k, 'r) handler" where
  "admin_stats e st =
     (case metrics_sample (ae_f64 e) (ae_now e) (ae_process e) (as_metrics st) of
        ((cpu, memory_mb), metrics) \<Rightarrow>
          (case stats_snapshot (ae_stats e) of
             (received, sent) \<Rightarrow>
               ((OK, StatsBody
                   \<lparr>st_active_sessions = count (as_registry st), st_packets_received_total = received,
                    st_packets_sent_total = sent, st_cpu_percent = f64_rounded (ae_f64 e) 100 cpu,
                    st_memory_mb = f64_rounded (ae_f64 e) 10 memory_mb,
                    st_uptime_seconds = of_nat (duration_since (ae_now e) (ae_started_at e) div from_secs 1)\<rparr>),
                st\<lparr>as_metrics := metrics\<rparr>)))"

section \<open>The router and its middleware\<close>

datatype route =
    Login_Route | Logout_Route | Health_Route | Notice_Route | Scores_Route | Top_Route
  | Sessions_Route | Disconnect_Route string | Stats_Route

text \<open>\<open>/api/sessions/{session_id}/disconnect\<close>: the parameter is one segment of the path, not empty.\<close>

definition disconnect_segment :: "string \<Rightarrow> string option" where
  "disconnect_segment path =
     (let pre = ''/api/sessions/'';
          rest = drop (length pre) path;
          segment = takeWhile (\<lambda>c. c \<noteq> CHR ''/'') rest
      in if take (length pre) path = pre \<and> segment \<noteq> [] \<and> drop (length segment) rest = ''/disconnect''
         then Some segment else None)"

definition route_of :: "string \<Rightarrow> route option" where
  "route_of path =
     (if path = ''/api/auth/login'' then Some Login_Route
      else if path = ''/api/auth/logout'' then Some Logout_Route
      else if path = ''/api/health'' then Some Health_Route
      else if path = ''/api/notice'' then Some Notice_Route
      else if path = ''/api/scores'' then Some Scores_Route
      else if path = ''/api/scores/top'' then Some Top_Route
      else if path = ''/api/sessions'' then Some Sessions_Route
      else if path = ''/api/stats'' then Some Stats_Route
      else map_option Disconnect_Route (disconnect_segment path))"

fun route_posts :: "route \<Rightarrow> bool" where
  "route_posts Login_Route = True"
| "route_posts Logout_Route = True"
| "route_posts Notice_Route = True"
| "route_posts (Disconnect_Route _) = True"
| "route_posts _ = False"

fun run_route :: "('d, 'r) admin_env \<Rightarrow> request \<Rightarrow> route \<Rightarrow> ('k, 'r) handler" where
  "run_route e rq Login_Route st = extracted rq (admin_login e rq) st"
| "run_route e rq Logout_Route st = admin_logout e rq st"
| "run_route e rq Health_Route st = admin_health e st"
| "run_route e rq Notice_Route st = extracted rq (admin_notice e rq) st"
| "run_route e rq Scores_Route st = extracted rq (scores_by_account e rq) st"
| "run_route e rq Top_Route st = extracted rq (scores_top e rq) st"
| "run_route e rq Sessions_Route st = admin_sessions st"
| "run_route e rq (Disconnect_Route segment) st =
     (case Option.bind (ae_percent_decode e segment) u64_from_str of
        None \<Rightarrow> ((BAD_REQUEST, LibraryBody), st)
      | Some session_id \<Rightarrow> admin_disconnect session_id st)"
| "run_route e rq Stats_Route st = admin_stats e st"

text \<open>A \<open>get\<close> route answers \<open>HEAD\<close> too, without the body.\<close>

definition dispatch :: "('d, 'r) admin_env \<Rightarrow> request \<Rightarrow> ('k, 'r) handler" where
  "dispatch e rq st =
     (case route_of (rq_path rq) of
        None \<Rightarrow> ((NOT_FOUND, NoBody), st)
      | Some rt \<Rightarrow>
          if route_posts rt then
            (if rq_method rq = POST then run_route e rq rt st else ((METHOD_NOT_ALLOWED, NoBody), st))
          else if rq_method rq = GET then run_route e rq rt st
          else if rq_method rq = HEAD then
            (case run_route e rq rt st of ((code, _), st') \<Rightarrow> ((code, NoBody), st'))
          else ((METHOD_NOT_ALLOWED, NoBody), st))"

definition EXEMPT_PATHS :: "string list" where
  "EXEMPT_PATHS = [''/api/health'', ''/api/auth/login'']"

definition is_exempt :: "string \<Rightarrow> bool" where
  "is_exempt path = list_ex (\<lambda>p. eq_ignore_ascii_case p path) EXEMPT_PATHS"

definition HEADER_NAME :: string where
  "HEADER_NAME = ''X-Session-Key''"

text \<open>\<open>nxt\<close> is the rest of the router.\<close>

definition require_session_key :: "('d, 'r) admin_env \<Rightarrow> request \<Rightarrow> ('k, 'r) handler \<Rightarrow> ('k, 'r) handler" where
  "require_session_key e rq nxt st =
     (if is_exempt (rq_path rq) then nxt st
      else (case rq_session_key rq of
          None \<Rightarrow> ((UNAUTHORIZED, TextBody (''missing '' @ HEADER_NAME @ '' header'')), st)
        | Some key \<Rightarrow>
            (case key_validate (ae_redis e) (ae_config e) (ae_now e) (unwrap_or key []) (as_redis st) of
               (Inr (Some _), r) \<Rightarrow> nxt (st\<lparr>as_redis := r\<rparr>)
             | (Inr None, r) \<Rightarrow>
                 ((UNAUTHORIZED, TextBody ''invalid or expired session key''), st\<lparr>as_redis := r\<rparr>)
             | (Inl _, r) \<Rightarrow> internal_error (st\<lparr>as_redis := r\<rparr>))))"

definition admin_request :: "('d, 'r) admin_env \<Rightarrow> request \<Rightarrow> ('k, 'r) handler" where
  "admin_request e rq = require_session_key e rq (dispatch e rq)"

end
