(* ===== verification/Admin_Keys.thy ===== *)
theory Admin_Keys
  imports Admin
begin

text \<open>
  The life of the admin session keys over any history of requests: where a key that is let through
  comes from, how long it lasts, and that nothing happens without one.
\<close>

section \<open>What the Redis commands do\<close>

text \<open>
  \<open>entry r k\<close> is the value of \<open>k\<close> and when it expires. A command that fails may have had its effect or
  not.
\<close>

definition key_live :: "('r \<Rightarrow> string \<rightharpoonup> string \<times> instant) \<Rightarrow> instant \<Rightarrow> string \<Rightarrow> 'r \<Rightarrow> string option" where
  "key_live entry now k r =
     (case entry r k of None \<Rightarrow> None | Some (v, d) \<Rightarrow> if now < d then Some v else None)"

definition renewed :: "instant \<Rightarrow> string \<Rightarrow> int \<Rightarrow> (string \<rightharpoonup> string \<times> instant) \<Rightarrow> (string \<rightharpoonup> string \<times> instant)" where
  "renewed now k secs m =
     (case m k of
        None \<Rightarrow> m
      | Some (v, d) \<Rightarrow>
          if now < d then m(k := if 0 < secs then Some (v, now + from_secs (nat secs)) else None) else m)"

definition key_laws :: "'r key_redis \<Rightarrow> ('r \<Rightarrow> string \<rightharpoonup> string \<times> instant) \<Rightarrow> bool" where
  "key_laws kr entry \<longleftrightarrow>
     (\<forall>now k r v. kr_get kr now k r = Inr v \<longrightarrow> v = key_live entry now k r) \<and>
     (\<forall>now k v secs r x r'. kr_set_ex kr now k v secs r = (x, r') \<longrightarrow>
        entry r' = (entry r)(k \<mapsto> (v, now + from_secs (unat secs))) \<or> isl x \<and> entry r' = entry r) \<and>
     (\<forall>now k secs r x r'. kr_expire kr now k secs r = (x, r') \<longrightarrow>
        entry r' = renewed now k secs (entry r) \<or> isl x \<and> entry r' = entry r) \<and>
     (\<forall>now k r x r'. kr_del kr now k r = (x, r') \<longrightarrow>
        entry r' = (entry r)(k := None) \<or> isl x \<and> entry r' = entry r) \<and>
     (\<forall>c m r x r'. kr_publish kr c m r = (x, r') \<longrightarrow> entry r' = entry r)"

lemma key_lawsD:
  assumes "key_laws kr entry"
  shows "kr_get kr now k r = Inr v \<Longrightarrow> v = key_live entry now k r"
    and "kr_set_ex kr now k u secs r = (x, r') \<Longrightarrow>
      entry r' = (entry r)(k \<mapsto> (u, now + from_secs (unat secs))) \<or> isl x \<and> entry r' = entry r"
    and "kr_expire kr now k s r = (y, r') \<Longrightarrow>
      entry r' = renewed now k s (entry r) \<or> isl y \<and> entry r' = entry r"
    and "kr_del kr now k r = (z, r') \<Longrightarrow> entry r' = (entry r)(k := None) \<or> isl z \<and> entry r' = entry r"
    and "kr_publish kr c m r = (q, r') \<Longrightarrow> entry r' = entry r"
  using assms by (simp_all add: key_laws_def)

section \<open>Histories\<close>

text \<open>
  Requests one after the other, and between them what the sessions and their tasks do to the registry.
\<close>

datatype ('k, 'd, 'r) admin_event =
  Request "('d, 'r) admin_env" request | Registry_Ops "'k registry_op list"

fun admin_step :: "('k, 'd, 'r) admin_event \<Rightarrow> ('k, 'r) admin_state \<Rightarrow> ('k, 'r) admin_state" where
  "admin_step (Request e rq) st = snd (admin_request e rq st)"
| "admin_step (Registry_Ops ops) st =
     (case fold registry_step ops (as_registry st, as_cancelled st) of
        (r, C) \<Rightarrow> st\<lparr>as_registry := r, as_cancelled := C\<rparr>)"

definition admin_run :: "('k, 'd, 'r) admin_event list \<Rightarrow> ('k, 'r) admin_state \<Rightarrow> ('k, 'r) admin_state" where
  "admin_run evs st = fold admin_step evs st"

text \<open>A login that gets a key: of an administrator, with the stored password.\<close>

definition admin_grants :: "('d, 'r) admin_env \<Rightarrow> request \<Rightarrow> string \<Rightarrow> string \<Rightarrow> bool" where
  "admin_grants e rq key uid \<longleftrightarrow>
     rq_path rq = ''/api/auth/login'' \<and> rq_method rq = POST \<and> rq_user_id rq = uid \<and>
     uid \<in> set (ac_admins (ae_config e)) \<and> ae_random_key e = key \<and>
     (case am_select_password (ae_mysql e) uid (ae_db e) of
        Inr (Some (stored_hash, salt)) \<Rightarrow>
          verify (ae_crypto e) (client_hash (ae_crypto e) (map of_char (rq_password rq))) stored_hash salt
            = Inr True
      | _ \<Rightarrow> False)"

definition admin_uses :: "request \<Rightarrow> string \<Rightarrow> bool" where
  "admin_uses rq key \<longleftrightarrow> \<not> is_exempt (rq_path rq) \<and> rq_session_key rq = Some (Some key)"

definition admin_revokes :: "('d, 'r) admin_env \<Rightarrow> request \<Rightarrow> string \<Rightarrow> ('k, 'r) admin_state \<Rightarrow> bool" where
  "admin_revokes e rq key st \<longleftrightarrow>
     rq_path rq = ''/api/auth/logout'' \<and> rq_session_key rq = Some (Some key) \<and>
     fst (fst (admin_request e rq st)) = NO_CONTENT"

fun revoked_in :: "string \<Rightarrow> ('k, 'd, 'r) admin_event list \<Rightarrow> ('k, 'r) admin_state \<Rightarrow> bool" where
  "revoked_in key [] st = False"
| "revoked_in key (ev # evs) st =
     ((case ev of Request e rq \<Rightarrow> admin_revokes e rq key st | Registry_Ops _ \<Rightarrow> False) \<or>
      revoked_in key evs (admin_step ev st))"

lemma revoked_in_append:
  "revoked_in key (evs @ evs') st \<longleftrightarrow> revoked_in key evs st \<or> revoked_in key evs' (admin_run evs st)"
  by (induction evs arbitrary: st) (auto simp: admin_run_def)

lemma admin_run_snoc [simp]: "admin_run (evs @ [ev]) st = admin_step ev (admin_run evs st)"
  by (simp add: admin_run_def)

section \<open>What a request does to the keys\<close>

lemma route_of_cases:
  "route_of path = Some rt \<Longrightarrow>
    (rt = Login_Route \<longrightarrow> path = ''/api/auth/login'') \<and> (rt = Logout_Route \<longrightarrow> path = ''/api/auth/logout'')"
  by (auto simp: route_of_def split: if_splits)

lemma route_of_logout: "route_of ''/api/auth/logout'' = Some Logout_Route"
  by (simp add: route_of_def)

lemma not_exempt_logout: "\<not> is_exempt ''/api/auth/logout''" by code_simp

lemma exempt_login: "is_exempt ''/api/auth/login''" by code_simp


lemma admin_login_grants:
  assumes "rq_path rq = ''/api/auth/login''" "rq_method rq = POST"
  shows "snd (admin_login e rq st) = st \<or>
    (\<exists>x r. kr_set_ex (ae_redis e) (ae_now e) (ac_redis_key_prefix (ae_config e) @ ae_random_key e)
        (rq_user_id rq) (key_ttl (ae_config e)) (as_redis st) = (x, r) \<and>
      snd (admin_login e rq st) = st\<lparr>as_redis := r\<rparr> \<and>
      admin_grants e rq (ae_random_key e) (rq_user_id rq))"
  using assms
  by (simp add: admin_login_def internal_error_def key_issue_def admin_grants_def
      split: option.split sum.split prod.split)

text \<open>What a handler changes, by its route.\<close>

lemma dispatch_quiet:
  assumes "route_of (rq_path rq) = Some rt" "rt \<notin> {Login_Route, Logout_Route, Notice_Route}"
  shows "as_redis (snd (dispatch e rq st)) = as_redis st"
  using assms
  by (cases rt) (auto simp: dispatch_def extracted_def admin_health_def scores_by_account_def
      scores_top_def admin_sessions_def admin_disconnect_def admin_stats_def internal_error_def Let_def
      split: option.split sum.split prod.split)

lemma dispatch_login:
  assumes "route_of (rq_path rq) = Some Login_Route"
  shows "as_redis (snd (dispatch e rq st)) = as_redis st \<or>
    (\<exists>x. kr_set_ex (ae_redis e) (ae_now e) (ac_redis_key_prefix (ae_config e) @ ae_random_key e)
        (rq_user_id rq) (key_ttl (ae_config e)) (as_redis st) = (x, as_redis (snd (dispatch e rq st))) \<and>
      admin_grants e rq (ae_random_key e) (rq_user_id rq))"
proof (cases "rq_method rq = POST \<and> rq_rejection rq = None")
  case True
  then have "dispatch e rq st = admin_login e rq st"
    using assms by (simp add: dispatch_def extracted_def)
  then show ?thesis
    using admin_login_grants [of rq e st] route_of_cases [OF assms] True by force
next
  case False
  then show ?thesis using assms by (auto simp: dispatch_def extracted_def split: option.split)
qed

lemma dispatch_logout:
  assumes "route_of (rq_path rq) = Some Logout_Route"
  shows "(as_redis (snd (dispatch e rq st)) = as_redis st \<and>
      (rq_session_key rq = Some (Some key) \<longrightarrow> fst (fst (dispatch e rq st)) \<noteq> NO_CONTENT)) \<or>
    (\<exists>k x. rq_session_key rq = Some (Some k) \<and>
      kr_del (ae_redis e) (ae_now e) (ac_redis_key_prefix (ae_config e) @ k) (as_redis st) =
        (x, as_redis (snd (dispatch e rq st))) \<and>
      (fst (fst (dispatch e rq st)) = NO_CONTENT \<longrightarrow> \<not> isl x))"
proof (cases "rq_method rq = POST")
  case True
  then have d: "dispatch e rq st = admin_logout e rq st"
    using assms by (simp add: dispatch_def)
  show ?thesis
  proof (cases "\<exists>k. rq_session_key rq = Some (Some k)")
    case False
    then show ?thesis by (auto simp: d admin_logout_def split: option.split)
  next
    case True
    then obtain k where k: "rq_session_key rq = Some (Some k)" by blast
    obtain x r where "kr_del (ae_redis e) (ae_now e) (ac_redis_key_prefix (ae_config e) @ k)
        (as_redis st) = (x, r)" by fastforce
    then show ?thesis using k
      by (intro disjI2 exI [of _ k] exI [of _ x])
        (simp add: d admin_logout_def key_revoke_def internal_error_def split: sum.splits)
  qed
qed (use assms in \<open>simp add: dispatch_def\<close>)

lemma dispatch_notice:
  assumes "route_of (rq_path rq) = Some Notice_Route"
  shows "as_redis (snd (dispatch e rq st)) = as_redis st \<or>
    (\<exists>c m x. kr_publish (ae_redis e) c m (as_redis st) = (x, as_redis (snd (dispatch e rq st))))"
proof -
  obtain x r where "kr_publish (ae_redis e) (ac_broadcast_channel (ae_config e)) (rq_message rq)
      (as_redis st) = (x, r)" by fastforce
  then have "as_redis (snd (dispatch e rq st)) \<in> {as_redis st, r}"
    using assms by (auto simp: dispatch_def extracted_def admin_notice_def internal_error_def
        split: if_splits option.splits sum.splits)
  with \<open>kr_publish _ _ _ _ = _\<close> show ?thesis by auto
qed

lemma dispatch_cases:
  obtains (same) "as_redis (snd (dispatch e rq st)) = as_redis st"
      "rq_path rq = ''/api/auth/logout'' \<Longrightarrow> rq_session_key rq = Some (Some key) \<Longrightarrow>
        fst (fst (dispatch e rq st)) \<noteq> NO_CONTENT"
    | (grant) x where "kr_set_ex (ae_redis e) (ae_now e) (ac_redis_key_prefix (ae_config e) @ ae_random_key e)
        (rq_user_id rq) (key_ttl (ae_config e)) (as_redis st) = (x, as_redis (snd (dispatch e rq st)))"
      "admin_grants e rq (ae_random_key e) (rq_user_id rq)"
    | (revoke) k x where "rq_path rq = ''/api/auth/logout''" "rq_session_key rq = Some (Some k)"
      "kr_del (ae_redis e) (ae_now e) (ac_redis_key_prefix (ae_config e) @ k) (as_redis st) =
        (x, as_redis (snd (dispatch e rq st)))"
      "fst (fst (dispatch e rq st)) = NO_CONTENT \<Longrightarrow> \<not> isl x"
    | (notice) c m x where "kr_publish (ae_redis e) c m (as_redis st) = (x, as_redis (snd (dispatch e rq st)))"
      "rq_path rq = ''/api/notice''"
proof (cases "route_of (rq_path rq)")
  case None
  then show ?thesis by (intro same) (simp_all add: dispatch_def)
next
  case (Some rt)
  note route = route_of_cases [OF Some]
  have elsewhere: "rq_path rq \<noteq> ''/api/auth/logout''" if "rt \<noteq> Logout_Route"
    using that Some by (auto simp: route_of_logout)
  consider "rt = Login_Route" | "rt = Logout_Route" | "rt = Notice_Route"
    | "rt \<notin> {Login_Route, Logout_Route, Notice_Route}" by blast
  then show ?thesis
  proof cases
    case 1
    with Some dispatch_login [of rq e st] elsewhere show ?thesis using same grant by blast
  next
    case 2
    with Some dispatch_logout [of rq e st key] route show ?thesis using same revoke by blast
  next
    case 3
    with Some have "rq_path rq = ''/api/notice''" by (auto simp: route_of_def split: if_splits)
    with 3 Some dispatch_notice [of rq e st] elsewhere show ?thesis using same notice by blast
  next
    case 4
    with dispatch_quiet [OF Some 4] elsewhere show ?thesis by (intro same) auto
  qed
qed

lemma key_validate_cases:
  assumes "key_validate kr cfg now key r = (v, r')"
  obtains (invalid) "r' = r" "\<forall>uid. v \<noteq> Inr (Some uid)" "isl v \<longrightarrow> isl (kr_get kr now (ac_redis_key_prefix cfg @ key) r)"
      "\<forall>uid. uid \<noteq> [] \<longrightarrow> key \<noteq> [] \<longrightarrow> kr_get kr now (ac_redis_key_prefix cfg @ key) r \<noteq> Inr (Some uid)"
    | (valid) uid x where "key \<noteq> []" "kr_get kr now (ac_redis_key_prefix cfg @ key) r = Inr (Some uid)" "uid \<noteq> []"
      "kr_expire kr now (ac_redis_key_prefix cfg @ key) (sint (key_ttl cfg)) r = (x, r')"
      "v = (case x of Inl e \<Rightarrow> Inl e | Inr _ \<Rightarrow> Inr (Some uid))"
proof (cases "kr_get kr now (ac_redis_key_prefix cfg @ key) r")
  case (Inl e)
  with assms show ?thesis by (intro invalid) (auto simp: key_validate_def split: if_splits)
next
  case (Inr found)
  show ?thesis
  proof (cases "key \<noteq> [] \<and> (\<exists>uid. found = Some uid \<and> uid \<noteq> [])")
    case True
    then obtain uid where "found = Some uid" "uid \<noteq> []" "key \<noteq> []" by blast
    moreover obtain x r1 where "kr_expire kr now (ac_redis_key_prefix cfg @ key) (sint (key_ttl cfg)) r = (x, r1)"
      by fastforce
    ultimately show ?thesis using assms Inr
      by (intro valid [of uid x]) (auto simp: key_validate_def split: sum.splits)
  next
    case False
    with assms have "v = Inr None \<and> r' = r"
      by (auto simp: key_validate_def Inr split: if_splits option.splits)
    with False Inr show ?thesis by (intro invalid) auto
  qed
qed

text \<open>What the middleware does: it lets a request through, or answers itself.\<close>

lemma admin_request_cases:
  obtains (exempt) "is_exempt (rq_path rq)" "admin_request e rq st = dispatch e rq st"
    | (refused) "\<not> is_exempt (rq_path rq)" "snd (admin_request e rq st) = st"
      "fst (fst (admin_request e rq st)) \<in> {UNAUTHORIZED, INTERNAL_SERVER_ERROR}"
      "fst (fst (admin_request e rq st)) = INTERNAL_SERVER_ERROR \<Longrightarrow>
        \<exists>k. isl (kr_get (ae_redis e) (ae_now e) k (as_redis st))"
      "\<forall>key uid. rq_session_key rq = Some (Some key) \<longrightarrow> uid \<noteq> [] \<longrightarrow> key \<noteq> [] \<longrightarrow>
        kr_get (ae_redis e) (ae_now e) (ac_redis_key_prefix (ae_config e) @ key) (as_redis st) \<noteq> Inr (Some uid)"
    | (failed) key x r where "\<not> is_exempt (rq_path rq)" "rq_session_key rq = Some (Some key)"
      "kr_expire (ae_redis e) (ae_now e) (ac_redis_key_prefix (ae_config e) @ key)
        (sint (key_ttl (ae_config e))) (as_redis st) = (x, r)"
      "snd (admin_request e rq st) = st\<lparr>as_redis := r\<rparr>"
      "fst (fst (admin_request e rq st)) = INTERNAL_SERVER_ERROR" "isl x" "key \<noteq> []"
      "\<exists>uid. uid \<noteq> [] \<and> kr_get (ae_redis e) (ae_now e) (ac_redis_key_prefix (ae_config e) @ key)
        (as_redis st) = Inr (Some uid)"
    | (let_in) key uid x r where "\<not> is_exempt (rq_path rq)" "rq_session_key rq = Some (Some key)"
      "kr_get (ae_redis e) (ae_now e) (ac_redis_key_prefix (ae_config e) @ key) (as_redis st) = Inr (Some uid)"
      "uid \<noteq> []" "key \<noteq> []"
      "kr_expire (ae_redis e) (ae_now e) (ac_redis_key_prefix (ae_config e) @ key)
        (sint (key_ttl (ae_config e))) (as_redis st) = (x, r)" "\<not> isl x"
      "admin_request e rq st = dispatch e rq (st\<lparr>as_redis := r\<rparr>)"
proof (cases "is_exempt (rq_path rq)")
  case True
  then show ?thesis by (intro exempt) (simp_all add: admin_request_def require_session_key_def)
next
  case False
  show ?thesis
  proof (cases "rq_session_key rq")
    case None
    with False show ?thesis by (intro refused) (simp_all add: admin_request_def require_session_key_def)
  next
    case (Some h)
    obtain v r where val: "key_validate (ae_redis e) (ae_config e) (ae_now e) (unwrap_or h []) (as_redis st) = (v, r)"
      by fastforce
    have req: "admin_request e rq st =
        (case v of Inl _ \<Rightarrow> internal_error (st\<lparr>as_redis := r\<rparr>)
         | Inr None \<Rightarrow> ((UNAUTHORIZED, TextBody ''invalid or expired session key''), st\<lparr>as_redis := r\<rparr>)
         | Inr (Some _) \<Rightarrow> dispatch e rq (st\<lparr>as_redis := r\<rparr>))"
      using False Some val by (simp add: admin_request_def require_session_key_def split: sum.split option.split)
    from val show ?thesis
    proof (cases rule: key_validate_cases)
      case invalid
      then show ?thesis using False req
        by (intro refused) (auto simp: internal_error_def unwrap_or_def Some split: sum.splits option.splits)
    next
      case (valid uid x)
      from valid have "h = Some (unwrap_or h [])" by (cases h) (auto simp: unwrap_or_def)
      with Some have header: "rq_session_key rq = Some (Some (unwrap_or h []))" by simp
      show ?thesis
      proof (cases x)
        case (Inl a)
        with False valid header req show ?thesis
          by (intro failed [of "unwrap_or h []" x r]) (auto simp: internal_error_def)
      next
        case (Inr b)
        with False valid header req show ?thesis by (intro let_in [of "unwrap_or h []" uid x r]) simp_all
      qed
    qed
  qed
qed

lemma nat_sint_eq: "0 < sint w \<Longrightarrow> nat (sint w) = unat w" for w :: u64
proof -
  assume "0 < sint w"
  then have "\<not> bit w 63" using bit_last_iff [of w] by simp
  then have "sint w = uint w" by (intro bit_eqI) (auto simp: bit_sint_iff bit_uint_iff dest: bit_imp_le_length)
  then show ?thesis by simp
qed

lemma nat_sint_le: "nat (sint w) \<le> unat w" for w :: u64
  using nat_sint_eq [of w] by (cases "0 < sint w") auto

lemma admin_revokes_cases:
  "admin_revokes e rq key st \<Longrightarrow> is_exempt (rq_path rq) \<Longrightarrow> False"
  by (simp add: admin_revokes_def not_exempt_logout)

text \<open>
  A key that is there after a request was there before it, renewed at most by a request that used it and
  not revoked; or the request is a login that got it.
\<close>

lemma admin_request_entry:
  fixes st :: "('k, 'r) admin_state"
  assumes laws: "key_laws (ae_redis e) entry"
    and after: "entry (as_redis (snd (admin_request e rq st))) (ac_redis_key_prefix (ae_config e) @ key) = Some (uid, d)"
  shows "(\<exists>d'. entry (as_redis st) (ac_redis_key_prefix (ae_config e) @ key) = Some (uid, d') \<and>
      \<not> admin_revokes e rq key st \<and>
      (d = d' \<or> admin_uses rq key \<and> d \<le> ae_now e + from_secs (unat (key_ttl (ae_config e))))) \<or>
    admin_grants e rq key uid \<and> d = ae_now e + from_secs (unat (key_ttl (ae_config e)))"
proof -
  let ?p = "ac_redis_key_prefix (ae_config e)" and ?ttl = "from_secs (unat (key_ttl (ae_config e)))"
  have renew: "\<exists>d'. entry (as_redis st) (?p @ key) = Some (uid, d') \<and>
      (d = d' \<or> admin_uses rq key \<and> d \<le> ae_now e + ?ttl)"
    if "entry r (?p @ key) = Some (uid, d)" "\<not> is_exempt (rq_path rq)" "rq_session_key rq = Some (Some k)"
      "kr_expire (ae_redis e) (ae_now e) (?p @ k) (sint (key_ttl (ae_config e))) (as_redis st) = (x, r)" for k x r
    using key_lawsD(3) [OF laws that(4)] that(1-3) nat_sint_le [of "key_ttl (ae_config e)"]
    by (auto simp: renewed_def admin_uses_def from_secs_def split: option.splits if_splits)
  have disp: "entry (as_redis st1) (?p @ key) = Some (uid, d) \<and>
      \<not> (rq_path rq = ''/api/auth/logout'' \<and> rq_session_key rq = Some (Some key) \<and>
         fst (fst (dispatch e rq st1)) = NO_CONTENT) \<or>
    admin_grants e rq key uid \<and> d = ae_now e + ?ttl"
    if "entry (as_redis (snd (dispatch e rq st1))) (?p @ key) = Some (uid, d)" for st1 :: "('k, 'r) admin_state"
  proof (cases rule: dispatch_cases [of e rq st1 key])
    case same
    with that show ?thesis by auto
  next
    case (grant x)
    with that key_lawsD(2) [OF laws grant(1)] show ?thesis
      by (auto simp: admin_grants_def split: if_splits)
  next
    case (revoke k x)
    with that key_lawsD(4) [OF laws revoke(3)] show ?thesis by (auto split: if_splits)
  next
    case (notice c m x)
    with that key_lawsD(5) [OF laws notice(1)] show ?thesis by auto
  qed
  show ?thesis
  proof (cases rule: admin_request_cases [of rq e st])
    case exempt
    with disp [of st] after show ?thesis by (auto dest: admin_revokes_cases)
  next
    case refused
    with after show ?thesis by (auto simp: admin_revokes_def)
  next
    case (failed k x r)
    with renew [of r k x] after show ?thesis by (auto simp: admin_revokes_def)
  next
    case (let_in k u x r)
    with disp [of "st\<lparr>as_redis := r\<rparr>"] renew [of r k x] after show ?thesis
      by (auto simp: admin_revokes_def)
  qed
qed

section \<open>Where the keys come from\<close>

text \<open>
  The key \<open>k\<close> of \<open>uid\<close> is accounted for by a history: a login got it, no request revoked it since, and
  one of the requests since then, or the login itself, is at most the time to live before \<open>d\<close>.
\<close>

definition at_most_before :: "duration \<Rightarrow> instant \<Rightarrow> string \<Rightarrow> ('k, 'd, 'r) admin_event \<Rightarrow> bool" where
  "at_most_before ttl d key ev \<longleftrightarrow>
     (case ev of Request e rq \<Rightarrow> (admin_uses rq key \<or> admin_grants e rq key (rq_user_id rq)) \<and> d \<le> ae_now e + ttl
      | Registry_Ops _ \<Rightarrow> False)"

definition key_accounted :: "duration \<Rightarrow> string \<Rightarrow> string \<Rightarrow> instant \<Rightarrow>
    ('k, 'd, 'r) admin_event list \<Rightarrow> ('k, 'r) admin_state \<Rightarrow> bool" where
  "key_accounted ttl key uid d evs st \<longleftrightarrow>
     (\<exists>before e rq since. evs = before @ Request e rq # since \<and> admin_grants e rq key uid \<and>
        \<not> revoked_in key since (admin_run (before @ [Request e rq]) st) \<and>
        list_ex (at_most_before ttl d key) (Request e rq # since))"

lemma key_accounted_snoc:
  assumes "key_accounted ttl key uid d evs st"
    and "case ev of Request e rq \<Rightarrow> \<not> admin_revokes e rq key (admin_run evs st) | Registry_Ops _ \<Rightarrow> True"
    and "d' = d \<or> at_most_before ttl d' key ev"
  shows "key_accounted ttl key uid d' (evs @ [ev]) st"
proof -
  obtain before e rq since where evs: "evs = before @ Request e rq # since"
    and "admin_grants e rq key uid"
    and unrevoked: "\<not> revoked_in key since (admin_run (before @ [Request e rq]) st)"
    and recent: "list_ex (at_most_before ttl d key) (Request e rq # since)"
    using assms(1) by (auto simp: key_accounted_def)
  moreover have "admin_run since (admin_run (before @ [Request e rq]) st) = admin_run evs st"
    by (simp add: admin_run_def evs)
  with unrevoked assms(2) have "\<not> revoked_in key (since @ [ev]) (admin_run (before @ [Request e rq]) st)"
    by (simp add: revoked_in_append split: admin_event.splits)
  moreover from recent assms(3) have "list_ex (at_most_before ttl d' key) (Request e rq # since @ [ev])"
    by auto
  ultimately show ?thesis unfolding key_accounted_def by (intro exI [of _ before] exI [of _ e] exI [of _ rq] exI [of _ "since @ [ev]"]) auto
qed

lemma key_accounted_grant:
  "admin_grants e rq key uid \<Longrightarrow> d \<le> ae_now e + ttl \<Longrightarrow>
    key_accounted ttl key uid d (evs @ [Request e rq]) st"
  unfolding key_accounted_def
  by (rule exI [of _ evs], rule exI [of _ e], rule exI [of _ rq], rule exI [of _ "[]"])
    (auto simp: at_most_before_def admin_grants_def)

text \<open>The API runs with one configuration and one Redis.\<close>

definition one_api :: "'r key_redis \<Rightarrow> admin_config \<Rightarrow> ('k, 'd, 'r) admin_event list \<Rightarrow> bool" where
  "one_api kr cfg evs \<longleftrightarrow>
     list_all (\<lambda>ev. case ev of Request e rq \<Rightarrow> ae_redis e = kr \<and> ae_config e = cfg | Registry_Ops _ \<Rightarrow> True) evs"

lemma admin_run_keys:
  assumes laws: "key_laws kr entry" and "one_api kr cfg evs"
    and start: "\<forall>key. entry (as_redis st0) (ac_redis_key_prefix cfg @ key) = None"
    and "entry (as_redis (admin_run evs st0)) (ac_redis_key_prefix cfg @ key) = Some (uid, d)"
  shows "key_accounted (from_secs (unat (key_ttl cfg))) key uid d evs st0"
  using assms(2, 4)
proof (induction evs arbitrary: d rule: rev_induct)
  case Nil
  with start show ?case by (simp add: admin_run_def)
next
  case (snoc ev evs)
  show ?case
  proof (cases ev)
    case (Request e rq)
    with snoc.prems have e: "ae_redis e = kr" "ae_config e = cfg" and evs: "one_api kr cfg evs"
      and "entry (as_redis (snd (admin_request e rq (admin_run evs st0)))) (ac_redis_key_prefix cfg @ key)
        = Some (uid, d)"
      by (simp_all add: one_api_def)
    with admin_request_entry [of e entry rq "admin_run evs st0" key uid d] laws consider
        (kept) d' where "entry (as_redis (admin_run evs st0)) (ac_redis_key_prefix cfg @ key) = Some (uid, d')"
          "\<not> admin_revokes e rq key (admin_run evs st0)"
          "d = d' \<or> admin_uses rq key \<and> d \<le> ae_now e + from_secs (unat (key_ttl cfg))"
      | (granted) "admin_grants e rq key uid" "d \<le> ae_now e + from_secs (unat (key_ttl cfg))"
      by fastforce
    then show ?thesis
    proof cases
      case kept
      from snoc.IH [OF evs kept(1)] show ?thesis
        by (rule key_accounted_snoc) (use kept Request in \<open>auto simp: at_most_before_def\<close>)
    next
      case granted
      then show ?thesis unfolding Request by (rule key_accounted_grant)
    qed
  next
    case (Registry_Ops ops)
    with snoc show ?thesis
      by (auto intro: key_accounted_snoc simp: one_api_def split: prod.splits)
  qed
qed

text \<open>
  C15. Who gets past the middleware is an administrator: if any history of requests left to one
  configuration starts without keys, a request to a guarded path that is neither refused nor fails
  carries a key that an earlier login got, for a user on the list of administrators whose stored
  password it gave; the key was not revoked since, and it was used (or issued) less than the time
  to live ago.
\<close>

theorem admin_requests_are_earned:
  assumes "key_laws kr entry" and "one_api kr cfg (evs @ [Request e rq])"
    and "\<forall>key. entry (as_redis st0) (ac_redis_key_prefix cfg @ key) = None"
    and "\<not> is_exempt (rq_path rq)"
    and "fst (fst (admin_request e rq (admin_run evs st0))) \<notin> {UNAUTHORIZED, INTERNAL_SERVER_ERROR}"
  shows "\<exists>key uid before e0 rq0 since. rq_session_key rq = Some (Some key) \<and>
    evs = before @ Request e0 rq0 # since \<and> admin_grants e0 rq0 key uid \<and>
    \<not> revoked_in key since (admin_run (before @ [Request e0 rq0]) st0) \<and>
    (\<exists>e1 rq1. Request e1 rq1 \<in> set (Request e0 rq0 # since) \<and>
       (admin_uses rq1 key \<or> admin_grants e1 rq1 key (rq_user_id rq1)) \<and>
       ae_now e < ae_now e1 + from_secs (unat (key_ttl cfg)))"
proof (cases rule: admin_request_cases [of rq e "admin_run evs st0"])
  case (let_in key uid x r)
  from assms(2) have e: "ae_redis e = kr" "ae_config e = cfg" and evs: "one_api kr cfg evs"
    by (simp_all add: one_api_def)
  from let_in key_lawsD(1) [OF assms(1)] e obtain d
    where d: "entry (as_redis (admin_run evs st0)) (ac_redis_key_prefix cfg @ key) = Some (uid, d)" "ae_now e < d"
    by (fastforce simp: key_live_def split: option.splits if_splits)
  from admin_run_keys [OF assms(1) evs assms(3) d(1)] obtain before e0 rq0 since where
    "evs = before @ Request e0 rq0 # since" "admin_grants e0 rq0 key uid"
    "\<not> revoked_in key since (admin_run (before @ [Request e0 rq0]) st0)"
    and recent: "list_ex (at_most_before (from_secs (unat (key_ttl cfg))) d key) (Request e0 rq0 # since)"
    by (auto simp: key_accounted_def)
  moreover from recent obtain ev where ev: "ev \<in> set (Request e0 rq0 # since)"
    "at_most_before (from_secs (unat (key_ttl cfg))) d key ev" by (auto simp: list_ex_iff)
  from ev(2) obtain e1 rq1 where "ev = Request e1 rq1" "admin_uses rq1 key \<or> admin_grants e1 rq1 key (rq_user_id rq1)"
    "d \<le> ae_now e1 + from_secs (unat (key_ttl cfg))"
    by (cases ev) (auto simp: at_most_before_def)
  with ev(1) d(2) have "\<exists>e1 rq1. Request e1 rq1 \<in> set (Request e0 rq0 # since) \<and>
       (admin_uses rq1 key \<or> admin_grants e1 rq1 key (rq_user_id rq1)) \<and>
       ae_now e < ae_now e1 + from_secs (unat (key_ttl cfg))"
    using less_le_trans by blast
  ultimately show ?thesis using let_in(2) by blast
qed (use assms in auto)

section \<open>How long a key lasts\<close>

lemma dispatch_authorized:
  assumes "\<not> is_exempt (rq_path rq)"
  shows "fst (fst (dispatch e rq st)) \<noteq> UNAUTHORIZED"
proof (cases "route_of (rq_path rq)")
  case None
  then show ?thesis by (simp add: dispatch_def)
next
  case (Some rt)
  have rejected: "rejection_status x \<noteq> UNAUTHORIZED" for x by (cases x) simp_all
  from Some assms exempt_login route_of_cases have "rt \<noteq> Login_Route" by metis
  then have "fst (fst (run_route e rq rt st)) \<noteq> UNAUTHORIZED"
    by (cases rt) (auto simp: extracted_def admin_logout_def admin_health_def admin_notice_def rejected
        scores_by_account_def scores_top_def admin_sessions_def admin_disconnect_def admin_stats_def
        internal_error_def Let_def split: option.split sum.split prod.split)
  with Some show ?thesis by (auto simp: dispatch_def split: prod.split)
qed

text \<open>The requests that neither revoke the key nor happen to be given the same random key.\<close>

definition request_leaves_key :: "string \<Rightarrow> ('d, 'r) admin_env \<Rightarrow> request \<Rightarrow> bool" where
  "request_leaves_key key e rq \<longleftrightarrow>
     ae_random_key e \<noteq> key \<and> \<not> (rq_path rq = ''/api/auth/logout'' \<and> rq_session_key rq = Some (Some key))"

fun leaves_key :: "string \<Rightarrow> ('k, 'd, 'r) admin_event \<Rightarrow> bool" where
  "leaves_key key (Request e rq) \<longleftrightarrow> request_leaves_key key e rq"
| "leaves_key key (Registry_Ops ops) \<longleftrightarrow> True"

text \<open>When the key was last used in time, counting its issue at \<open>t\<close>.\<close>

fun last_use :: "duration \<Rightarrow> string \<Rightarrow> instant \<Rightarrow> ('k, 'd, 'r) admin_event list \<Rightarrow> instant" where
  "last_use ttl key t [] = t"
| "last_use ttl key t (Request e rq # evs) =
     last_use ttl key (if admin_uses rq key \<and> ae_now e < t + ttl then ae_now e else t) evs"
| "last_use ttl key t (Registry_Ops ops # evs) = last_use ttl key t evs"

definition reliable :: "'r key_redis \<Rightarrow> bool" where
  "reliable kr \<longleftrightarrow> (\<forall>now k r. \<not> isl (kr_get kr now k r)) \<and> (\<forall>now k s r. \<not> isl (fst (kr_expire kr now k s r)))"

lemma dispatch_leaves_key:
  assumes "key_laws (ae_redis e) entry" "request_leaves_key key e rq"
  shows "entry (as_redis (snd (dispatch e rq st))) (ac_redis_key_prefix (ae_config e) @ key) =
    entry (as_redis st) (ac_redis_key_prefix (ae_config e) @ key)"
proof (cases rule: dispatch_cases [of e rq st key])
  case (grant x)
  with key_lawsD(2) [OF assms(1) grant(1)] assms(2) show ?thesis by (auto simp: request_leaves_key_def)
next
  case (revoke k x)
  with key_lawsD(4) [OF assms(1) revoke(3)] assms(2) show ?thesis by (auto simp: request_leaves_key_def)
next
  case (notice c m x)
  with key_lawsD(5) [OF assms(1) notice(1)] show ?thesis by simp
qed simp

lemma admin_request_slides:
  assumes laws: "key_laws (ae_redis e) entry" "reliable (ae_redis e)" and "0 < sint (key_ttl (ae_config e))"
    and ttl: "ttl = from_secs (unat (key_ttl (ae_config e)))"
    and live: "entry (as_redis st) (ac_redis_key_prefix (ae_config e) @ key) = Some (uid, t + ttl)"
    and "uid \<noteq> []" "key \<noteq> []" and leaves: "request_leaves_key key e rq"
  shows "entry (as_redis (snd (admin_request e rq st))) (ac_redis_key_prefix (ae_config e) @ key) =
      Some (uid, (if admin_uses rq key \<and> ae_now e < t + ttl then ae_now e else t) + ttl)"
proof -
  let ?p = "ac_redis_key_prefix (ae_config e)"
  have get: "kr_get (ae_redis e) (ae_now e) (?p @ k) (as_redis st) = Inr (key_live entry (ae_now e) (?p @ k) (as_redis st))"
    for k
    using laws by (cases "kr_get (ae_redis e) (ae_now e) (?p @ k) (as_redis st)")
      (auto simp: reliable_def dest: key_lawsD(1) [OF laws(1)] dest!: spec [of _ "ae_now e"] spec [of _ "?p @ k"]
        spec [of _ "as_redis st"])
  have nat_ttl: "from_secs (nat (sint (key_ttl (ae_config e)))) = ttl"
    using assms(3) unfolding ttl by (simp add: nat_sint_eq)
  show ?thesis
  proof (cases rule: admin_request_cases [of rq e st])
    case exempt
    then show ?thesis using dispatch_leaves_key [OF laws(1) leaves, of st] live by (simp add: admin_uses_def)
  next
    case refused
    then show ?thesis using get live assms(6,7) by (auto simp: admin_uses_def key_live_def)
  next
    case (failed k x r)
    then have "isl (fst (kr_expire (ae_redis e) (ae_now e) (?p @ k) (sint (key_ttl (ae_config e))) (as_redis st)))"
      by simp
    with laws(2) show ?thesis by (simp add: reliable_def)
  next
    case (let_in k u x r)
    have "entry r = renewed (ae_now e) (?p @ k) (sint (key_ttl (ae_config e))) (entry (as_redis st))"
      using key_lawsD(3) [OF laws(1) let_in(6)] let_in(7) by blast
    with let_in live get assms(3) show ?thesis
      by (auto simp: dispatch_leaves_key [OF laws(1) leaves] renewed_def admin_uses_def nat_ttl key_live_def
          split: option.splits if_splits)
  qed
qed

lemma admin_run_slides:
  assumes "key_laws kr entry" "reliable kr" "0 < sint (key_ttl cfg)" and "one_api kr cfg evs"
    and ttl: "ttl = from_secs (unat (key_ttl cfg))"
    and "entry (as_redis st) (ac_redis_key_prefix cfg @ key) = Some (uid, t + ttl)" "uid \<noteq> []" "key \<noteq> []"
    and "list_all (leaves_key key) evs"
  shows "entry (as_redis (admin_run evs st)) (ac_redis_key_prefix cfg @ key) =
    Some (uid, last_use ttl key t evs + ttl)"
  using assms(4, 6, 9)
proof (induction evs arbitrary: st t)
  case Nil
  then show ?case by (simp add: admin_run_def)
next
  case (Cons ev evs)
  show ?case
  proof (cases ev)
    case (Request e rq)
    with Cons.prems have e: "ae_redis e = kr" "ae_config e = cfg" and "one_api kr cfg evs"
      "request_leaves_key key e rq" "list_all (leaves_key key) evs" by (simp_all add: one_api_def)
    moreover from e this Cons.prems(2) assms
    have "entry (as_redis (admin_step ev st)) (ac_redis_key_prefix cfg @ key) =
        Some (uid, (if admin_uses rq key \<and> ae_now e < t + ttl then ae_now e else t) + ttl)"
      using admin_request_slides [of e entry ttl st key uid t rq] by (simp add: Request)
    ultimately show ?thesis using Cons.IH [of "admin_step ev st"] by (simp add: admin_run_def Request)
  next
    case (Registry_Ops ops)
    with Cons show ?thesis by (auto simp: admin_run_def one_api_def split: prod.splits)
  qed
qed

lemma admin_login_ok:
  assumes "fst (admin_request e rq st) = (OK, LoginBody key m)"
  obtains r where "kr_set_ex (ae_redis e) (ae_now e) (ac_redis_key_prefix (ae_config e) @ key)
      (rq_user_id rq) (key_ttl (ae_config e)) (as_redis st) = (Inr (), r)"
    and "snd (admin_request e rq st) = st\<lparr>as_redis := r\<rparr>" and "rq_user_id rq \<noteq> []"
proof -
  have blank: "is_blank []" by (simp add: is_blank_def)
  have body: "route_of (rq_path rq) = Some Login_Route" if "fst (dispatch e rq st1) = (OK, LoginBody key m)" for st1
  proof (cases "route_of (rq_path rq)")
    case None
    with that show ?thesis by (simp add: dispatch_def)
  next
    case (Some rt)
    with that have "fst (run_route e rq rt st1) = (OK, LoginBody key m)"
      by (auto simp: dispatch_def split: if_splits prod.splits)
    then have "rt = Login_Route"
      by (cases rt) (auto simp: extracted_def admin_logout_def admin_health_def admin_notice_def
          scores_by_account_def scores_top_def admin_sessions_def admin_disconnect_def admin_stats_def
          internal_error_def Let_def split: option.splits sum.splits prod.splits if_splits)
    with Some show ?thesis by simp
  qed
  then have path: "rq_path rq = ''/api/auth/login''" if "fst (dispatch e rq st1) = (OK, LoginBody key m)" for st1
    using that route_of_cases by blast
  have req: "admin_request e rq st = dispatch e rq st"
  proof (cases rule: admin_request_cases [of rq e st])
    case (let_in k u x r)
    with path [of "st\<lparr>as_redis := r\<rparr>"] exempt_login assms show ?thesis by simp
  qed (use assms in auto)
  with assms have ok: "fst (dispatch e rq st) = (OK, LoginBody key m)" by simp
  have "dispatch e rq st = (if rq_method rq = POST then extracted rq (admin_login e rq) st
      else ((METHOD_NOT_ALLOWED, NoBody), st))"
    by (simp add: dispatch_def body [OF ok])
  with ok have login: "dispatch e rq st = admin_login e rq st"
    by (simp add: extracted_def split: if_splits option.splits)
  from ok have "fst (admin_login e rq st) = (OK, LoginBody key m)" by (simp add: login)
  then have "\<exists>r. kr_set_ex (ae_redis e) (ae_now e) (ac_redis_key_prefix (ae_config e) @ key)
      (rq_user_id rq) (key_ttl (ae_config e)) (as_redis st) = (Inr (), r) \<and>
    snd (admin_login e rq st) = st\<lparr>as_redis := r\<rparr> \<and> rq_user_id rq \<noteq> []"
    using blank
    by (auto simp: admin_login_def internal_error_def key_issue_def
        split: if_splits option.splits sum.splits prod.splits)
  with that show ?thesis by (auto simp: req login)
qed

text \<open>
  C31. The expiry of a session key slides: as long as Redis works and nobody logs the key out, a
  request to a guarded path that carries a key a login returned is refused exactly if the key was
  last used in time (or issued) at least the configured time to live ago.
\<close>

theorem admin_session_slides:
  assumes "key_laws kr entry" "reliable kr" "0 < sint (key_ttl cfg)"
    and "one_api kr cfg (Request e0 rq0 # evs @ [Request e rq])"
    and "fst (admin_request e0 rq0 st0) = (OK, LoginBody key m)" "key \<noteq> []"
    and "list_all (leaves_key key) evs" and "admin_uses rq key"
  shows "fst (fst (admin_request e rq (admin_run (Request e0 rq0 # evs) st0))) = UNAUTHORIZED \<longleftrightarrow>
    last_use (from_secs (unat (key_ttl cfg))) key (ae_now e0) evs + from_secs (unat (key_ttl cfg)) \<le> ae_now e"
proof -
  let ?ttl = "from_secs (unat (key_ttl cfg))" and ?st = "admin_run (Request e0 rq0 # evs) st0"
  from assms(4) have e: "ae_redis e = kr" "ae_config e = cfg" "ae_redis e0 = kr" "ae_config e0 = cfg"
    and evs: "one_api kr cfg evs" by (simp_all add: one_api_def)
  from assms(5) obtain r where set: "kr_set_ex kr (ae_now e0) (ac_redis_key_prefix cfg @ key)
      (rq_user_id rq0) (key_ttl cfg) (as_redis st0) = (Inr (), r)"
    and after: "snd (admin_request e0 rq0 st0) = st0\<lparr>as_redis := r\<rparr>" and uid: "rq_user_id rq0 \<noteq> []"
    using e by (auto elim: admin_login_ok)
  from key_lawsD(2) [OF assms(1) set] have "entry r (ac_redis_key_prefix cfg @ key) = Some (rq_user_id rq0, ae_now e0 + ?ttl)"
    by simp
  then have live: "entry (as_redis ?st) (ac_redis_key_prefix cfg @ key) =
      Some (rq_user_id rq0, last_use ?ttl key (ae_now e0) evs + ?ttl)"
    using admin_run_slides [OF assms(1-3) evs refl, of "st0\<lparr>as_redis := r\<rparr>"] assms(6,7) uid
    by (simp add: admin_run_def after)
  have get: "kr_get kr (ae_now e) (ac_redis_key_prefix cfg @ key) (as_redis ?st) =
      Inr (key_live entry (ae_now e) (ac_redis_key_prefix cfg @ key) (as_redis ?st))"
    using assms(2) key_lawsD(1) [OF assms(1)]
    by (cases "kr_get kr (ae_now e) (ac_redis_key_prefix cfg @ key) (as_redis ?st)")
      (auto simp: reliable_def, metis sum.disc(1))
  show ?thesis
  proof (cases rule: admin_request_cases [of rq e ?st])
    case refused
    with assms(2) e have "fst (fst (admin_request e rq ?st)) = UNAUTHORIZED" by (auto simp: reliable_def)
    moreover from refused(5) get live assms(6,8) uid e
    have "\<not> ae_now e < last_use ?ttl key (ae_now e0) evs + ?ttl"
      by (intro notI) (simp add: key_live_def admin_uses_def, blast)
    ultimately show ?thesis by simp
  next
    case (failed k x r)
    then show ?thesis using assms(2) e by (metis fst_conv reliable_def)
  next
    case (let_in k u x r)
    with get live assms(8) e dispatch_authorized [OF let_in(1), of e "?st\<lparr>as_redis := r\<rparr>"] show ?thesis
      by (auto simp: key_live_def admin_uses_def split: if_splits)
  qed (use assms(8) in \<open>simp add: admin_uses_def\<close>)
qed

section \<open>Nothing without a key\<close>

lemma is_exempt_iff:
  "is_exempt path \<longleftrightarrow> map ascii_lower path \<in> {''/api/health'', ''/api/auth/login''}"
proof -
  have "map ascii_lower ''/api/health'' = ''/api/health''" "map ascii_lower ''/api/auth/login'' = ''/api/auth/login''"
    by code_simp+
  then show ?thesis by (auto simp: is_exempt_def EXEMPT_PATHS_def eq_ignore_ascii_case_def)
qed

lemma disconnect_not_exempt:
  assumes "disconnect_segment path = Some segment"
  shows "\<not> is_exempt path"
proof
  assume "is_exempt path"
  let ?n = "length ''/api/sessions/''"
  from assms have "take ?n path = ''/api/sessions/''"
    unfolding disconnect_segment_def Let_def by (metis option.distinct(1))
  then have "take ?n (map ascii_lower path) = map ascii_lower ''/api/sessions/''" by (simp only: take_map)
  moreover have "map ascii_lower ''/api/sessions/'' = ''/api/sessions/''" by code_simp
  ultimately show False using \<open>is_exempt path\<close> by (auto simp: is_exempt_iff)
qed

lemma paths_not_exempt:
  "\<not> is_exempt ''/api/notice''" "\<not> is_exempt ''/api/scores''" "\<not> is_exempt ''/api/scores/top''"
  "\<not> is_exempt ''/api/sessions''" "\<not> is_exempt ''/api/stats''"
  by code_simp+

lemma exempt_route:
  assumes "is_exempt path" "route_of path = Some rt"
  shows "rt = Login_Route \<and> path = ''/api/auth/login'' \<or> rt = Health_Route \<and> path = ''/api/health''"
  using assms disconnect_not_exempt not_exempt_logout paths_not_exempt
  by (auto simp: route_of_def split: if_splits)

lemma admin_login_state:
  "as_registry (snd (admin_login e rq st)) = as_registry st"
  "as_cancelled (snd (admin_login e rq st)) = as_cancelled st"
  by (auto simp: admin_login_def internal_error_def split: option.split sum.split prod.split)

lemma dispatch_exempt:
  assumes "is_exempt (rq_path rq)"
  shows "as_registry (snd (dispatch e rq st)) = as_registry st \<and>
    as_cancelled (snd (dispatch e rq st)) = as_cancelled st \<and>
    (as_redis (snd (dispatch e rq st)) = as_redis st \<or> admin_grants e rq (ae_random_key e) (rq_user_id rq)) \<and>
    (fst (fst (dispatch e rq st)) \<in> {OK, NO_CONTENT} \<longrightarrow> rq_path rq \<in> {''/api/health'', ''/api/auth/login''})"
proof (cases "route_of (rq_path rq)")
  case None
  then show ?thesis by (simp add: dispatch_def)
next
  case (Some rt)
  from exempt_route [OF assms Some] show ?thesis
  proof (elim disjE conjE)
    assume login: "rt = Login_Route" and path: "rq_path rq = ''/api/auth/login''"
    show ?thesis
    proof (cases "rq_method rq = POST \<and> rq_rejection rq = None")
      case True
      with Some login have "dispatch e rq st = admin_login e rq st" by (simp add: dispatch_def extracted_def)
      then show ?thesis using admin_login_grants [of rq e st] True path by (auto simp: admin_login_state)
    next
      case False
      with Some login path show ?thesis by (auto simp: dispatch_def extracted_def split: option.split)
    qed
  next
    assume "rt = Health_Route" and "rq_path rq = ''/api/health''"
    with Some show ?thesis by (simp add: dispatch_def admin_health_def Let_def)
  qed
qed

text \<open>
  C34. A request that carries no key the store knows changes neither the registry nor Redis, unless it
  is a login with an administrator's password, and it succeeds on no path but those of the login and
  the health check. On any other path, a route of the API or not, the answer is 401 (or 500).
\<close>

theorem admin_api_guarded:
  assumes "\<forall>key uid. rq_session_key rq = Some (Some key) \<longrightarrow> key \<noteq> [] \<longrightarrow>
      kr_get (ae_redis e) (ae_now e) (ac_redis_key_prefix (ae_config e) @ key) (as_redis st) = Inr (Some uid) \<longrightarrow>
      uid = []"
    and "admin_request e rq st = ((code, b), st')"
  shows "as_registry st' = as_registry st \<and> as_cancelled st' = as_cancelled st \<and>
    (as_redis st' = as_redis st \<or> admin_grants e rq (ae_random_key e) (rq_user_id rq)) \<and>
    (code \<in> {OK, NO_CONTENT} \<longrightarrow> rq_path rq \<in> {''/api/health'', ''/api/auth/login''}) \<and>
    (\<not> is_exempt (rq_path rq) \<longrightarrow> code \<in> {UNAUTHORIZED, INTERNAL_SERVER_ERROR})"
proof (cases rule: admin_request_cases [of rq e st])
  case exempt
  with dispatch_exempt [of rq e st] assms(2) show ?thesis by simp
next
  case refused
  with assms(2) show ?thesis by auto
next
  case (failed key x r)
  then show ?thesis using assms(1) by blast
next
  case (let_in key uid x r)
  then show ?thesis using assms(1) by blast
qed

section \<open>An example, for the witnesses\<close>

definition map_key_redis :: "(string \<rightharpoonup> string \<times> instant) key_redis" where
  "map_key_redis =
     \<lparr>kr_set_ex = (\<lambda>now k v secs r. (Inr (), r(k \<mapsto> (v, now + from_secs (unat secs))))),
      kr_get = (\<lambda>now k r. Inr (key_live (\<lambda>r. r) now k r)),
      kr_expire = (\<lambda>now k secs r. (Inr (), renewed now k secs r)),
      kr_del = (\<lambda>now k r. (Inr (), r(k := None))),
      kr_publish = (\<lambda>c m r. (Inr (), r)),
      kr_ping = (\<lambda>r. Inr ''PONG'')\<rparr>"

lemma key_laws_map [simp]: "key_laws map_key_redis (\<lambda>r. r)" "reliable map_key_redis"
  by (auto simp: key_laws_def map_key_redis_def reliable_def)

definition sample_admin_config :: admin_config where
  "sample_admin_config =
     \<lparr>ac_admins = [''a''], ac_session_key_ttl_minutes = 1, ac_redis_key_prefix = ''s:'',
      ac_broadcast_channel = ''c''\<rparr>"

definition sample_admin_mysql :: "unit admin_mysql" where
  "sample_admin_mysql =
     \<lparr>am_select_password = (\<lambda>uid d. Inr (if uid = ''a''
        then Some (cr_encode toy_crypto [112, 9], cr_encode toy_crypto [9]) else None)),
      am_scores_by_account = (\<lambda>a n d. Inr []), am_scores_top = (\<lambda>n d. Inr []), am_select_1 = (\<lambda>d. Inr ())\<rparr>"

definition sample_f64 :: "f64 f64_ops" where
  "sample_f64 =
     \<lparr>f_of_u64 = (\<lambda>n. n), f_of_nat = of_nat, f_as_secs = (\<lambda>d. of_nat (d div from_secs 1)), f_div = (div), f_mul = (*),
      f_positive = (\<lambda>x. 0 < x), f_round = (\<lambda>x. x)\<rparr>"

definition sample_metrics :: "f64 process_metrics" where
  "sample_metrics = metrics_default sample_f64 True None 0 None"

definition sample_env :: "string \<Rightarrow> instant \<Rightarrow> (unit, string \<rightharpoonup> string \<times> instant) admin_env" where
  "sample_env key now =
     \<lparr>ae_config = sample_admin_config, ae_crypto = toy_crypto, ae_mysql = sample_admin_mysql,
      ae_redis = map_key_redis, ae_percent_decode = Some, ae_db = (), ae_now = now, ae_started_at = 0,
      ae_random_key = key, ae_joined = True, ae_stats = stats_zero, ae_f64 = sample_f64,
      ae_process = None\<rparr>"

definition sample_request :: "meth \<Rightarrow> string \<Rightarrow> string option option \<Rightarrow> request" where
  "sample_request m path header =
     \<lparr>rq_method = m, rq_path = path, rq_session_key = header, rq_rejection = None, rq_user_id = ''a'',
      rq_password = ''p'', rq_message = [], rq_account_id = 0, rq_limit = None\<rparr>"

definition sample_admin_state :: "(nat, string \<rightharpoonup> string \<times> instant) admin_state" where
  "sample_admin_state = \<lparr>as_registry = registry_default, as_cancelled = {}, as_redis = Map.empty, as_metrics = sample_metrics\<rparr>"

lemma sample_admin_password:
  "verify toy_crypto (client_hash toy_crypto [112]) (cr_encode toy_crypto [112, 9]) (cr_encode toy_crypto [9]) = Inr True"
  by (rule verify_generated [OF crypto_laws_toy, of "[9]" "[112]", THEN trans])
    (simp_all add: generate_stored_hash_def derive_def client_hash_def toy_crypto_def)

lemma sample_admin_login:
  "admin_request (sample_env ''k'' now) (sample_request POST ''/api/auth/login'' None) sample_admin_state =
    ((OK, LoginBody ''k'' 1), sample_admin_state\<lparr>as_redis := [''s:k'' \<mapsto> (''a'', now + from_secs 60)]\<rparr>)"
proof -
  have "\<not> is_blank ''a''" by code_simp
  then show ?thesis using sample_admin_password
    by (simp add: admin_request_def require_session_key_def exempt_login dispatch_def route_of_def
        extracted_def admin_login_def key_issue_def sample_env_def sample_request_def sample_admin_config_def
        sample_admin_mysql_def map_key_redis_def sample_admin_state_def key_ttl_def of_char_of)
qed

lemma sample_admin_sessions:
  "fst (fst (admin_request (sample_env key now) (sample_request GET ''/api/sessions'' (Some (Some ''k'')))
      (sample_admin_state\<lparr>as_redis := [''s:k'' \<mapsto> (''a'', d)]\<rparr>))) = (if now < d then OK else UNAUTHORIZED)"
proof -
  have "sint (60 :: u64) = 60" by simp
  then show ?thesis
    by (simp add: admin_request_def require_session_key_def paths_not_exempt dispatch_def route_of_def
        admin_sessions_def key_validate_def sample_env_def sample_request_def sample_admin_config_def
        map_key_redis_def sample_admin_state_def key_ttl_def unwrap_or_def key_live_def Let_def)
qed

lemma sample_admin_api: "one_api map_key_redis sample_admin_config
    (map (\<lambda>(key, now, rq). Request (sample_env key now) rq) calls)"
  by (auto simp: one_api_def list_all_iff sample_env_def)

theorem admin_requests_are_earned_witness:
  "\<exists>key uid before e0 rq0 since. key = ''k'' \<and>
    [Request (sample_env ''k'' 5) (sample_request POST ''/api/auth/login'' None)] =
      before @ (Request e0 rq0 :: (nat, _, _) admin_event) # since \<and> admin_grants e0 rq0 key uid"
proof -
  let ?login = "Request (sample_env ''k'' 5) (sample_request POST ''/api/auth/login'' None) :: (nat, _, _) admin_event"
    and ?rq = "sample_request GET ''/api/sessions'' (Some (Some ''k''))"
  have "\<exists>key uid before e0 rq0 since. rq_session_key ?rq = Some (Some key) \<and>
      [?login] = before @ Request e0 rq0 # since \<and> admin_grants e0 rq0 key uid"
    using admin_requests_are_earned [where ?evs = "[?login]" and ?rq = ?rq and ?e = "sample_env ''z'' 9" and
        ?st0.0 = sample_admin_state and ?cfg = sample_admin_config, OF key_laws_map(1)]
      sample_admin_api [of "[(''k'', 5, sample_request POST ''/api/auth/login'' None), (''z'', 9, ?rq)]"]
      sample_admin_login [of 5] sample_admin_sessions [where key = "''z''" and now = 9 and d = "5 + from_secs 60"] paths_not_exempt
    by (simp add: admin_run_def sample_admin_state_def sample_request_def from_secs_def) blast
  then show ?thesis by (simp add: sample_request_def)
qed

theorem admin_session_slides_witness:
  "fst (fst (admin_request (sample_env ''z'' (from_secs 100)) (sample_request GET ''/api/stats'' (Some (Some ''k'')))
      (admin_run [Request (sample_env ''k'' 0) (sample_request POST ''/api/auth/login'' None),
        Request (sample_env ''z'' (from_secs 50)) (sample_request GET ''/api/sessions'' (Some (Some ''k'')))]
       sample_admin_state))) \<noteq> UNAUTHORIZED \<and>
   fst (fst (admin_request (sample_env ''z'' (from_secs 110)) (sample_request GET ''/api/stats'' (Some (Some ''k'')))
      (admin_run [Request (sample_env ''k'' 0) (sample_request POST ''/api/auth/login'' None),
        Request (sample_env ''z'' (from_secs 50)) (sample_request GET ''/api/sessions'' (Some (Some ''k'')))]
       sample_admin_state))) = UNAUTHORIZED"
proof -
  let ?login = "sample_request POST ''/api/auth/login'' None"
    and ?use = "sample_request GET ''/api/sessions'' (Some (Some ''k''))"
    and ?rq = "sample_request GET ''/api/stats'' (Some (Some ''k''))"
  have refused: "fst (fst (admin_request (sample_env ''z'' now) ?rq
      (admin_run [Request (sample_env ''k'' 0) ?login, Request (sample_env ''z'' (from_secs 50)) ?use]
       sample_admin_state))) = UNAUTHORIZED \<longleftrightarrow> from_secs 110 \<le> now" for now
    using admin_session_slides [OF key_laws_map, where ?e0.0 = "sample_env ''k'' 0" and ?rq0.0 = ?login and
        ?evs = "[Request (sample_env ''z'' (from_secs 50)) ?use]" and ?e = "sample_env ''z'' now" and ?rq = ?rq and
        ?st0.0 = sample_admin_state and ?cfg = sample_admin_config and key = "''k''" and m = 1]
      sample_admin_api [of "[(''k'', 0, ?login), (''z'', from_secs 50, ?use), (''z'', now, ?rq)]"]
      sample_admin_login [of 0] paths_not_exempt
    by (simp add: request_leaves_key_def admin_uses_def sample_admin_config_def key_ttl_def)
      (simp add: sample_env_def sample_request_def from_secs_def)
  show ?thesis unfolding refused by (simp add: from_secs_def)
qed

theorem admin_api_guarded_witness:
  "\<exists>code b st'. admin_request (sample_env ''z'' 5) (sample_request GET ''/api/sessions'' (Some (Some ''k'')))
      sample_admin_state = ((code, b), st') \<and> code \<notin> {OK, NO_CONTENT} \<and> as_registry st' = registry_default"
proof -
  let ?rq = "sample_request GET ''/api/sessions'' (Some (Some ''k''))"
  obtain code b st' where req: "admin_request (sample_env ''z'' 5) ?rq sample_admin_state = ((code, b), st')"
    by (metis surj_pair)
  have "as_redis sample_admin_state ''s:k'' = None" by (simp add: sample_admin_state_def)
  then have "as_registry st' = as_registry sample_admin_state \<and>
      (code \<in> {OK, NO_CONTENT} \<longrightarrow> rq_path ?rq \<in> {''/api/health'', ''/api/auth/login''})"
    using admin_api_guarded [OF _ req]
    by (simp add: sample_env_def sample_request_def sample_admin_config_def map_key_redis_def key_live_def)
  with req show ?thesis by (simp add: sample_request_def sample_admin_state_def)
qed

end
