(* ===== verification/Admin_Server.thy ===== *)
theory Admin_Server
  imports Admin_Keys Server
begin

text \<open>
  The admin API beside the sessions of a running LoginServer: what an administrator sees and ends. Both
  work on the registry of \<open>SessionContext\<close>.
\<close>

definition api_state :: "('s, 'w) server \<Rightarrow> 'r \<Rightarrow> f64 process_metrics \<Rightarrow> (u64, 'r) admin_state" where
  "api_state v r metrics =
     \<lparr>as_registry = registry (sv_world v), as_cancelled = cancelled (sv_world v), as_redis = r,
      as_metrics = metrics\<rparr>"

text \<open>The server after the API worked on its registry.\<close>

definition api_done :: "('s, 'w) server \<Rightarrow> (u64, 'r) admin_state \<Rightarrow> ('s, 'w) server" where
  "api_done v st =
     v\<lparr>sv_world := (sv_world v)\<lparr>registry := as_registry st, cancelled := as_cancelled st\<rparr>\<rparr>"

abbreviation login_server_reachable where
  "login_server_reachable mp t tx \<equiv> server_reachable (login_actor mp t) (login_service mp tx)"

lemma disconnect_running:
  assumes "login_server_reachable mp t tx v"
  shows "disconnect i (registry (sv_world v)) = (if sv_running v i = None then (False, []) else (True, [i]))"
proof -
  note inv = login_server.server_reachable_inv [OF assms, unfolded login_server.server_inv_def]
  have "registry_kick (registry (sv_world v)) i = (if sv_running v i = None then None else Some i)"
    using inv by (cases "sv_running v i") auto
  then show ?thesis
    by (auto simp: disconnect_def registry_kick_def split: option.splits if_splits)
qed

text \<open>
  C32. In every reachable state of LoginServer, the administrator's disconnect answers 204 exactly for
  a session that runs and 404 for any other id; it cancels the kick token of that session and of no
  other, which is a step the server may make; and the next step of the session, whatever is ready
  for it, ends it with nothing done.
\<close>

theorem admin_disconnect_ends_session:
  assumes "login_server_reachable mp t tx v"
    and "admin_disconnect i (api_state v r metrics) = ((code, b), st)"
  shows "code = (if sv_running v i = None then NOT_FOUND else NO_CONTENT) \<and>
    as_cancelled st = cancelled (sv_world v) \<union> (if sv_running v i = None then {} else {i}) \<and>
    login_server_reachable mp t tx (api_done v st) \<and>
    (sv_running v i \<noteq> None \<longrightarrow> (\<forall>p s. p_others p = [] \<longrightarrow>
       loop_step (login_actor mp t) i p (s, sv_world (api_done v st)) =
         (Break, s\<lparr>ls_outbox := receive_from mp (p_taken p) (ls_outbox s)\<rparr>, sv_world (api_done v st))))"
proof -
  have st: "code = (if sv_running v i = None then NOT_FOUND else NO_CONTENT)"
    "st = (api_state v r metrics)\<lparr>as_cancelled := cancelled (sv_world v) \<union> (if sv_running v i = None then {} else {i})\<rparr>"
    using assms(2) disconnect_running [OF assms(1), of i]
    by (auto simp: admin_disconnect_def api_state_def split: if_splits)
  have "login_server_reachable mp t tx (api_done v st)"
  proof (cases "sv_running v i")
    case None
    then show ?thesis using assms(1) by (simp add: st api_state_def api_done_def)
  next
    case (Some s)
    then have "api_done v st = v\<lparr>sv_world := (sv_world v)\<lparr>cancelled := insert i (cancelled (sv_world v))\<rparr>\<rparr>"
      by (simp add: st api_state_def api_done_def)
    then show ?thesis using assms(1) unfolding server_reachable_def
      by (metis rtranclp.rtrancl_into_rtrancl server_step.cancel)
  qed
  moreover have "loop_step (login_actor mp t) i p (s, sv_world (api_done v st)) =
         (Break, s\<lparr>ls_outbox := receive_from mp (p_taken p) (ls_outbox s)\<rparr>, sv_world (api_done v st))"
    if "sv_running v i \<noteq> None" "p_others p = []" for p s
    using login.kick_ends [of i p "sv_world (api_done v st)" mp t s] that
    by (auto simp: wake_def login_step_simps st api_done_def)
  ultimately show ?thesis by (simp add: st api_state_def)
qed

text \<open>
  C33. In every reachable state of LoginServer, the session list of the admin API has exactly the
  sessions that run, each with the user it is logged in as, and the statistics count them and the packets.
\<close>

theorem admin_lists_sessions:
  assumes "login_server_reachable mp t tx v"
  shows "fst (admin_sessions (api_state v r metrics)) =
      (OK, SessionsBody {\<lparr>se_session_id = i, se_user_id = map_option la_user_id (ls_account s),
         se_world_id = 0, se_is_authenticated = (ls_account s \<noteq> None)\<rparr> | i s. sv_running v i = Some s}) \<and>
    (\<exists>dto. fst (admin_stats e (api_state v r metrics)) = (OK, StatsBody dto) \<and>
       st_active_sessions dto = card (dom (sv_running v)) \<and>
       (st_packets_received_total dto, st_packets_sent_total dto) = (RECEIVED (ae_stats e), SENT (ae_stats e)))"
proof -
  have "session_dto_of ` snapshot (registry (sv_world v)) =
      {\<lparr>se_session_id = i, se_user_id = map_option la_user_id (ls_account s),
         se_world_id = 0, se_is_authenticated = (ls_account s \<noteq> None)\<rparr> | i s. sv_running v i = Some s}"
    unfolding login_server.reachable_snapshot [OF assms]
    by (force simp: session_dto_of_def is_authenticated_def image_def)
  moreover have "dom (sessions (registry (sv_world v))) = dom (sv_running v)"
  proof -
    have "(sessions (registry (sv_world v)) i = None) = (sv_running v i = None)" for i
      using disconnect_running [OF assms, of i] by (auto simp: disconnect_def split: option.splits if_splits)
    then show ?thesis by (auto simp: dom_def)
  qed
  ultimately show ?thesis
    by (simp add: admin_sessions_def admin_stats_def api_state_def count_def hm_len_def stats_snapshot_def
        split: prod.split)
qed

text \<open>One connection to LoginServer, for the witnesses.\<close>

definition sample_login_server :: "((message_wrapper list \<times> bool) login_session, login_work) server" where
  "sample_login_server =
     \<lparr>sv_next_id = 1,
      sv_running = [1 \<mapsto> login_session_new 1
        \<lparr>ob_session_id = 1, ob_tx = ([outgoing (ConnectedResponse 0)], False)\<rparr> 0],
      sv_world = (world_new registry_default)\<lparr>registry := register 1 1 registry_default\<rparr>\<rparr>"

lemma sample_login_server_reachable:
  "login_server_reachable sample_mpsc KEEP_ALIVE_TIMEOUT ([], False) sample_login_server"
proof -
  have "server_step (login_actor sample_mpsc KEEP_ALIVE_TIMEOUT) (login_service sample_mpsc ([], False))
      server_start sample_login_server"
    using server_step.accept [of "login_service sample_mpsc ([], False)" server_start 0 1
        "login_session_new 1 \<lparr>ob_session_id = 1, ob_tx = ([outgoing (ConnectedResponse 0)], False)\<rparr> 0"
        "(world_new registry_default)\<lparr>registry := register 1 1 registry_default\<rparr>"]
    by (simp add: login_service_def login_run_start_def generate_def login_session_new_def
        outbox_send_def sample_defs outgoing_def const_defs server_start_def sample_login_server_def world_new_def)
  then show ?thesis unfolding server_reachable_def by (rule r_into_rtranclp)
qed

theorem admin_disconnect_ends_session_witness:
  "fst (fst (admin_disconnect 1 (api_state sample_login_server () sample_metrics))) = NO_CONTENT \<and>
   fst (fst (admin_disconnect 2 (api_state sample_login_server () sample_metrics))) = NOT_FOUND"
proof -
  have "fst (fst (admin_disconnect i (api_state sample_login_server () sample_metrics))) =
      (if sv_running sample_login_server i = None then NOT_FOUND else NO_CONTENT)" for i
    using admin_disconnect_ends_session [OF sample_login_server_reachable, of i "()"]
    by (metis prod.collapse)
  then show ?thesis by (simp add: sample_login_server_def)
qed

theorem admin_lists_sessions_witness:
  "fst (admin_sessions (api_state sample_login_server () sample_metrics)) =
    (OK, SessionsBody {\<lparr>se_session_id = 1, se_user_id = None, se_world_id = 0, se_is_authenticated = False\<rparr>})"
proof -
  let ?s = "login_session_new 1 \<lparr>ob_session_id = 1, ob_tx = ([outgoing (ConnectedResponse 0)], False)\<rparr> 0"
  have "{\<lparr>se_session_id = i, se_user_id = map_option la_user_id (ls_account s), se_world_id = 0,
        se_is_authenticated = (ls_account s \<noteq> None)\<rparr> | i s. sv_running sample_login_server i = Some s} =
      {\<lparr>se_session_id = 1, se_user_id = None, se_world_id = 0, se_is_authenticated = False\<rparr>}"
    by (auto simp: sample_login_server_def login_session_new_def)
  with conjunct1 [OF admin_lists_sessions [OF sample_login_server_reachable, of "()"]] show ?thesis by simp
qed

end
