(* ===== verification/Client.thy ===== *)
theory Client
  imports Session_Core Auth_Token "HOL-Library.Multiset"
begin

text \<open>
  The load-test client (\<open>crates/dummy_client/src/client.rs\<close>): one client's way through both servers, and
  the counters all clients share. What a client meets is data: the branch its \<open>select!\<close> takes at each
  wake-up, with the time, and whether sending worked.
\<close>

section \<open>Settings and user ids\<close>

record client_settings =
  cs_game_server :: string
  cs_client_hash :: bytes

text \<open>\<open>user_{account_index:05}\<close>\<close>

definition client_user_id :: "nat \<Rightarrow> string" where
  "client_user_id account_index =
     (let digits = dec_digits account_index
      in ''user_'' @ replicate (5 - length digits) (CHR ''0'') @ digits)"

lemma dec_from_append: "dec_from acc (xs @ ys) = dec_from (dec_from acc xs) ys"
  by (induction acc xs rule: dec_from.induct) simp_all

lemma dec_from_dec_digits [simp]: "dec_from 0 (dec_digits n) = n"
proof (induction n rule: dec_digits.induct)
  case (1 n)
  then show ?case
    by (cases "n < 10") (simp_all add: dec_digits.simps [of n] dec_from_append)
qed

lemma dec_from_zeros [simp]: "dec_from 0 (replicate k (CHR ''0'')) = 0"
  by (induction k) (simp_all add: char_digit_def)

lemma client_user_id_value: "dec_from 0 (drop 5 (client_user_id n)) = n"
  by (simp add: client_user_id_def Let_def dec_from_append)

lemma client_user_id_inject: "client_user_id n = client_user_id m \<longleftrightarrow> n = m"
  by (metis client_user_id_value)

section \<open>The counters\<close>

datatype phase = LoginServer | GameServer

datatype finished = Disconnected phase | GameConnectFailed | Shutdown

text \<open>The three \<open>AtomicI64\<close>; \<open>fetch_add\<close> is the only update.\<close>

record counters =
  ct_login_server :: "64 word"
  ct_game_server :: "64 word"
  ct_disconnected :: "64 word"

datatype counter = Login_Server | Game_Server | Disconnected_Count

fun fetch_add :: "counter \<times> 64 word \<Rightarrow> counters \<Rightarrow> counters" where
  "fetch_add (Login_Server, k) c = c\<lparr>ct_login_server := ct_login_server c + k\<rparr>"
| "fetch_add (Game_Server, k) c = c\<lparr>ct_game_server := ct_game_server c + k\<rparr>"
| "fetch_add (Disconnected_Count, k) c = c\<lparr>ct_disconnected := ct_disconnected c + k\<rparr>"

definition counters_default :: counters where
  "counters_default = \<lparr>ct_login_server = 0, ct_game_server = 0, ct_disconnected = 0\<rparr>"

definition counters_snapshot :: "counters \<Rightarrow> 64 word \<times> 64 word \<times> 64 word" where
  "counters_snapshot c = (ct_login_server c, ct_game_server c, ct_disconnected c)"

text \<open>The methods of \<open>Counters\<close> as the updates they make.\<close>

definition on_login_started :: "(counter \<times> 64 word) list" where
  "on_login_started = [(Login_Server, 1)]"

definition on_moved_to_game :: "(counter \<times> 64 word) list" where
  "on_moved_to_game = [(Login_Server, - 1), (Game_Server, 1)]"

definition on_disconnected :: "phase \<Rightarrow> (counter \<times> 64 word) list" where
  "on_disconnected p =
     (let c = (case p of LoginServer \<Rightarrow> Login_Server | GameServer \<Rightarrow> Game_Server)
      in [(c, - 1), (Disconnected_Count, 1)])"

section \<open>At LoginServer\<close>

datatype login_wake = Login_Shutdown | Login_Next frame bool

text \<open>
  What the client sends, and the token or the end; \<open>None\<close> while it still waits. A failed login is only
  logged.
\<close>

fun login_phase :: "string \<Rightarrow> client_settings \<Rightarrow> login_wake list \<Rightarrow> payload list \<times> (finished + string) option" where
  "login_phase uid cfg [] = ([], None)"
| "login_phase uid cfg (Login_Shutdown # ws) = ([], Some (Inl Shutdown))"
| "login_phase uid cfg (Login_Next (Message m) ok # ws) =
     (case wrapped m of
        Some (ConnectedResponse _) \<Rightarrow>
          (let request = LoginRequest uid (cs_client_hash cfg) in
           if ok then (case login_phase uid cfg ws of (sent, r) \<Rightarrow> (request # sent, r))
           else ([request], Some (Inl (Disconnected LoginServer))))
      | Some (LoginResponse success error_code auth_token) \<Rightarrow>
          (if success then ([], Some (Inr auth_token)) else login_phase uid cfg ws)
      | _ \<Rightarrow> login_phase uid cfg ws)"
| "login_phase uid cfg (Login_Next _ ok # ws) = ([], Some (Inl (Disconnected LoginServer)))"

section \<open>At GameServer\<close>

text \<open>
  \<open>gc_keep_alive\<close> is when the interval ticks next. The addition of \<open>f32\<close> is a parameter; a position
  is the two floats.
\<close>

record game_client =
  gc_keep_alive :: "instant option"
  gc_x :: f32
  gc_y :: f32

definition game_client_new :: game_client where
  "game_client_new = \<lparr>gc_keep_alive = None, gc_x = 0, gc_y = 0\<rparr>"

datatype game_ready = Ready_Shutdown | Ready_Message frame | Ready_Tick | Ready_Move f32 f32

text \<open>A wake-up: the time, the branch, and whether a message sent in it goes out.\<close>

record game_wake =
  gw_now :: instant
  gw_ready :: game_ready
  gw_sent :: bool

definition client_send :: "game_wake \<Rightarrow> payload \<Rightarrow> game_client \<Rightarrow> payload list \<times> (finished + game_client)" where
  "client_send w p c = ([p], if gw_sent w then Inr c else Inl (Disconnected GameServer))"

text \<open>
  One turn of the loop. A tick that is not due, or a move without a keyboard, is not ready: the
  \<open>select!\<close> waits on.
\<close>

definition game_client_step :: "(f32 \<Rightarrow> f32 \<Rightarrow> f32) \<Rightarrow> bool \<Rightarrow> string \<Rightarrow> game_wake \<Rightarrow> game_client \<Rightarrow>
    payload list \<times> (finished + game_client)" where
  "game_client_step fadd moves auth_token w c =
     (case gw_ready w of
        Ready_Shutdown \<Rightarrow> ([], Inl Shutdown)
      | Ready_Message (Message m) \<Rightarrow>
          (case wrapped m of
             Some (ConnectedResponse _) \<Rightarrow> client_send w (GameConnectRequest auth_token) c
           | Some (GameConnectResponse success error_code) \<Rightarrow>
               ([], Inr (if success
                         then c\<lparr>gc_keep_alive := Some (gw_now w + KEEP_ALIVE_INTERVAL)\<rparr> else c))
           | _ \<Rightarrow> ([], Inr c))
      | Ready_Message _ \<Rightarrow> ([], Inl (Disconnected GameServer))
      | Ready_Tick \<Rightarrow>
          (case gc_keep_alive c of
             None \<Rightarrow> ([], Inr c)
           | Some tick \<Rightarrow>
               if tick \<le> gw_now w
               then client_send w KeepAliveRequest (c\<lparr>gc_keep_alive := Some (tick + KEEP_ALIVE_INTERVAL)\<rparr>)
               else ([], Inr c))
      | Ready_Move dx dy \<Rightarrow>
          (if \<not> moves \<or> gc_keep_alive c = None then ([], Inr c)
           else let x = fadd (gc_x c) dx; y = fadd (gc_y c) dy
                in client_send w (MoveRequest x y) (c\<lparr>gc_x := x, gc_y := y\<rparr>)))"

text \<open>The loop: what it sends and when, and how it ends or where it stands.\<close>

fun game_client_loop :: "(f32 \<Rightarrow> f32 \<Rightarrow> f32) \<Rightarrow> bool \<Rightarrow> string \<Rightarrow> game_wake list \<Rightarrow> game_client \<Rightarrow>
    (instant \<times> payload) list \<times> (finished + game_client)" where
  "game_client_loop fadd moves auth_token [] c = ([], Inr c)"
| "game_client_loop fadd moves auth_token (w # ws) c =
     (case game_client_step fadd moves auth_token w c of
        (ps, Inl f) \<Rightarrow> (map (Pair (gw_now w)) ps, Inl f)
      | (ps, Inr c') \<Rightarrow>
          (case game_client_loop fadd moves auth_token ws c' of
             (sent, r) \<Rightarrow> (map (Pair (gw_now w)) ps @ sent, r)))"

definition game_phase :: "(f32 \<Rightarrow> f32 \<Rightarrow> f32) \<Rightarrow> bool \<Rightarrow> bool \<Rightarrow> string \<Rightarrow> game_wake list \<Rightarrow>
    (instant \<times> payload) list \<times> finished option" where
  "game_phase fadd moves connected auth_token ws =
     (if connected
      then (case game_client_loop fadd moves auth_token ws game_client_new of
          (sent, Inl f) \<Rightarrow> (sent, Some f)
        | (sent, Inr c) \<Rightarrow> (sent, None))
      else ([], Some GameConnectFailed))"

section \<open>A whole client\<close>

record client_life =
  cl_account_index :: nat
  cl_login :: "login_wake list"
  cl_connected :: bool
  cl_moves :: bool
  cl_game :: "game_wake list"

text \<open>The updates of the counters that \<open>run\<close> makes, and what it returns, if it has ended.\<close>

definition client_run :: "(f32 \<Rightarrow> f32 \<Rightarrow> f32) \<Rightarrow> client_settings \<Rightarrow> client_life \<Rightarrow>
    (counter \<times> 64 word) list \<times> finished option" where
  "client_run fadd cfg l =
     (case snd (login_phase (client_user_id (cl_account_index l)) cfg (cl_login l)) of
        None \<Rightarrow> (on_login_started, None)
      | Some (Inl f) \<Rightarrow> (on_login_started @ on_disconnected LoginServer, Some f)
      | Some (Inr token) \<Rightarrow>
          (case snd (game_phase fadd (cl_moves l) (cl_connected l) token (cl_game l)) of
             None \<Rightarrow> (on_login_started @ on_moved_to_game, None)
           | Some f \<Rightarrow> (on_login_started @ on_moved_to_game @ on_disconnected GameServer, Some f)))"

text \<open>Where a client is.\<close>

definition logging_in :: "client_settings \<Rightarrow> client_life \<Rightarrow> bool" where
  "logging_in cfg l \<longleftrightarrow> snd (login_phase (client_user_id (cl_account_index l)) cfg (cl_login l)) = None"

definition in_game :: "(f32 \<Rightarrow> f32 \<Rightarrow> f32) \<Rightarrow> client_settings \<Rightarrow> client_life \<Rightarrow> bool" where
  "in_game fadd cfg l \<longleftrightarrow> \<not> logging_in cfg l \<and> snd (client_run fadd cfg l) = None"

lemma counters_of_updates:
  "fold fetch_add us c =
    \<lparr>ct_login_server = ct_login_server c + sum_list (map snd (filter (\<lambda>u. fst u = Login_Server) us)),
     ct_game_server = ct_game_server c + sum_list (map snd (filter (\<lambda>u. fst u = Game_Server) us)),
     ct_disconnected = ct_disconnected c + sum_list (map snd (filter (\<lambda>u. fst u = Disconnected_Count) us))\<rparr>"
proof (induction us arbitrary: c)
  case Nil
  then show ?case by simp
next
  case (Cons u us)
  obtain a k where "u = (a, k)" by fastforce
  with Cons show ?case by (cases a) (simp_all add: add_ac)
qed

lemma sum_list_mset_eq:
  "mset us = mset vs \<Longrightarrow> sum_list (map f (filter P us)) = (sum_list (map f (filter P vs)) :: 'a :: comm_monoid_add)"
  by (metis mset_filter mset_map sum_mset_sum_list)

lemma client_run_updates:
  "sum_list (map snd (filter (\<lambda>u. fst u = Login_Server) (fst (client_run fadd cfg l)))) = of_bool (logging_in cfg l)"
  "sum_list (map snd (filter (\<lambda>u. fst u = Game_Server) (fst (client_run fadd cfg l)))) = of_bool (in_game fadd cfg l)"
  "sum_list (map snd (filter (\<lambda>u. fst u = Disconnected_Count) (fst (client_run fadd cfg l)))) =
    of_bool (snd (client_run fadd cfg l) \<noteq> None)"
  by (auto simp: client_run_def in_game_def logging_in_def on_login_started_def on_moved_to_game_def
      on_disconnected_def split: option.split sum.split)

lemma sum_list_of_bool: "sum_list (map (\<lambda>x. of_bool (P x)) xs) = of_nat (length (filter P xs))"
  by (induction xs) simp_all

text \<open>
  However the clients' tasks interleave their updates of the shared counters, the counters say how
  many clients are at LoginServer, how many at GameServer, and how many have ended.
\<close>

theorem counters_mirror_clients:
  assumes "mset updates = mset (concat (map (\<lambda>l. fst (client_run fadd cfg l)) clients))"
  shows "counters_snapshot (fold fetch_add updates counters_default) =
    (of_nat (length (filter (logging_in cfg) clients)),
     of_nat (length (filter (in_game fadd cfg) clients)),
     of_nat (length (filter (\<lambda>l. snd (client_run fadd cfg l) \<noteq> None) clients)))"
proof -
  have "sum_list (map snd (filter (\<lambda>u. fst u = k) updates)) =
      sum_list (map (\<lambda>l. sum_list (map snd (filter (\<lambda>u. fst u = k) (fst (client_run fadd cfg l))))) clients)" for k
    unfolding sum_list_mset_eq [OF assms] by (induction clients) simp_all
  then show ?thesis
    by (simp add: counters_snapshot_def counters_of_updates counters_default_def client_run_updates sum_list_of_bool)
qed

theorem counters_mirror_clients_witness:
  "counters_snapshot (fold fetch_add
      [(Login_Server, 1), (Login_Server, 1), (Disconnected_Count, 1), (Login_Server, - 1)] counters_default) =
    (1, 0, 1)"
proof -
  let ?cfg = "\<lparr>cs_game_server = [], cs_client_hash = []\<rparr>"
    and ?a = "\<lparr>cl_account_index = 1, cl_login = [], cl_connected = True, cl_moves = False, cl_game = []\<rparr>"
    and ?b = "\<lparr>cl_account_index = 2, cl_login = [Login_Next End_Of_Stream True], cl_connected = True,
      cl_moves = False, cl_game = []\<rparr>"
  have "counters_snapshot (fold fetch_add
      [(Login_Server, 1), (Login_Server, 1), (Disconnected_Count, 1), (Login_Server, - 1)] counters_default) =
    (of_nat (length (filter (logging_in ?cfg) [?a, ?b])),
     of_nat (length (filter (in_game (+) ?cfg) [?a, ?b])),
     of_nat (length (filter (\<lambda>l. snd (client_run (+) ?cfg l) \<noteq> None) [?a, ?b])))"
    by (rule counters_mirror_clients)
      (simp add: client_run_def on_login_started_def on_disconnected_def)
  then show ?thesis by (simp add: logging_in_def in_game_def client_run_def)
qed

section \<open>Keep-alive\<close>

text \<open>No wake-up finds the interval's tick overdue by more than \<open>late\<close>.\<close>

fun served :: "duration \<Rightarrow> (f32 \<Rightarrow> f32 \<Rightarrow> f32) \<Rightarrow> bool \<Rightarrow> string \<Rightarrow> game_wake list \<Rightarrow> game_client \<Rightarrow> bool" where
  "served late fadd moves token [] c = True"
| "served late fadd moves token (w # ws) c =
     ((case gc_keep_alive c of None \<Rightarrow> True | Some d \<Rightarrow> gw_now w \<le> d + late) \<and>
      (case snd (game_client_step fadd moves token w c) of
         Inl _ \<Rightarrow> True | Inr c' \<Rightarrow> served late fadd moves token ws c'))"

definition not_welcomed :: "game_wake \<Rightarrow> bool" where
  "not_welcomed w \<longleftrightarrow>
     (case gw_ready w of
        Ready_Message (Message m) \<Rightarrow>
          (case wrapped m of Some (GameConnectResponse success _) \<Rightarrow> \<not> success | _ \<Rightarrow> True)
      | _ \<Rightarrow> True)"

definition keep_alives :: "(instant \<times> payload) list \<Rightarrow> instant list" where
  "keep_alives sent = map fst (filter (\<lambda>(t, p). p = KeepAliveRequest) sent)"

lemma keep_alives_append [simp]: "keep_alives (xs @ ys) = keep_alives xs @ keep_alives ys"
  by (simp add: keep_alives_def)

lemma client_step_tick:
  assumes "game_client_step fadd moves token w c = (ps, Inr c')" "gc_keep_alive c = Some d" "not_welcomed w"
  shows "keep_alives (map (Pair (gw_now w)) ps) = [] \<and> gc_keep_alive c' = Some d \<or>
    keep_alives (map (Pair (gw_now w)) ps) = [gw_now w] \<and> d \<le> gw_now w \<and>
      gc_keep_alive c' = Some (d + KEEP_ALIVE_INTERVAL)"
  using assms
  by (auto simp: game_client_step_def client_send_def keep_alives_def not_welcomed_def Let_def
      split: game_ready.splits frame.splits option.splits payload.splits if_splits)

definition on_beat :: "duration \<Rightarrow> instant \<Rightarrow> instant list \<Rightarrow> bool" where
  "on_beat late d ts \<longleftrightarrow>
     (\<forall>k<length ts. d + k * KEEP_ALIVE_INTERVAL \<le> ts ! k \<and> ts ! k \<le> d + k * KEEP_ALIVE_INTERVAL + late)"

lemma on_beat_Nil [simp]: "on_beat late d []" by (simp add: on_beat_def)

lemma on_beat_Cons:
  "on_beat late d (t # ts) \<longleftrightarrow> d \<le> t \<and> t \<le> d + late \<and> on_beat late (d + KEEP_ALIVE_INTERVAL) ts"
  by (simp add: on_beat_def All_less_Suc2 add_ac)

lemma client_beats:
  assumes "game_client_loop fadd moves token ws c = (sent, Inr c')" "gc_keep_alive c = Some d"
    and "served late fadd moves token ws c" "list_all not_welcomed ws"
  shows "gc_keep_alive c' = Some (d + length (keep_alives sent) * KEEP_ALIVE_INTERVAL) \<and>
    on_beat late d (keep_alives sent) \<and>
    (\<forall>w\<in>set ws. gw_now w \<le> d + length (keep_alives sent) * KEEP_ALIVE_INTERVAL + late)"
  using assms
proof (induction ws arbitrary: c sent d)
  case Nil
  then show ?case by (simp add: keep_alives_def)
next
  case (Cons w ws)
  obtain ps c1 sent1 where step: "game_client_step fadd moves token w c = (ps, Inr c1)"
    and loop: "game_client_loop fadd moves token ws c1 = (sent1, Inr c')"
    and sent: "sent = map (Pair (gw_now w)) ps @ sent1"
    using Cons.prems(1) by (auto split: prod.splits sum.splits)
  from Cons.prems step have late: "gw_now w \<le> d + late" and served: "served late fadd moves token ws c1"
    and quiet: "not_welcomed w" "list_all not_welcomed ws" by simp_all
  from client_step_tick [OF step Cons.prems(2) quiet(1)] show ?case
  proof (elim disjE conjE)
    assume "keep_alives (map (Pair (gw_now w)) ps) = []" "gc_keep_alive c1 = Some d"
    with Cons.IH [OF loop _ served quiet(2)] late show ?thesis by (auto simp: sent)
  next
    assume "keep_alives (map (Pair (gw_now w)) ps) = [gw_now w]" "d \<le> gw_now w"
      "gc_keep_alive c1 = Some (d + KEEP_ALIVE_INTERVAL)"
    with Cons.IH [OF loop _ served quiet(2)] late show ?thesis
      by (auto simp: sent on_beat_Cons add_ac)
  qed
qed

text \<open>
  The client keeps its session alive. From a tick due at \<open>d\<close> on, with no wake-up that finds a tick
  overdue by more than \<open>late\<close>, the keep-alive requests go out on the beat, the one with index \<open>k\<close> at
  most \<open>late\<close> after \<open>d + k * 3s\<close> and none before it. So if \<open>late\<close> is below seven seconds, between two
  of them, and from the last one to any later wake-up, less time passes than GameServer's timeout.
\<close>

theorem client_keeps_alive:
  assumes "game_client_loop fadd moves token ws c = (sent, Inr c')" "gc_keep_alive c = Some d"
    and "served late fadd moves token ws c" "list_all not_welcomed ws"
    and "late + KEEP_ALIVE_INTERVAL < KEEP_ALIVE_TIMEOUT"
  shows "let ts = keep_alives sent in
    (\<forall>k<length ts. d + k * KEEP_ALIVE_INTERVAL \<le> ts ! k \<and> ts ! k \<le> d + k * KEEP_ALIVE_INTERVAL + late) \<and>
    (\<forall>k. Suc k < length ts \<longrightarrow> ts ! Suc k < ts ! k + KEEP_ALIVE_TIMEOUT) \<and>
    (ts \<noteq> [] \<longrightarrow> (\<forall>w\<in>set ws. gw_now w < last ts + KEEP_ALIVE_TIMEOUT))"
proof -
  define ts where "ts = keep_alives sent"
  have beat: "\<forall>k<length ts. d + k * KEEP_ALIVE_INTERVAL \<le> ts ! k \<and> ts ! k \<le> d + k * KEEP_ALIVE_INTERVAL + late"
    and upto: "\<forall>w\<in>set ws. gw_now w \<le> d + length ts * KEEP_ALIVE_INTERVAL + late"
    using client_beats [OF assms(1-4)] by (simp_all add: ts_def on_beat_def)
  have "ts ! Suc k < ts ! k + KEEP_ALIVE_TIMEOUT" if "Suc k < length ts" for k
  proof -
    from beat that have "ts ! Suc k \<le> d + Suc k * KEEP_ALIVE_INTERVAL + late" by blast
    moreover from beat that have "d + k * KEEP_ALIVE_INTERVAL \<le> ts ! k" by simp
    ultimately show ?thesis using assms(5) by simp
  qed
  moreover have "gw_now w < last ts + KEEP_ALIVE_TIMEOUT" if nonempty: "ts \<noteq> []" and w: "w \<in> set ws" for w
  proof -
    obtain n where n: "length ts = Suc n" using nonempty by (cases ts) auto
    with beat have "d + n * KEEP_ALIVE_INTERVAL \<le> last ts" using nonempty by (simp add: last_conv_nth)
    moreover from upto w have "gw_now w \<le> d + Suc n * KEEP_ALIVE_INTERVAL + late" by (simp add: n)
    ultimately show ?thesis using assms(5) by simp
  qed
  ultimately show ?thesis using beat by (simp add: ts_def)
qed

theorem client_keeps_alive_witness:
  "fst (game_client_loop (+) False ''t''
      [\<lparr>gw_now = from_secs 3, gw_ready = Ready_Tick, gw_sent = True\<rparr>,
       \<lparr>gw_now = from_secs 7, gw_ready = Ready_Tick, gw_sent = True\<rparr>]
      (game_client_new\<lparr>gc_keep_alive := Some (from_secs 3)\<rparr>)) =
    [(from_secs 3, KeepAliveRequest), (from_secs 7, KeepAliveRequest)] \<and>
   from_secs 7 < from_secs 3 + KEEP_ALIVE_TIMEOUT"
proof -
  let ?ws = "[\<lparr>gw_now = from_secs 3, gw_ready = Ready_Tick, gw_sent = True\<rparr>,
       \<lparr>gw_now = from_secs 7, gw_ready = Ready_Tick, gw_sent = True\<rparr>]"
    and ?c = "game_client_new\<lparr>gc_keep_alive := Some (from_secs 3)\<rparr>"
  have loop: "game_client_loop (+) False ''t'' ?ws ?c =
      ([(from_secs 3, KeepAliveRequest), (from_secs 7, KeepAliveRequest)],
       Inr (game_client_new\<lparr>gc_keep_alive := Some (from_secs 9)\<rparr>))"
    by (simp add: game_client_step_def client_send_def KEEP_ALIVE_INTERVAL_def from_secs_def)
  have served: "served (from_secs 1) (+) False ''t'' ?ws ?c"
    by (simp add: game_client_step_def client_send_def KEEP_ALIVE_INTERVAL_def from_secs_def)
  have "keep_alives [(from_secs 3, KeepAliveRequest), (from_secs 7, KeepAliveRequest)] = [from_secs 3, from_secs 7]"
    by (simp add: keep_alives_def)
  with client_keeps_alive [OF loop _ served] have "from_secs 7 < from_secs 3 + KEEP_ALIVE_TIMEOUT"
    by (auto simp: not_welcomed_def KEEP_ALIVE_INTERVAL_def KEEP_ALIVE_TIMEOUT_def from_secs_def)
  with loop show ?thesis by simp
qed

text \<open>An outbox with the greeting in it, for the witnesses of the conversations.\<close>

definition greeted :: "(message_wrapper list \<times> bool) outbox" where
  "greeted = \<lparr>ob_session_id = 4, ob_tx = ([outgoing (ConnectedResponse 0)], False)\<rparr>"

end
