(* ===== verification/Client_Game.thy ===== *)
theory Client_Game
  imports Client Game_Session
begin

text \<open>
  The client and a session of GameServer together: what the one sends the other handles. The two
  directions are queues; that a send queue, its writer, the socket and the decoder make one is shown
  in \<open>Outbox\<close>.
\<close>

section \<open>The two together\<close>

record 'c talk =
  tk_client :: game_client
  tk_sent :: "payload list"
  tk_session :: "'c game_session"

text \<open>
  \<open>tk_sent\<close> is on its way to the server; what is on its way back is the queue of the session's outbox.
  A step is one of the client (with a message of the server or with something else) or one of the
  session (with a message of the client or with something else), neither of which ends its side.
\<close>

inductive talk_step :: "('c, message_wrapper) mpsc \<Rightarrow> duration \<Rightarrow> 'k \<Rightarrow> (f32 \<Rightarrow> f32 \<Rightarrow> f32) \<Rightarrow> bool \<Rightarrow> string \<Rightarrow>
    'c talk \<times> ('k, game_work) world \<Rightarrow> 'c talk \<times> ('k, game_work) world \<Rightarrow> bool"
  for mp t kick fadd moves token where
  client_reads: "queued mp (gs_outbox (tk_session a)) = m # ms \<Longrightarrow> gw_ready w = Ready_Message (Message m) \<Longrightarrow>
    game_client_step fadd moves token w (tk_client a) = (ps, Inr c) \<Longrightarrow>
    talk_step mp t kick fadd moves token (a, wd)
      (a\<lparr>tk_client := c, tk_sent := tk_sent a @ ps,
         tk_session := (tk_session a)\<lparr>gs_outbox := receive_one mp (gs_outbox (tk_session a))\<rparr>\<rparr>, wd)"
| client_acts: "(\<forall>f. gw_ready w \<noteq> Ready_Message f) \<Longrightarrow>
    game_client_step fadd moves token w (tk_client a) = (ps, Inr c) \<Longrightarrow>
    talk_step mp t kick fadd moves token (a, wd) (a\<lparr>tk_client := c, tk_sent := tk_sent a @ ps\<rparr>, wd)"
| server_reads: "tk_sent a = m # ms \<Longrightarrow> p_frame p = Some (Message (outgoing m)) \<Longrightarrow> p_taken p = 0 \<Longrightarrow>
    loop_step (game_actor mp t) kick p (tk_session a, wd) = (Continue, s, wd') \<Longrightarrow>
    talk_step mp t kick fadd moves token (a, wd) (a\<lparr>tk_sent := ms, tk_session := s\<rparr>, wd')"
| server_acts: "p_frame p = None \<Longrightarrow> p_taken p = 0 \<Longrightarrow>
    loop_step (game_actor mp t) kick p (tk_session a, wd) = (Continue, s, wd') \<Longrightarrow>
    talk_step mp t kick fadd moves token (a, wd) (a\<lparr>tk_session := s\<rparr>, wd')"

text \<open>A connection begins: the greeting is queued, the client waits.\<close>

definition talk_start :: "u64 \<Rightarrow> 'c outbox \<Rightarrow> instant \<Rightarrow> 'c talk" where
  "talk_start i ob now = \<lparr>tk_client = game_client_new, tk_sent = [], tk_session = game_session_new i ob now\<rparr>"

section \<open>The invariant\<close>

definition welcomes :: "message_wrapper \<Rightarrow> bool" where
  "welcomes m \<longleftrightarrow> (case wrapped m of Some (GameConnectResponse success _) \<Rightarrow> success | _ \<Rightarrow> False)"

definition moving :: "payload \<Rightarrow> bool" where
  "moving p \<longleftrightarrow> (case p of MoveRequest _ _ \<Rightarrow> True | _ \<Rightarrow> False)"

definition of_client :: "payload \<Rightarrow> bool" where
  "of_client p \<longleftrightarrow> moving p \<or> game_allowed (Some p)"

text \<open>
  The client is authenticated, is being told so, or has a move on its way, only if its session is; and it
  sends nothing but connect requests, keep-alives and moves.
\<close>

definition talk_inv :: "('c, message_wrapper) mpsc \<Rightarrow> 'c talk \<Rightarrow> bool" where
  "talk_inv mp a \<longleftrightarrow>
     (gc_keep_alive (tk_client a) \<noteq> None \<or> list_ex welcomes (gs_queued mp (tk_session a)) \<or>
        list_ex moving (tk_sent a) \<longrightarrow> game_authed (tk_session a)) \<and>
     list_all of_client (tk_sent a)"

lemma client_step_talks:
  assumes "game_client_step fadd moves token w c = (ps, Inr c')"
  shows "list_all of_client ps"
    and "list_ex moving ps \<Longrightarrow> gc_keep_alive c \<noteq> None"
    and "gc_keep_alive c' \<noteq> None \<Longrightarrow> gc_keep_alive c \<noteq> None \<or>
      (\<exists>m. gw_ready w = Ready_Message (Message m) \<and> welcomes m)"
  using assms
  by (auto simp: game_client_step_def client_send_def of_client_def moving_def game_allowed_def welcomes_def Let_def
      split: game_ready.splits frame.splits option.splits payload.splits if_splits)

lemma send_flow_queue:
  assumes "mpsc_laws MAX_SEND_QUEUE_SIZE mp" "game_send_flow mp r (s, w) = (f, s', w')"
  shows "set (gs_queued mp s') \<subseteq> insert (outgoing r) (set (gs_queued mp s))"
  using send_flow_spec(2) [OF assms(1), of r "gs_outbox s"] assms(2)
  by (auto simp: game_send_flow_def split: prod.splits if_splits)

lemma welcomes_outgoing [simp]: "welcomes (outgoing p) \<longleftrightarrow> (\<exists>code. p = GameConnectResponse True code)"
  by (auto simp: welcomes_def outgoing_def split: payload.splits)

text \<open>A session says that it is authenticated only when it is.\<close>

lemma game_step_welcomes:
  assumes laws: "mpsc_laws MAX_SEND_QUEUE_SIZE mp"
    and step: "loop_step (game_actor mp t) kick p (s, w) = (f, s', w')"
    and told: "list_ex welcomes (gs_queued mp s')"
  shows "list_ex welcomes (gs_queued mp s) \<or> game_authed s'"
proof -
  let ?s = "s\<lparr>gs_outbox := receive_from mp (p_taken p) (gs_outbox s)\<rparr>" and ?w = "others_run (p_others p) w"
  have wake: "wake (game_actor mp t) p (s, w) = (?s, ?w)" by (simp add: wake_def game_step_simps)
  have sub: "set (gs_queued mp ?s) \<subseteq> set (gs_queued mp s)"
    by (auto simp: receive_from_spec [OF laws] dest: in_set_dropD)
  have sends: "list_ex welcomes (gs_queued mp s) \<or> (\<exists>code. r = GameConnectResponse True code)"
    if "game_send_flow mp r (s1, w1) = (f, s', w')" "gs_outbox s1 = gs_outbox ?s" for r s1 w1
  proof -
    from told obtain m where "m \<in> set (gs_queued mp s')" "welcomes m" by (auto simp: list_ex_iff)
    moreover from this(1) send_flow_queue [OF laws that(1)] sub have "m = outgoing r \<or> m \<in> set (gs_queued mp s)"
      unfolding that(2) by auto
    ultimately show ?thesis by (auto simp: list_ex_iff)
  qed
  from step show ?thesis
  proof (cases rule: loop_step_cases)
    case none
    then show ?thesis using told sub by (auto simp: wake list_ex_iff)
  next
    case (remote m)
    then show ?thesis using told sub
      by (auto dest!: sends simp: wake game_step_simps game_on_remote_def on_game_connect_request_def on_game_over_report_def
          send_game_connect_def Let_def list_ex_iff split: option.splits payload.splits if_splits)
  next
    case (inner i)
    then show ?thesis using sends game_send_flow_frame
      by (fastforce simp: wake game_step_simps game_on_inner_def game_on_authenticated_def send_game_connect_def
          game_authed_def split: game_inner_message.splits option.splits)
  qed
qed

lemma game_step_authed:
  "loop_step (game_actor mp t) kick p (s, w) = (Continue, s', w') \<Longrightarrow> game_authed s \<Longrightarrow> game_authed s'"
  using game.step_effects by fast

lemma talk_inv_step:
  assumes laws: "mpsc_laws MAX_SEND_QUEUE_SIZE mp"
    and "talk_step mp t kick fadd moves token (a, wd) (a', wd')" and inv: "talk_inv mp a"
  shows "talk_inv mp a'"
  using assms(2)
proof (cases rule: talk_step.cases)
  case client_reads
  then show ?thesis using inv client_step_talks [OF client_reads(5)]
    by (auto simp: talk_inv_def game_authed_def receive_one_spec [OF laws])
next
  case client_acts
  then show ?thesis using inv client_step_talks [OF client_acts(4)] by (auto simp: talk_inv_def)
next
  case server_reads
  then show ?thesis using inv game_step_welcomes [OF laws server_reads(5)] game_step_authed [OF server_reads(5)]
    by (auto simp: talk_inv_def)
next
  case server_acts
  then show ?thesis using inv game_step_welcomes [OF laws server_acts(4)] game_step_authed [OF server_acts(4)]
    by (auto simp: talk_inv_def)
qed

definition talk_reachable where
  "talk_reachable mp t kick fadd moves token start a \<longleftrightarrow>
     (\<exists>wd wd'. (talk_step mp t kick fadd moves token)\<^sup>*\<^sup>* (start, wd) (a, wd'))"

lemma talk_reachable_inv:
  assumes "mpsc_laws MAX_SEND_QUEUE_SIZE mp" "talk_reachable mp t kick fadd moves token start a" "talk_inv mp start"
  shows "talk_inv mp a"
proof -
  have "talk_inv mp (fst y)" if "(talk_step mp t kick fadd moves token)\<^sup>*\<^sup>* x y" "talk_inv mp (fst x)" for x y
    using that by (induction rule: rtranclp_induct) (use talk_inv_step [OF assms(1)] in \<open>force+\<close>)
  with assms(2,3) show ?thesis by (force simp: talk_reachable_def)
qed

text \<open>
  C20. The client and GameServer agree on the protocol: in every state the two reach together, GameServer
  goes on with whatever message of the client comes next, unless its session was kicked or its
  send queue has no room. It never ends the connection for a message before authentication,
  however the client's ticks and moves, the store's answers and the two directions interleave.
\<close>

theorem client_never_refused:
  assumes "mpsc_laws MAX_SEND_QUEUE_SIZE mp"
    and "list_all (\<lambda>m. \<not> welcomes m) (queued mp ob)"
    and "talk_reachable mp t kick fadd moves token (talk_start i ob now) a"
    and "tk_sent a = m # ms" and "has_room mp (gs_outbox (tk_session a))"
    and "kick \<notin> cancelled wd" and "p_others p = []" "p_taken p = 0" "p_frame p = Some (Message (outgoing m))"
  shows "fst (loop_step (game_actor mp t) kick p (tk_session a, wd)) = Continue"
proof -
  have "talk_inv mp (talk_start i ob now)"
    using assms(2) by (auto simp: talk_inv_def talk_start_def game_client_new_def game_session_new_def
        list_all_iff list_ex_iff)
  from talk_reachable_inv [OF assms(1,3) this] assms(4)
  have client: "of_client m" and authed: "moving m \<Longrightarrow> game_authed (tk_session a)" by (auto simp: talk_inv_def)
  have step: "loop_step (game_actor mp t) kick p (tk_session a, wd) =
      game_on_remote mp (p_now p) (outgoing m) (tk_session a, wd)"
    using assms(6-9) by (simp add: loop_step_def branch_of_def wake_def select_biased_def run_branch_def
        game_step_simps receive_from_def)
  have send: "fst (game_send_flow mp r (s, w)) = Continue" if "gs_outbox s = gs_outbox (tk_session a)" for r s w
    using game_send_flow_room [OF assms(1), of s r w] assms(5) that by auto
  show ?thesis unfolding step using client authed send
    by (cases m) (auto simp: of_client_def moving_def game_allowed_def game_handler_defs outgoing_def
        game_authed_def)
qed

text \<open>A client that has got into the game and moves, for the witness.\<close>

abbreviation sample_talk_step where
  "sample_talk_step \<equiv> talk_step sample_mpsc KEEP_ALIVE_TIMEOUT (9 :: nat) (+) True ''x''"

abbreviation sample_wake :: "instant \<Rightarrow> game_ready \<Rightarrow> game_wake" where
  "sample_wake now r \<equiv> \<lparr>gw_now = now, gw_ready = r, gw_sent = True\<rparr>"

lemma sample_talk:
  "\<exists>a wd. sample_talk_step\<^sup>*\<^sup>* (talk_start 4 greeted 0, world_new registry_default) (a, wd) \<and>
    tk_sent a = [MoveRequest 1 2] \<and> has_room sample_mpsc (gs_outbox (tk_session a)) \<and> cancelled wd = {}"
proof -
  let ?acc = "\<lparr>account_id = 7, user_id = ''u''\<rparr>"
  let ?a0 = "talk_start 4 greeted 0"
  let ?empty = "\<lparr>ob_session_id = 4, ob_tx = ([], False)\<rparr> :: (message_wrapper list \<times> bool) outbox"
  let ?s1 = "game_session_new 4 ?empty 0" and ?w0 = "world_new registry_default :: (nat, game_work) world"
  let ?w1 = "spawn (TakeAuthToken ''x'') ?w0"
  let ?s2 = "?s1\<lparr>gs_account := Some ?acc, gs_last_keep_alive := 2,
      gs_outbox := \<lparr>ob_session_id = 4, ob_tx = ([outgoing (GameConnectResponse True 0)], False)\<rparr>\<rparr>"
  let ?w2 = "world_authenticate 4 ''u'' ?w1"
  let ?c = "game_client_new\<lparr>gc_keep_alive := Some (3 + KEEP_ALIVE_INTERVAL)\<rparr>"
  have 1: "sample_talk_step (?a0, ?w0) (\<lparr>tk_client = game_client_new, tk_sent = [GameConnectRequest ''x''], tk_session = ?s1\<rparr>, ?w0)"
    using talk_step.client_reads [of sample_mpsc ?a0 "outgoing (ConnectedResponse 0)" "[]"
        "sample_wake 0 (Ready_Message (Message (outgoing (ConnectedResponse 0))))" "(+)" True "''x''"
        "[GameConnectRequest ''x'']" game_client_new]
    by (simp add: talk_start_def greeted_def game_session_new_def sample_defs receive_one_def outgoing_def
        game_client_step_def client_send_def)
  have polls: "p_frame (frame_at n m) = Some (Message (outgoing m))" "p_taken (frame_at n m) = 0"
    "p_frame (inner_at n j) = None" "p_taken (inner_at n j) = 0"
    for n m and j :: game_inner_message by (simp_all add: frame_at_def inner_at_def)
  have L2: "loop_step (game_actor sample_mpsc KEEP_ALIVE_TIMEOUT) 9 (frame_at 1 (GameConnectRequest ''x'')) (?s1, ?w0) =
      (Continue, ?s1, ?w1)"
    by (simp add: loop_step_polls game_step_simps receive_from_def game_handler_defs outgoing_def world_new_def
        game_session_new_def)
  have 2: "sample_talk_step (\<lparr>tk_client = game_client_new, tk_sent = [GameConnectRequest ''x''], tk_session = ?s1\<rparr>, ?w0)
      (\<lparr>tk_client = game_client_new, tk_sent = [], tk_session = ?s1\<rparr>, ?w1)"
    using talk_step.server_reads [of "\<lparr>tk_client = game_client_new, tk_sent = [GameConnectRequest ''x''], tk_session = ?s1\<rparr>"
        "GameConnectRequest ''x''" "[]", OF _ polls(1,2)] L2 by simp
  have L3: "loop_step (game_actor sample_mpsc KEEP_ALIVE_TIMEOUT) 9
      (inner_at 2 (TokenTaken (Some (token_value 7 ''u'')))) (?s1, ?w1) = (Continue, ?s2, ?w2)"
    by (simp add: loop_step_polls game_step_simps receive_from_def game_handler_defs outgoing_def world_new_def
        game_session_new_def game_send_flow_def send_flow_def outbox_send_def sample_defs const_defs)
  have 3: "sample_talk_step (\<lparr>tk_client = game_client_new, tk_sent = [], tk_session = ?s1\<rparr>, ?w1)
      (\<lparr>tk_client = game_client_new, tk_sent = [], tk_session = ?s2\<rparr>, ?w2)"
    using talk_step.server_acts [OF polls(3,4),
        where a = "\<lparr>tk_client = game_client_new, tk_sent = [], tk_session = ?s1\<rparr>"] L3 by simp
  let ?s3 = "?s2\<lparr>gs_outbox := ?empty\<rparr>"
  have 4: "sample_talk_step (\<lparr>tk_client = game_client_new, tk_sent = [], tk_session = ?s2\<rparr>, ?w2)
      (\<lparr>tk_client = ?c, tk_sent = [], tk_session = ?s3\<rparr>, ?w2)"
    using talk_step.client_reads [of sample_mpsc "\<lparr>tk_client = game_client_new, tk_sent = [], tk_session = ?s2\<rparr>"
        "outgoing (GameConnectResponse True 0)" "[]"
        "sample_wake 3 (Ready_Message (Message (outgoing (GameConnectResponse True 0))))" "(+)" True "''x''" "[]" ?c]
    by (simp add: game_session_new_def sample_defs receive_one_def outgoing_def game_client_step_def)
  have 5: "sample_talk_step (\<lparr>tk_client = ?c, tk_sent = [], tk_session = ?s3\<rparr>, ?w2)
      (\<lparr>tk_client = ?c\<lparr>gc_x := 1, gc_y := 2\<rparr>, tk_sent = [MoveRequest 1 2], tk_session = ?s3\<rparr>, ?w2)"
    using talk_step.client_acts [of "sample_wake 4 (Ready_Move 1 2)" "(+)" True "''x''"
        "\<lparr>tk_client = ?c, tk_sent = [], tk_session = ?s3\<rparr>" "[MoveRequest 1 2]" "?c\<lparr>gc_x := 1, gc_y := 2\<rparr>"]
    by (simp add: game_client_step_def client_send_def game_client_new_def)
  let ?a5 = "\<lparr>tk_client = ?c\<lparr>gc_x := 1, gc_y := 2\<rparr>, tk_sent = [MoveRequest 1 2], tk_session = ?s3\<rparr>"
  have "sample_talk_step\<^sup>*\<^sup>* (?a0, ?w0) (?a5, ?w2)"
    using 1 2 3 4 5 by (meson converse_rtranclp_into_rtranclp rtranclp.rtrancl_refl)
  moreover have "has_room sample_mpsc (gs_outbox (tk_session ?a5))"
    by (simp add: has_room_def sample_defs const_defs game_session_new_def)
  moreover have "cancelled ?w2 = {}" by (simp add: world_new_def authenticate_def registry_default_def)
  ultimately show ?thesis by (intro exI [of _ ?a5] exI [of _ ?w2]) simp
qed

theorem client_never_refused_witness:
  "\<exists>(a :: (message_wrapper list \<times> bool) talk) wd. tk_sent a = [MoveRequest 1 2] \<and>
    fst (loop_step (game_actor sample_mpsc KEEP_ALIVE_TIMEOUT) (9 :: nat) (frame_at 5 (MoveRequest 1 2)) (tk_session a, wd)) = Continue"
proof -
  obtain a wd where reach: "sample_talk_step\<^sup>*\<^sup>* (talk_start 4 greeted 0, world_new registry_default) (a, wd)"
    and a: "tk_sent a = [MoveRequest 1 2]" "has_room sample_mpsc (gs_outbox (tk_session a))" and wd: "cancelled wd = {}"
    using sample_talk by blast
  have "fst (loop_step (game_actor sample_mpsc KEEP_ALIVE_TIMEOUT) (9 :: nat) (frame_at 5 (MoveRequest 1 2)) (tk_session a, wd)) = Continue"
  proof (rule client_never_refused)
    show "talk_reachable sample_mpsc KEEP_ALIVE_TIMEOUT (9 :: nat) (+) True ''x'' (talk_start 4 greeted 0) a"
      using reach by (auto simp: talk_reachable_def)
    show "list_all (\<lambda>m. \<not> welcomes m) (queued sample_mpsc greeted)"
      by (simp add: greeted_def sample_defs)
  qed (use a wd in \<open>simp_all add: frame_at_def\<close>)
  with a show ?thesis by blast
qed

end
