(* ===== verification/Client_Login.thy ===== *)
theory Client_Login
  imports Client Login_Session
begin

text \<open>
  The client and a session of LoginServer together, as \<open>Client_Game\<close> has it for GameServer: the client's
  \<open>login_phase\<close> on one side, the session with its login task on the other.
\<close>

section \<open>The client, a message at a time\<close>

lemma login_phase_append:
  "snd (login_phase uid cfg ws) = None \<Longrightarrow>
    login_phase uid cfg (ws @ vs) =
      (fst (login_phase uid cfg ws) @ fst (login_phase uid cfg vs), snd (login_phase uid cfg vs))"
  by (induction uid cfg ws rule: login_phase.induct)
    (auto simp: Let_def split: option.splits payload.splits prod.splits if_splits)

lemma login_phase_sends:
  "set (fst (login_phase uid cfg ws)) \<subseteq> {LoginRequest uid (cs_client_hash cfg)}"
proof (induction ws)
  case (Cons w ws)
  show ?case
  proof (cases w)
    case (Login_Next f ok)
    with Cons show ?thesis
      by (cases f) (auto simp: Let_def split: option.split payload.split prod.split)
  qed simp
qed simp

definition greets :: "message_wrapper \<Rightarrow> bool" where
  "greets m \<longleftrightarrow> (case wrapped m of Some (ConnectedResponse _) \<Rightarrow> True | _ \<Rightarrow> False)"

definition grants :: "message_wrapper \<Rightarrow> string \<Rightarrow> bool" where
  "grants m token \<longleftrightarrow> (\<exists>code. wrapped m = Some (LoginResponse True code token))"

lemma login_phase_one:
  "fst (login_phase uid cfg [Login_Next (Message m) True]) =
    (if greets m then [LoginRequest uid (cs_client_hash cfg)] else [])"
  "snd (login_phase uid cfg [Login_Next (Message m) True]) = Some (Inr token) \<longleftrightarrow> grants m token"
  "snd (login_phase uid cfg [Login_Next (Message m) True]) \<noteq> Some (Inl f)"
  by (auto simp: greets_def grants_def split: option.splits payload.splits)

section \<open>What the session sends\<close>

lemma outgoing_simps [simp]:
  "greets (outgoing p) \<longleftrightarrow> (\<exists>i. p = ConnectedResponse i)"
  "grants (outgoing p) token \<longleftrightarrow> (\<exists>code. p = LoginResponse True code token)"
  by (auto simp: greets_def grants_def outgoing_def split: payload.splits)

definition answers :: "('c, message_wrapper) mpsc \<Rightarrow> 'c login_session \<Rightarrow> 'c login_session \<Rightarrow>
    (payload \<Rightarrow> bool) \<Rightarrow> bool" where
  "answers mp s s' P \<longleftrightarrow>
     queued mp (ls_outbox s') = queued mp (ls_outbox s) \<or>
     (\<exists>r. P r \<and> queued mp (ls_outbox s') = queued mp (ls_outbox s) @ [outgoing r])"

lemma login_send_flow_answers:
  assumes "mpsc_laws MAX_SEND_QUEUE_SIZE mp" "login_send_flow mp r (s1, w1) = (f, s', w')"
    and "ls_outbox s1 = ls_outbox s" "P r"
  shows "answers mp s s' P"
  using send_flow_spec(2) [OF assms(1), of r "ls_outbox s1"] assms(2-4)
  by (auto simp: answers_def login_send_flow_def split: prod.splits if_splits)

text \<open>To a message of the client: nothing, or a refusal; at most the request is spawned.\<close>

lemma login_on_remote_answers:
  assumes laws: "mpsc_laws MAX_SEND_QUEUE_SIZE mp" and "login_on_remote mp now m (s, w) = (f, s', w')"
  shows "answers mp s s' (\<lambda>r. \<exists>code. r = LoginResponse False code []) \<and>
    (spawned w' = spawned w \<or>
     (\<exists>uid h. wrapped m = Some (LoginRequest uid h) \<and> spawned w' = spawned w @ [Authenticate_Login uid h]))"
proof -
  let ?P = "\<lambda>r. \<exists>code. r = LoginResponse False code []"
  have refused: "answers mp s s' ?P \<and> spawned w' = spawned w"
    if "send_login_failure mp code (s1, w) = (f, s', w')" "ls_outbox s1 = ls_outbox s" for code s1
    using login_send_flow_answers [OF laws that(1) [unfolded send_login_failure_def] that(2), where P = ?P]
      login_send_flow_frame [OF that(1) [unfolded send_login_failure_def]] by simp
  show ?thesis
  proof (cases "\<exists>uid h. wrapped m = Some (LoginRequest uid h)")
    case False
    with assms(2) show ?thesis
      by (auto simp: login_on_remote_def answers_def Let_def split: option.splits payload.splits if_splits)
  next
    case True
    then obtain uid h where m: "wrapped m = Some (LoginRequest uid h)" by blast
    obtain granted s1 where c: "try_consume_login_attempt now s = (granted, s1)" by (rule prod.exhaust)
    have s1: "ls_outbox s1 = ls_outbox s" using try_consume_frame [OF c] by simp
    from assms(2) have run: "(if ls_account s \<noteq> None then send_login_failure mp InvalidCredentials (s, w)
        else if \<not> granted then send_login_failure mp RateLimited (s1, w)
        else if uid = [] \<or> h = [] then send_login_failure mp InvalidCredentials (s1, w)
        else (Continue, s1, spawn (Authenticate_Login uid h) w)) = (f, s', w')"
      unfolding login_on_remote_def on_login_request_def prod.case Let_def m option.case payload.case c .
    show ?thesis
    proof (cases "ls_account s = None \<and> granted \<and> uid \<noteq> [] \<and> h \<noteq> []")
      case True
      with run m s1 show ?thesis by (auto simp: answers_def)
    next
      case False
      with run refused s1 show ?thesis by (auto split: if_splits)
    qed
  qed
qed

text \<open>To the outcome of the login task: its reply, which grants a token only for a success.\<close>

lemma on_login_outcome_answers:
  assumes laws: "mpsc_laws MAX_SEND_QUEUE_SIZE mp" and "on_login_outcome mp now outcome (s, w) = (f, s', w')"
  shows "answers mp s s' (\<lambda>r. r = login_reply_of outcome) \<and> spawned w' = spawned w \<and>
    (\<forall>a token. outcome = LoginSuccess a token \<longrightarrow> ls_account s' = Some a)"
proof -
  let ?P = "\<lambda>r. r = login_reply_of outcome"
  have sent: "answers mp s s' ?P \<and> spawned w' = spawned w1 \<and> ls_account s' = ls_account s1"
    if "login_send_flow mp (login_reply_of outcome) (s1, w1) = (f, s', w')" "ls_outbox s1 = ls_outbox s" for s1 w1
    using login_send_flow_answers [OF laws that(1,2), where P = ?P] login_send_flow_frame [OF that(1)] by simp
  show ?thesis
  proof (cases outcome)
    case (LoginSuccess a token)
    with assms(2) have "login_send_flow mp (login_reply_of outcome)
        (s\<lparr>ls_account := Some a, ls_last_keep_alive := now\<rparr>,
         world_authenticate (ls_session_id s) (la_user_id a) w) = (f, s', w')"
      by (simp add: on_login_outcome_def)
    from sent [OF this] LoginSuccess show ?thesis by simp
  next
    case (LoginFailure code)
    with assms(2) have "login_send_flow mp (login_reply_of outcome) (s, w) = (f, s', w')"
      by (simp add: on_login_outcome_def send_login_failure_def)
    from sent [OF this] LoginFailure show ?thesis by simp
  next
    case LoginDbError
    with assms(2) have "login_send_flow mp (login_reply_of outcome) (s, w) = (f, s', w')"
      by (simp add: on_login_outcome_def LOGIN_DB_ERROR_CODE_def)
    from sent [OF this] LoginDbError show ?thesis by simp
  qed
qed

section \<open>The two together\<close>

text \<open>
  What the client has read (of the greeting and the answers, all \<open>Login_Next (Message m) True\<close> here), how
  much of what it sent the server has read, how many of the tasks the session spawned have reported,
  and the session.
\<close>

record 'c login_talk =
  lt_heard :: "message_wrapper list"
  lt_read :: nat
  lt_done :: nat
  lt_session :: "'c login_session"

definition lt_client :: "string \<Rightarrow> client_settings \<Rightarrow> 'c login_talk \<Rightarrow> payload list \<times> (finished + string) option" where
  "lt_client uid cfg a = login_phase uid cfg (map (\<lambda>m. Login_Next (Message m) True) (lt_heard a))"

definition lt_sent :: "string \<Rightarrow> client_settings \<Rightarrow> 'c login_talk \<Rightarrow> payload list" where
  "lt_sent uid cfg a = fst (lt_client uid cfg a)"

definition lt_result :: "string \<Rightarrow> client_settings \<Rightarrow> 'c login_talk \<Rightarrow> (finished + string) option" where
  "lt_result uid cfg a = snd (lt_client uid cfg a)"

definition heard_one :: "('c, message_wrapper) mpsc \<Rightarrow> message_wrapper \<Rightarrow> 'c login_talk \<Rightarrow> 'c login_talk" where
  "heard_one mp m a = a\<lparr>lt_heard := lt_heard a @ [m],
     lt_session := (lt_session a)\<lparr>ls_outbox := receive_one mp (ls_outbox (lt_session a))\<rparr>\<rparr>"

text \<open>
  A step: the client reads a message, the session reads one of the client, hears of a spawned task, or
  wakes up for something else; neither side ends. The stores are in any state when a task uses them.
\<close>

inductive login_talk_step :: "('c, message_wrapper) mpsc \<Rightarrow> duration \<Rightarrow> 'k \<Rightarrow> crypto \<Rightarrow> 'b login_backend \<Rightarrow>
    string \<Rightarrow> client_settings \<Rightarrow>
    'c login_talk \<times> ('k, login_work) world \<Rightarrow> 'c login_talk \<times> ('k, login_work) world \<Rightarrow> bool"
  for mp t kick cr be uid cfg where
  client_hears: "lt_result uid cfg a = None \<Longrightarrow> queued mp (ls_outbox (lt_session a)) = m # ms \<Longrightarrow>
    login_talk_step mp t kick cr be uid cfg (a, wd) (heard_one mp m a, wd)"
| server_hears: "lt_read a < length (lt_sent uid cfg a) \<Longrightarrow> p_taken p = 0 \<Longrightarrow>
    p_frame p = Some (Message (outgoing (lt_sent uid cfg a ! lt_read a))) \<Longrightarrow>
    loop_step (login_actor mp t) kick p (lt_session a, wd) = (Continue, s, wd') \<Longrightarrow>
    login_talk_step mp t kick cr be uid cfg (a, wd) (a\<lparr>lt_read := Suc (lt_read a), lt_session := s\<rparr>, wd')"
| task_done: "lt_done a < length (spawned wd) \<Longrightarrow> spawned wd ! lt_done a = Authenticate_Login u h \<Longrightarrow>
    login_authenticate cr be joined u h b = (outcome, b') \<Longrightarrow>
    p_taken p = 0 \<Longrightarrow> p_frame p = None \<Longrightarrow> p_inner p = Some outcome \<Longrightarrow>
    loop_step (login_actor mp t) kick p (lt_session a, wd) = (Continue, s, wd') \<Longrightarrow>
    login_talk_step mp t kick cr be uid cfg (a, wd) (a\<lparr>lt_done := Suc (lt_done a), lt_session := s\<rparr>, wd')"
| server_idles: "p_taken p = 0 \<Longrightarrow> p_frame p = None \<Longrightarrow> p_inner p = None \<Longrightarrow>
    loop_step (login_actor mp t) kick p (lt_session a, wd) = (Continue, s, wd') \<Longrightarrow>
    login_talk_step mp t kick cr be uid cfg (a, wd) (a\<lparr>lt_session := s\<rparr>, wd')"

definition login_talk_start :: "u64 \<Rightarrow> 'c outbox \<Rightarrow> instant \<Rightarrow> 'c login_talk" where
  "login_talk_start i ob now =
     \<lparr>lt_heard = [], lt_read = 0, lt_done = 0, lt_session = login_session_new i ob now\<rparr>"

section \<open>The invariant\<close>

text \<open>The token is what a login of this client gave, and the session is logged in by it.\<close>

definition earned_token :: "crypto \<Rightarrow> 'b login_backend \<Rightarrow> string \<Rightarrow> client_settings \<Rightarrow> 'c login_session \<Rightarrow>
    string \<Rightarrow> bool" where
  "earned_token cr be uid cfg s token \<longleftrightarrow>
     (\<exists>acc joined b b'. login_authenticate cr be joined uid (cs_client_hash cfg) b = (LoginSuccess acc token, b') \<and>
        ls_account s = Some acc)"

text \<open>The greeting is there once, so everything after it happens at most once.\<close>

definition once_inv :: "('c, message_wrapper) mpsc \<Rightarrow> string \<Rightarrow> client_settings \<Rightarrow>
    'c login_talk \<Rightarrow> ('k, login_work) world \<Rightarrow> bool" where
  "once_inv mp uid cfg a wd \<longleftrightarrow>
     length (filter greets (queued mp (ls_outbox (lt_session a)))) + length (lt_sent uid cfg a) \<le> 1 \<and>
     lt_read a \<le> length (lt_sent uid cfg a) \<and> lt_done a \<le> length (spawned wd) \<and>
     length (spawned wd) \<le> lt_read a \<and> set (spawned wd) \<subseteq> {Authenticate_Login uid (cs_client_hash cfg)}"

definition token_inv :: "('c, message_wrapper) mpsc \<Rightarrow> crypto \<Rightarrow> 'b login_backend \<Rightarrow> string \<Rightarrow> client_settings \<Rightarrow>
    'c login_talk \<Rightarrow> bool" where
  "token_inv mp cr be uid cfg a \<longleftrightarrow>
     (\<forall>m\<in>set (queued mp (ls_outbox (lt_session a))). \<forall>token. grants m token \<longrightarrow>
        lt_done a = 1 \<and> earned_token cr be uid cfg (lt_session a) token) \<and>
     (\<forall>token. lt_result uid cfg a = Some (Inr token) \<longrightarrow>
        lt_done a = 1 \<and> earned_token cr be uid cfg (lt_session a) token)"

text \<open>A step of the session, by what it hears.\<close>

lemma login_step_remote:
  assumes laws: "mpsc_laws MAX_SEND_QUEUE_SIZE mp" and "p_taken p = 0" "p_frame p = Some (Message m)"
    and "loop_step (login_actor mp t) kick p (s, wd) = (Continue, s', wd')"
  shows "answers mp s s' (\<lambda>r. \<exists>code. r = LoginResponse False code []) \<and> ls_account s' = ls_account s \<and>
    (spawned wd' = spawned wd \<or>
     (\<exists>u h. wrapped m = Some (LoginRequest u h) \<and> spawned wd' = spawned wd @ [Authenticate_Login u h]))"
proof -
  have "login_on_remote mp (p_now p) m (s, others_run (p_others p) wd) = (Continue, s', wd')"
    using loop_step_continue [OF assms(4) refl] assms(2,3) by (auto simp: wake_def login_step_simps(1) split: option.splits)
  from login_on_remote_answers [OF laws this] login_on_remote_fields [OF this] show ?thesis by simp
qed

lemma login_step_outcome:
  assumes laws: "mpsc_laws MAX_SEND_QUEUE_SIZE mp" and "p_taken p = 0" "p_frame p = None" "p_inner p = Some outcome"
    and "loop_step (login_actor mp t) kick p (s, wd) = (Continue, s', wd')"
  shows "answers mp s s' (\<lambda>r. r = login_reply_of outcome) \<and> spawned wd' = spawned wd \<and>
    (\<forall>a token. outcome = LoginSuccess a token \<longrightarrow> ls_account s' = Some a)"
proof -
  have "on_login_outcome mp (p_now p) outcome (s, others_run (p_others p) wd) = (Continue, s', wd')"
    using loop_step_continue [OF assms(5) refl] assms(2-4) by (auto simp: wake_def login_step_simps(2) split: option.splits)
  from on_login_outcome_answers [OF laws this] show ?thesis by simp
qed

lemma login_step_idle:
  assumes "p_taken p = 0" "p_frame p = None" "p_inner p = None"
    and "loop_step (login_actor mp t) kick p (s, wd) = (Continue, s', wd')"
  shows "s' = s \<and> spawned wd' = spawned wd"
  using loop_step_continue [OF assms(4) refl] assms(1-3) by (simp add: wake_def)

lemma answers_greets:
  assumes "answers mp s s' P" "\<And>r i. P r \<Longrightarrow> r \<noteq> ConnectedResponse i"
  shows "length (filter greets (queued mp (ls_outbox s'))) = length (filter greets (queued mp (ls_outbox s)))"
  using assms by (auto simp: answers_def)

lemma login_reply_not_greeting: "login_reply_of outcome \<noteq> ConnectedResponse i"
  by (cases outcome) simp_all

lemma heard_one_client:
  assumes "lt_result uid cfg a = None"
  shows "lt_sent uid cfg (heard_one mp m a) =
      lt_sent uid cfg a @ (if greets m then [LoginRequest uid (cs_client_hash cfg)] else [])"
    and "lt_result uid cfg (heard_one mp m a) = Some (Inr token) \<longleftrightarrow> grants m token"
  using login_phase_append [of uid cfg "map (\<lambda>m. Login_Next (Message m) True) (lt_heard a)" "[Login_Next (Message m) True]"]
    assms login_phase_one [of uid cfg m]
  by (simp_all add: lt_sent_def lt_result_def lt_client_def heard_one_def)

lemma heard_one_simps:
  assumes "mpsc_laws MAX_SEND_QUEUE_SIZE mp"
  shows "lt_read (heard_one mp m a) = lt_read a" "lt_done (heard_one mp m a) = lt_done a"
    and "queued mp (ls_outbox (lt_session (heard_one mp m a))) = drop 1 (queued mp (ls_outbox (lt_session a)))"
    and "ls_account (lt_session (heard_one mp m a)) = ls_account (lt_session a)"
  by (simp_all add: heard_one_def receive_one_spec [OF assms])

lemma once_inv_step:
  assumes laws: "mpsc_laws MAX_SEND_QUEUE_SIZE mp"
    and "login_talk_step mp t kick cr be uid cfg (a, wd) (a', wd')" and inv: "once_inv mp uid cfg a wd"
  shows "once_inv mp uid cfg a' wd'"
  using assms(2)
proof (cases rule: login_talk_step.cases)
  case (client_hears m ms)
  then show ?thesis using inv
    by (auto simp: once_inv_def heard_one_client heard_one_simps [OF laws])
next
  case (server_hears p s)
  note step = login_step_remote [OF laws server_hears(3,4,5)]
  have "lt_sent uid cfg a ! lt_read a = LoginRequest uid (cs_client_hash cfg)"
    using login_phase_sends [of uid cfg] nth_mem [OF server_hears(2)] by (force simp: lt_sent_def lt_client_def)
  with step have "spawned wd' = spawned wd \<or> spawned wd' = spawned wd @ [Authenticate_Login uid (cs_client_hash cfg)]"
    by (auto simp: outgoing_def)
  moreover have same: "length (filter greets (queued mp (ls_outbox s))) = length (filter greets (queued mp (ls_outbox (lt_session a))))"
    by (rule answers_greets [OF step [THEN conjunct1]]) (auto simp: login_reply_not_greeting)
  ultimately show ?thesis using server_hears inv
    by (auto simp: once_inv_def lt_sent_def lt_client_def)
next
  case (task_done u h joined b outcome b' p s)
  note step = login_step_outcome [OF laws task_done(5,6,7,8)]
  have same: "length (filter greets (queued mp (ls_outbox s))) = length (filter greets (queued mp (ls_outbox (lt_session a))))"
    by (rule answers_greets [OF step [THEN conjunct1]]) (auto simp: login_reply_not_greeting)
  with task_done inv step show ?thesis
    by (auto simp: once_inv_def lt_sent_def lt_client_def)
next
  case (server_idles p s)
  from server_idles inv login_step_idle [OF server_idles(2,3,4,5)] show ?thesis
    by (auto simp: once_inv_def lt_sent_def lt_client_def)
qed

lemma token_inv_step:
  assumes laws: "mpsc_laws MAX_SEND_QUEUE_SIZE mp"
    and "login_talk_step mp t kick cr be uid cfg (a, wd) (a', wd')"
    and once: "once_inv mp uid cfg a wd" and inv: "token_inv mp cr be uid cfg a"
  shows "token_inv mp cr be uid cfg a'"
  using assms(2)
proof (cases rule: login_talk_step.cases)
  case (client_hears m ms)
  then show ?thesis using inv
    by (auto simp: token_inv_def heard_one_client heard_one_simps [OF laws] earned_token_def)
next
  case (server_hears p s)
  note step = login_step_remote [OF laws server_hears(3,4,5)]
  from server_hears inv step show ?thesis
    by (auto simp: token_inv_def answers_def earned_token_def lt_result_def lt_client_def)
next
  case (task_done u h joined b outcome b' p s)
  note step = login_step_outcome [OF laws task_done(5,6,7,8)]
  have first: "lt_done a = 0" using once task_done(2) by (auto simp: once_inv_def)
  with inv have none: "\<not> grants m token" "lt_result uid cfg a \<noteq> Some (Inr token)"
    if "m \<in> set (queued mp (ls_outbox (lt_session a)))" for m token
    using that by (auto simp: token_inv_def)
  have result: "lt_result uid cfg a \<noteq> Some (Inr token)" for token using inv first by (auto simp: token_inv_def)
  have "Authenticate_Login u h \<in> set (spawned wd)" using task_done(2,3) nth_mem by metis
  with once have task: "u = uid" "h = cs_client_hash cfg" by (auto simp: once_inv_def)
  have "earned_token cr be uid cfg s token" if "grants (outgoing (login_reply_of outcome)) token" for token
    using that task_done(4) step unfolding task by (cases outcome) (auto simp: earned_token_def)
  then show ?thesis
    using step task_done(1) first none(1) result
    by (auto simp: token_inv_def answers_def lt_result_def lt_client_def simp del: outgoing_simps)
next
  case (server_idles p s)
  from server_idles inv login_step_idle [OF server_idles(2,3,4,5)] show ?thesis
    by (auto simp: token_inv_def lt_result_def lt_client_def)
qed

definition login_talk_reachable where
  "login_talk_reachable mp t kick cr be uid cfg x y \<longleftrightarrow> (login_talk_step mp t kick cr be uid cfg)\<^sup>*\<^sup>* x y"

lemma login_talk_invs:
  assumes "mpsc_laws MAX_SEND_QUEUE_SIZE mp"
    and "login_talk_reachable mp t kick cr be uid cfg (login_talk_start i ob now, world_new r) (a, wd)"
    and "queued mp ob = [outgoing (ConnectedResponse 0)]"
  shows "once_inv mp uid cfg a wd \<and> token_inv mp cr be uid cfg a"
proof -
  let ?I = "\<lambda>x. once_inv mp uid cfg (fst x) (snd x) \<and> token_inv mp cr be uid cfg (fst x)"
  have "?I y" if "(login_talk_step mp t kick cr be uid cfg)\<^sup>*\<^sup>* x y" "?I x" for x y
    using that
  proof (induction rule: rtranclp_induct)
    case (step y z)
    then show ?case
      using once_inv_step [OF assms(1), of t kick cr be uid cfg "fst y" "snd y" "fst z" "snd z"]
        token_inv_step [OF assms(1), of t kick cr be uid cfg "fst y" "snd y" "fst z" "snd z"] by simp
  qed
  moreover have "?I (login_talk_start i ob now, world_new r)"
    using assms(3) by (simp add: once_inv_def token_inv_def login_talk_start_def login_session_new_def world_new_def
        lt_sent_def lt_result_def lt_client_def)
  ultimately show ?thesis using assms(2) unfolding login_talk_reachable_def by force
qed

text \<open>
  C21. The client and LoginServer agree on the login: in every state the two reach together, LoginServer goes
  on with whatever message of the client comes next (unless the session was kicked or its send queue
  has no room), it has started at most one password check, and if the client has got a token, a
  login with this client's user id and password hash was successful and gave exactly it, and the
  session is logged in as the account of that login.
\<close>

theorem client_login_agrees:
  assumes "mpsc_laws MAX_SEND_QUEUE_SIZE mp" "queued mp ob = [outgoing (ConnectedResponse 0)]"
    and "login_talk_reachable mp t kick cr be uid cfg (login_talk_start i ob now, world_new r) (a, wd)"
  shows "(\<forall>p. lt_read a < length (lt_sent uid cfg a) \<longrightarrow> has_room mp (ls_outbox (lt_session a)) \<longrightarrow>
      kick \<notin> cancelled wd \<longrightarrow> p_others p = [] \<longrightarrow> p_taken p = 0 \<longrightarrow>
      p_frame p = Some (Message (outgoing (lt_sent uid cfg a ! lt_read a))) \<longrightarrow>
      fst (loop_step (login_actor mp t) kick p (lt_session a, wd)) = Continue) \<and>
    length (spawned wd) \<le> 1 \<and>
    (\<forall>token. lt_result uid cfg a = Some (Inr token) \<longrightarrow>
      (\<exists>acc joined b b'. login_authenticate cr be joined uid (cs_client_hash cfg) b = (LoginSuccess acc token, b') \<and>
        ls_account (lt_session a) = Some acc))"
proof -
  have once: "once_inv mp uid cfg a wd" and token: "token_inv mp cr be uid cfg a"
    using login_talk_invs [OF assms(1,3,2)] by simp_all
  have "fst (loop_step (login_actor mp t) kick p (lt_session a, wd)) = Continue"
    if pending: "lt_read a < length (lt_sent uid cfg a)" and room: "has_room mp (ls_outbox (lt_session a))"
      and p: "kick \<notin> cancelled wd" "p_others p = []" "p_taken p = 0"
        "p_frame p = Some (Message (outgoing (lt_sent uid cfg a ! lt_read a)))" for p
  proof -
    have m: "lt_sent uid cfg a ! lt_read a = LoginRequest uid (cs_client_hash cfg)"
      using login_phase_sends [of uid cfg] nth_mem [OF pending] by (force simp: lt_sent_def lt_client_def)
    have step: "loop_step (login_actor mp t) kick p (lt_session a, wd) =
        login_on_remote mp (p_now p) (outgoing (LoginRequest uid (cs_client_hash cfg))) (lt_session a, wd)"
      using p by (simp add: loop_step_def branch_of_def wake_def select_biased_def run_branch_def
          login_step_simps(1) m)
    have send: "fst (login_send_flow mp x (s, w)) = Continue" if "ls_outbox s = ls_outbox (lt_session a)" for x s w
      using send_flow_spec(1) [OF assms(1), of x "ls_outbox (lt_session a)"] room that
      by (auto simp: login_send_flow_def split: prod.splits)
    obtain granted s1 where c: "try_consume_login_attempt (p_now p) (lt_session a) = (granted, s1)"
      by (rule prod.exhaust)
    show ?thesis unfolding step using send try_consume_frame [OF c] c
      by (auto simp: login_on_remote_def on_login_request_def send_login_failure_def outgoing_def)
  qed
  then show ?thesis using once token unfolding token_inv_def earned_token_def by (auto simp: once_inv_def)
qed

text \<open>A client that logs in, for the witness.\<close>

definition sample_settings :: client_settings where
  "sample_settings = \<lparr>cs_game_server = [], cs_client_hash = [1]\<rparr>"

abbreviation sample_login_step where
  "sample_login_step \<equiv> login_talk_step sample_mpsc KEEP_ALIVE_TIMEOUT (9 :: nat) toy_crypto sample_backend ''u'' sample_settings"

abbreviation sample_logged :: "nat \<Rightarrow> nat \<Rightarrow> message_wrapper list \<Rightarrow> (message_wrapper list \<times> bool) login_session \<Rightarrow>
    (message_wrapper list \<times> bool) login_talk" where
  "sample_logged r k ms s \<equiv> \<lparr>lt_heard = ms, lt_read = r, lt_done = k, lt_session = s\<rparr>"

lemma sample_login_talk:
  "\<exists>a wd. sample_login_step\<^sup>*\<^sup>* (login_talk_start 4 greeted 0, world_new registry_default) (a, wd) \<and>
    lt_result ''u'' sample_settings a = Some (Inr ''x'')"
proof -
  let ?hello = "outgoing (ConnectedResponse 0)" and ?yes = "outgoing (LoginResponse True 0 ''x'')"
  let ?acc = "\<lparr>la_user_id = ''u''\<rparr>" and ?ask = "LoginRequest ''u'' [1]"
  let ?ob = "\<lambda>ms. \<lparr>ob_session_id = 4, ob_tx = (ms, False)\<rparr> :: (message_wrapper list \<times> bool) outbox"
  let ?s0 = "login_session_new 4 greeted 0" and ?s1 = "login_session_new 4 (?ob []) 0"
  let ?s2 = "?s1\<lparr>ls_login_window := Some 1, ls_login_attempts := 1\<rparr>"
  let ?s3 = "?s2\<lparr>ls_account := Some ?acc, ls_last_keep_alive := 2, ls_outbox := ?ob [?yes]\<rparr>"
  let ?w0 = "world_new registry_default :: (nat, login_work) world"
  let ?w1 = "spawn (Authenticate_Login ''u'' [1]) ?w0"
  note lt_defs = lt_sent_def lt_result_def lt_client_def
  have 1: "sample_login_step (sample_logged 0 0 [] ?s0, ?w0) (sample_logged 0 0 [?hello] ?s1, ?w0)"
    using login_talk_step.client_hears [of "''u''" sample_settings "sample_logged 0 0 [] ?s0" sample_mpsc ?hello "[]"]
    by (simp add: lt_defs heard_one_def login_session_new_def greeted_def sample_defs receive_one_def)
  have L2: "loop_step (login_actor sample_mpsc KEEP_ALIVE_TIMEOUT) 9 (frame_at 1 ?ask) (?s1, ?w0) = (Continue, ?s2, ?w1)"
    by (simp add: loop_step_polls login_step_simps(1) login_on_remote_def on_login_request_def outgoing_def world_new_def
        try_consume_login_attempt_def LOGIN_ATTEMPTS_PER_WINDOW_def login_session_new_def)
  have 2: "sample_login_step (sample_logged 0 0 [?hello] ?s1, ?w0) (sample_logged 1 0 [?hello] ?s2, ?w1)"
    using login_talk_step.server_hears [where a = "sample_logged 0 0 [?hello] ?s1" and p = "frame_at 1 ?ask"
        and uid = "''u''" and cfg = sample_settings and wd = ?w0 and s = ?s2 and wd' = ?w1] L2
    by (simp add: lt_defs outgoing_def sample_settings_def frame_at_def)
  have L3: "loop_step (login_actor sample_mpsc KEEP_ALIVE_TIMEOUT) 9 (inner_at 2 (LoginSuccess ?acc ''x'')) (?s2, ?w1) =
      (Continue, ?s3, world_authenticate 4 ''u'' ?w1)"
    by (simp add: loop_step_polls login_step_simps(2) on_login_outcome_def login_send_flow_def send_flow_def
        outbox_send_def sample_defs const_defs outgoing_def login_session_new_def world_new_def)
  have auth: "login_authenticate toy_crypto sample_backend True ''u'' [1] [] = (LoginSuccess ?acc ''x'', [''touch'', ''issue''])"
    using sample_verify by (simp add: login_authenticate_def sample_backend_def) (simp add: sample_row_def)
  have 3: "sample_login_step (sample_logged 1 0 [?hello] ?s2, ?w1) (sample_logged 1 1 [?hello] ?s3, world_authenticate 4 ''u'' ?w1)"
    using login_talk_step.task_done [where a = "sample_logged 1 0 [?hello] ?s2" and wd = ?w1
        and p = "inner_at 2 (LoginSuccess ?acc ''x'')" and u = "''u''" and h = "[1]" and s = ?s3 and wd' = "world_authenticate 4 ''u'' ?w1", OF _ _ auth] L3
    by (simp add: inner_at_def world_new_def)
  have "snd (login_phase ''u'' sample_settings [Login_Next (Message ?hello) True]) = None"
    by (simp add: outgoing_def)
  with login_talk_step.client_hears [of "''u''" sample_settings "sample_logged 1 1 [?hello] ?s3" sample_mpsc ?yes "[]"]
  have 4: "sample_login_step (sample_logged 1 1 [?hello] ?s3, world_authenticate 4 ''u'' ?w1)
      (sample_logged 1 1 [?hello, ?yes] (?s3\<lparr>ls_outbox := ?ob []\<rparr>), world_authenticate 4 ''u'' ?w1)"
    by (simp add: lt_defs heard_one_def login_session_new_def sample_defs receive_one_def)
  have "sample_login_step\<^sup>*\<^sup>* (login_talk_start 4 greeted 0, ?w0)
      (sample_logged 1 1 [?hello, ?yes] (?s3\<lparr>ls_outbox := ?ob []\<rparr>), world_authenticate 4 ''u'' ?w1)"
    unfolding login_talk_start_def using 1 2 3 4 by (meson converse_rtranclp_into_rtranclp rtranclp.rtrancl_refl)
  moreover have "lt_result ''u'' sample_settings (sample_logged 1 1 [?hello, ?yes] (?s3\<lparr>ls_outbox := ?ob []\<rparr>)) =
      Some (Inr ''x'')"
    by (simp add: lt_defs outgoing_def)
  ultimately show ?thesis by blast
qed

theorem client_login_agrees_witness:
  "\<exists>(a :: (message_wrapper list \<times> bool) login_talk) (wd :: (nat, login_work) world).
    lt_result ''u'' sample_settings a = Some (Inr ''x'') \<and> ls_account (lt_session a) \<noteq> None \<and> length (spawned wd) \<le> 1"
proof -
  obtain a wd where run: "sample_login_step\<^sup>*\<^sup>* (login_talk_start 4 greeted 0, world_new registry_default) (a, wd)"
    and a: "lt_result ''u'' sample_settings a = Some (Inr ''x'')"
    using sample_login_talk by blast
  have "queued sample_mpsc greeted = [outgoing (ConnectedResponse 0)]" by (simp add: greeted_def sample_defs)
  from client_login_agrees [OF mpsc_laws_sample this run [folded login_talk_reachable_def]] a
  have "ls_account (lt_session a) \<noteq> None \<and> length (spawned wd) \<le> 1" by blast
  with a show ?thesis by blast
qed

end
