(* ===== verification/Client_Main.thy ===== *)
theory Client_Main
  imports Client
begin

text \<open>
  The program around the load-test clients: the loop of \<open>main\<close> that connects them
  (\<open>crates/dummy_client/src/main.rs\<close>) and the keyboard that moves the first one
  (\<open>crates/dummy_client/src/keyboard.rs\<close>). Sockets, the terminal and the shutdown signal are data.
\<close>

section \<open>Connecting the clients\<close>

definition CONNECT_BATCH_SIZE :: nat where
  "CONNECT_BATCH_SIZE = 1000"

definition CONNECT_BATCH_DELAY :: duration where
  "CONNECT_BATCH_DELAY = from_secs 1"

text \<open>What a turn of the loop meets, and what it does: spawn a client, with the keyboard or not, or sleep.\<close>

record connect_turn =
  ct_cancelled :: bool
  ct_stream :: bool

datatype connect_action = Spawn_Client nat bool | Sleep duration

text \<open>
  \<open>for i in 0..max_client_count\<close>: the list has what is left of the range, \<open>connected\<close> counts.
\<close>

fun connect_loop :: "bool \<Rightarrow> nat \<Rightarrow> (nat \<Rightarrow> connect_turn) \<Rightarrow> nat list \<Rightarrow> nat \<Rightarrow> connect_action list" where
  "connect_loop use_keyboard max_client_count turn [] connected = []"
| "connect_loop use_keyboard max_client_count turn (i # is) connected =
     (if ct_cancelled (turn i) then []
      else if \<not> ct_stream (turn i) then []
      else let moves = (i = 0 \<and> use_keyboard); connected' = connected + 1 in
        Spawn_Client (i + 1) moves #
        (if connected' mod CONNECT_BATCH_SIZE = 0 \<or> connected' = max_client_count
         then if connected' < max_client_count then [Sleep CONNECT_BATCH_DELAY] else [] else []) @
        connect_loop use_keyboard max_client_count turn is connected')"

definition connect_clients :: "bool \<Rightarrow> nat \<Rightarrow> (nat \<Rightarrow> connect_turn) \<Rightarrow> connect_action list" where
  "connect_clients use_keyboard max_client_count turn =
     connect_loop use_keyboard max_client_count turn [0..<max_client_count] 0"

definition turn_connects :: "connect_turn \<Rightarrow> bool" where
  "turn_connects c \<longleftrightarrow> \<not> ct_cancelled c \<and> ct_stream c"

text \<open>What client \<open>i\<close> contributes when it connects.\<close>

definition connect_actions :: "bool \<Rightarrow> nat \<Rightarrow> nat \<Rightarrow> connect_action list" where
  "connect_actions use_keyboard max_client_count i =
     Spawn_Client (i + 1) (i = 0 \<and> use_keyboard) #
     (if (i + 1) mod CONNECT_BATCH_SIZE = 0 \<and> i + 1 < max_client_count then [Sleep CONNECT_BATCH_DELAY] else [])"

lemma connect_loop_eq:
  assumes "i \<le> m"
  shows "connect_loop kb m turn [i..<m] i =
    concat (map (connect_actions kb m) (takeWhile (\<lambda>j. turn_connects (turn j)) [i..<m]))"
  using assms
proof (induction "m - i" arbitrary: i)
  case (Suc d)
  then have "[i..<m] = i # [Suc i..<m]" by (simp add: upt_rec)
  with Suc show ?case
    by (auto simp: turn_connects_def connect_actions_def Let_def)
qed simp

definition spawned_clients :: "connect_action list \<Rightarrow> (nat \<times> bool) list" where
  "spawned_clients acts = concat (map (\<lambda>a. case a of Spawn_Client i moves \<Rightarrow> [(i, moves)] | Sleep _ \<Rightarrow> []) acts)"

lemma spawned_clients_concat:
  "spawned_clients (concat (map (connect_actions kb m) is)) = map (\<lambda>i. (i + 1, i = 0 \<and> kb)) is"
  by (induction "is") (simp_all add: spawned_clients_def connect_actions_def)

lemma takeWhile_uptD:
  assumes eq: "takeWhile P [0..<m] = [0..<k]"
  shows "k \<le> m \<and> (\<forall>i<k. P i) \<and> (k < m \<longrightarrow> \<not> P k)"
proof -
  have k: "k = length (takeWhile P [0..<m])" using eq by simp
  have le: "k \<le> m" using length_takeWhile_le [of P "[0..<m]"] k by simp
  have "P i" if "i < k" for i
    using that eq set_takeWhileD [of i P "[0..<m]"] by simp
  moreover have "\<not> P k" if "k < m" using nth_length_takeWhile [of P "[0..<m]"] k that by simp
  ultimately show ?thesis using le by simp
qed

text \<open>
  The loop connects the accounts 1 to \<open>k\<close>, in order and each once, where \<open>k\<close> is the first turn
  that meets the shutdown or a failed connection, or the configured number; so no two of the clients
  log in as the same user, and only the first can have the keyboard. After every thousand but the
  last it sleeps.
\<close>

theorem connects_accounts_in_order:
  "\<exists>k \<le> max_client_count.
    spawned_clients (connect_clients use_keyboard max_client_count turn) =
      map (\<lambda>i. (i + 1, i = 0 \<and> use_keyboard)) [0..<k] \<and>
    (\<forall>i<k. \<not> ct_cancelled (turn i) \<and> ct_stream (turn i)) \<and>
    (k < max_client_count \<longrightarrow> ct_cancelled (turn k) \<or> \<not> ct_stream (turn k)) \<and>
    distinct (map (\<lambda>(i, _). client_user_id i)
      (spawned_clients (connect_clients use_keyboard max_client_count turn))) \<and>
    length (filter (\<lambda>a. a = Sleep CONNECT_BATCH_DELAY) (connect_clients use_keyboard max_client_count turn)) =
      min k (max_client_count - 1) div CONNECT_BATCH_SIZE"
proof -
  let ?P = "\<lambda>j. turn_connects (turn j)"
  define k where "k = length (takeWhile ?P [0..<max_client_count])"
  have taken: "takeWhile ?P [0..<max_client_count] = [0..<k]"
    unfolding k_def by (metis (no_types) takeWhile_eq_take length_takeWhile_le length_upt diff_zero min.absorb2 take_upt add_0)
  then have k: "k \<le> max_client_count" "\<forall>i<k. turn_connects (turn i)"
    "k < max_client_count \<longrightarrow> \<not> turn_connects (turn k)"
    using takeWhile_uptD [OF taken] by simp_all
  have acts: "connect_clients use_keyboard max_client_count turn =
      concat (map (connect_actions use_keyboard max_client_count) [0..<k])"
    by (simp only: connect_clients_def connect_loop_eq [OF le0] taken)
  have sleeps: "length (filter (\<lambda>a. a = Sleep CONNECT_BATCH_DELAY)
      (concat (map (connect_actions use_keyboard max_client_count) [0..<n]))) =
      min n (max_client_count - 1) div CONNECT_BATCH_SIZE" if "n \<le> max_client_count" for n
    using that
  proof (induction n)
    case (Suc n)
    then show ?case
      by (cases "Suc n < max_client_count")
        (auto simp: connect_actions_def div_Suc CONNECT_BATCH_SIZE_def min_def)
  qed simp
  have "distinct (map (\<lambda>i. client_user_id (i + 1)) [0..<k])"
    by (simp add: distinct_map inj_on_def client_user_id_inject)
  then show ?thesis
    using k sleeps [OF k(1)] unfolding acts spawned_clients_concat
    by (intro exI [of _ k]) (simp add: turn_connects_def comp_def)
qed

theorem connects_accounts_in_order_witness:
  "spawned_clients (connect_clients True 3 (\<lambda>i. \<lparr>ct_cancelled = False, ct_stream = i < 2\<rparr>)) = [(1, True), (2, False)]"
proof -
  let ?turn = "\<lambda>i. \<lparr>ct_cancelled = False, ct_stream = i < 2\<rparr>"
  obtain k where k: "k \<le> 3" "\<forall>i<k. ct_stream (?turn i)" "k < 3 \<longrightarrow> ct_cancelled (?turn k) \<or> \<not> ct_stream (?turn k)"
    and clients: "spawned_clients (connect_clients True 3 ?turn) = map (\<lambda>i. (i + 1, i = 0 \<and> True)) [0..<k]"
    using connects_accounts_in_order [of 3 True ?turn] by blast
  from k(2) have "k \<le> 2" by (cases "2 < k") auto
  with k have "k = 2" by auto
  with clients show ?thesis by (simp add: upt_rec)
qed

section \<open>The keyboard\<close>

text \<open>A character key beyond one byte is none of those asked for: \<open>Key_Other\<close>.\<close>

datatype key_code = Key_Char char | Key_Up | Key_Down | Key_Left | Key_Right | Key_Other

record key_event =
  ke_code :: key_code
  ke_press :: bool
  ke_control :: bool

text \<open>The bits of \<open>1.0\<close> and \<open>-1.0\<close>.\<close>

definition F32_ONE :: f32 where
  "F32_ONE = 0x3F800000"

definition F32_MINUS_ONE :: f32 where
  "F32_MINUS_ONE = 0xBF800000"

datatype key_action = Delta f32 f32 | Quit | Skip

definition key_action_of :: "key_event \<Rightarrow> key_action" where
  "key_action_of key =
     (case ke_code key of
        Key_Up \<Rightarrow> Delta 0 F32_MINUS_ONE
      | Key_Down \<Rightarrow> Delta 0 F32_ONE
      | Key_Left \<Rightarrow> Delta F32_MINUS_ONE 0
      | Key_Right \<Rightarrow> Delta F32_ONE 0
      | Key_Other \<Rightarrow> Skip
      | Key_Char c \<Rightarrow>
          if c \<in> {CHR ''w'', CHR ''W''} then Delta 0 F32_MINUS_ONE
          else if c \<in> {CHR ''s'', CHR ''S''} then Delta 0 F32_ONE
          else if c \<in> {CHR ''a'', CHR ''A''} then Delta F32_MINUS_ONE 0
          else if c \<in> {CHR ''d'', CHR ''D''} then Delta F32_ONE 0
          else if c \<in> {CHR ''q'', CHR ''Q''} then Quit
          else if c = CHR ''c'' \<and> ke_control key then Quit
          else Skip)"

text \<open>
  What a turn of the thread's loop meets: whether the shutdown token is cancelled, what \<open>poll\<close> answers
  (\<open>None\<close> is an error), the key event if \<open>read\<close> gives one, and whether the player's channel takes the
  move. The loop returns the moves it handed on and why it ended, if it did.
\<close>

record key_turn =
  kt_cancelled :: bool
  kt_poll :: "bool option"
  kt_event :: "key_event option"
  kt_sent :: bool

datatype keyboard_end = Shut_Down | Poll_Failed | Quit_Pressed | Player_Gone

fun keyboard_loop :: "key_turn list \<Rightarrow> (f32 \<times> f32) list \<times> keyboard_end option" where
  "keyboard_loop [] = ([], None)"
| "keyboard_loop (t # ts) =
     (if kt_cancelled t then ([], Some Shut_Down)
      else case kt_poll t of
        Some False \<Rightarrow> keyboard_loop ts
      | None \<Rightarrow> ([], Some Poll_Failed)
      | Some True \<Rightarrow>
          (case kt_event t of
             None \<Rightarrow> keyboard_loop ts
           | Some key \<Rightarrow>
               if \<not> ke_press key then keyboard_loop ts
               else (case key_action_of key of
                   Quit \<Rightarrow> ([], Some Quit_Pressed)
                 | Skip \<Rightarrow> keyboard_loop ts
                 | Delta dx dy \<Rightarrow>
                     if kt_sent t then (case keyboard_loop ts of (ds, e) \<Rightarrow> ((dx, dy) # ds, e))
                     else ([], Some Player_Gone))))"

text \<open>The reference: each turn by itself.\<close>

definition turn_action :: "key_turn \<Rightarrow> key_action" where
  "turn_action t =
     (case (kt_poll t, kt_event t) of
        (Some True, Some key) \<Rightarrow> if ke_press key then key_action_of key else Skip
      | _ \<Rightarrow> Skip)"

definition turn_end :: "key_turn \<Rightarrow> keyboard_end option" where
  "turn_end t =
     (if kt_cancelled t then Some Shut_Down
      else if kt_poll t = None then Some Poll_Failed
      else case turn_action t of
        Quit \<Rightarrow> Some Quit_Pressed
      | Delta _ _ \<Rightarrow> if kt_sent t then None else Some Player_Gone
      | Skip \<Rightarrow> None)"

definition turn_moves :: "key_turn \<Rightarrow> (f32 \<times> f32) list" where
  "turn_moves t = (case turn_action t of Delta dx dy \<Rightarrow> [(dx, dy)] | _ \<Rightarrow> [])"

text \<open>The moves are those of the keys pressed before the first turn that ends the thread.\<close>

lemma keyboard_loop_eq:
  "keyboard_loop ts =
    (concat (map turn_moves (takeWhile (\<lambda>t. turn_end t = None) ts)),
     Option.bind (find (\<lambda>t. turn_end t \<noteq> None) ts) turn_end)"
proof (induction ts)
  case (Cons t ts)
  then show ?case
    by (cases "kt_poll t"; cases "kt_event t")
      (auto simp: turn_end_def turn_moves_def turn_action_def split: key_action.split bool.split)
qed simp

section \<open>Lines on a raw terminal\<close>

text \<open>\<open>buf.split_inclusive(|&b| b == b'\n')\<close> and \<open>strip_suffix(b"\n")\<close>.\<close>

fun split_inclusive :: "bytes \<Rightarrow> bytes list" where
  "split_inclusive [] = []"
| "split_inclusive (b # bs) =
     (if b = 10 then [b] # split_inclusive bs
      else case split_inclusive bs of [] \<Rightarrow> [[b]] | chunk # chunks \<Rightarrow> (b # chunk) # chunks)"

definition strip_newline :: "bytes \<Rightarrow> bytes option" where
  "strip_newline chunk = (if chunk \<noteq> [] \<and> last chunk = 10 then Some (butlast chunk) else None)"

text \<open>
  \<open>out\<close> is \<open>write_all\<close> of the locked standard output, over its state: whether it worked, and the state.
\<close>

fun crlf_chunks :: "(bytes \<Rightarrow> 'o \<Rightarrow> bool \<times> 'o) \<Rightarrow> bytes list \<Rightarrow> 'o \<Rightarrow> bool \<times> 'o" where
  "crlf_chunks out [] s = (True, s)"
| "crlf_chunks out (chunk # chunks) s =
     (case strip_newline chunk of
        Some line \<Rightarrow>
          (case out line s of
             (False, s1) \<Rightarrow> (False, s1)
           | (True, s1) \<Rightarrow>
               (case out [13, 10] s1 of
                  (False, s2) \<Rightarrow> (False, s2)
                | (True, s2) \<Rightarrow> crlf_chunks out chunks s2))
      | None \<Rightarrow>
          (case out chunk s of
             (False, s1) \<Rightarrow> (False, s1)
           | (True, s1) \<Rightarrow> crlf_chunks out chunks s1))"

definition crlf_write :: "(bytes \<Rightarrow> 'o \<Rightarrow> bool \<times> 'o) \<Rightarrow> bytes \<Rightarrow> 'o \<Rightarrow> nat option \<times> 'o" where
  "crlf_write out buf s =
     (case crlf_chunks out (split_inclusive buf) s of
        (True, s') \<Rightarrow> (Some (length buf), s')
      | (False, s') \<Rightarrow> (None, s'))"

text \<open>
  With the bytes that got out as the state: the output is what replaces every newline byte, or on an
  error a prefix of it.
\<close>

definition crlf :: "bytes \<Rightarrow> bytes" where
  "crlf buf = concat (map (\<lambda>b. if b = 10 then [13, 10] else [b]) buf)"

lemma crlf_simps [simp]: "crlf [] = []" "crlf (b # bs) = (if b = 10 then [13, 10] else [b]) @ crlf bs"
  "crlf (xs @ ys) = crlf xs @ crlf ys"
  by (simp_all add: crlf_def)

lemma crlf_plain: "10 \<notin> set xs \<Longrightarrow> crlf xs = xs"
  by (induction xs) auto

lemma split_inclusive_chunks:
  "concat (split_inclusive buf) = buf \<and>
   (\<forall>chunk\<in>set (split_inclusive buf). chunk \<noteq> [] \<and> 10 \<notin> set (butlast chunk))"
proof (induction buf rule: split_inclusive.induct)
  case (2 b bs)
  then show ?case by (cases "split_inclusive bs") auto
qed simp

lemma crlf_chunk:
  assumes "chunk \<noteq> []" "10 \<notin> set (butlast chunk)"
  shows "crlf chunk = (case strip_newline chunk of Some line \<Rightarrow> line @ [13, 10] | None \<Rightarrow> chunk)"
proof -
  have "crlf chunk = crlf (butlast chunk) @ crlf [last chunk]"
    using assms(1) by (simp del: crlf_simps(2) flip: crlf_simps(3))
  then show ?thesis
    using assms by (simp add: crlf_plain strip_newline_def)
qed

lemma crlf_chunks_writes:
  assumes "\<And>b s ok s'. out b s = (ok, s') \<Longrightarrow> \<exists>n \<le> length b. s' = s @ take n b \<and> (ok \<longrightarrow> n = length b)"
    and "\<forall>chunk\<in>set chunks. chunk \<noteq> [] \<and> 10 \<notin> set (butlast chunk)"
    and "crlf_chunks out chunks s = (ok, s')"
  shows "\<exists>n \<le> length (crlf (concat chunks)). s' = s @ take n (crlf (concat chunks)) \<and>
    (ok \<longrightarrow> n = length (crlf (concat chunks)))"
  using assms(2,3)
proof (induction chunks arbitrary: s)
  case (Cons chunk chunks)
  have step: "\<exists>n \<le> length (crlf (concat (chunk # chunks))). s' = s @ take n (crlf (concat (chunk # chunks))) \<and>
      (ok \<longrightarrow> n = length (crlf (concat (chunk # chunks))))"
    if "s1 = s @ crlf chunk" "crlf_chunks out chunks s1 = (ok, s')" for s1
  proof -
    from Cons.IH [of s1] Cons.prems(1) that obtain n where "n \<le> length (crlf (concat chunks))"
      "s' = s1 @ take n (crlf (concat chunks))" "ok \<longrightarrow> n = length (crlf (concat chunks))" by auto
    then show ?thesis using that(1) by (intro exI [of _ "length (crlf chunk) + n"]) simp
  qed
  have stop: "\<exists>n \<le> length (crlf (concat (chunk # chunks))). s' = s @ take n (crlf (concat (chunk # chunks))) \<and>
      (ok \<longrightarrow> n = length (crlf (concat (chunk # chunks))))"
    if "s' = s @ xs @ take n ys" "crlf chunk = xs @ ys @ zs" "n \<le> length ys" "\<not> ok" for xs ys zs n
    using that by (intro exI [of _ "length xs + n"]) simp
  have chunk: "crlf chunk = (case strip_newline chunk of Some line \<Rightarrow> line @ [13, 10] | None \<Rightarrow> chunk)"
    using Cons.prems(1) by (intro crlf_chunk) simp_all
  show ?case
  proof (cases "strip_newline chunk")
    case None
    obtain ok1 s1 where o1: "out chunk s = (ok1, s1)" by (rule prod.exhaust)
    from assms(1) [OF o1] obtain n where n: "n \<le> length chunk" "s1 = s @ take n chunk" "ok1 \<longrightarrow> n = length chunk" by blast
    show ?thesis
      using Cons.prems(2) None o1 n chunk step stop [of "[]" n chunk "[]"] by (cases ok1) simp_all
  next
    case (Some line)
    obtain ok1 s1 where o1: "out line s = (ok1, s1)" by (rule prod.exhaust)
    obtain ok2 s2 where o2: "out [13, 10] s1 = (ok2, s2)" by (rule prod.exhaust)
    from assms(1) [OF o1] obtain n where n: "n \<le> length line" "s1 = s @ take n line" "ok1 \<longrightarrow> n = length line" by blast
    from assms(1) [OF o2] obtain k where k: "k \<le> length [13, 10 :: u8]" "s2 = s1 @ take k [13, 10]"
      "ok2 \<longrightarrow> k = length [13, 10 :: u8]" by blast
    show ?thesis
      using Cons.prems(2) Some o1 o2 n k chunk step [of s2] stop [of "[]" n line "[13, 10]"] stop [of line k "[13, 10]" "[]"]
      by (cases ok1; cases ok2) simp_all
  qed
qed simp

lemma crlf_write_replaces_newlines:
  assumes "\<And>b s ok s'. out b s = (ok, s') \<Longrightarrow> \<exists>n \<le> length b. s' = s @ take n b \<and> (ok \<longrightarrow> n = length b)"
    and "crlf_write out buf s = (r, s')"
  shows "\<exists>n. s' = s @ take n (crlf buf) \<and> (\<forall>k. r = Some k \<longrightarrow> k = length buf \<and> s' = s @ crlf buf)"
proof -
  obtain ok where run: "crlf_chunks out (split_inclusive buf) s = (ok, s')" "r = (if ok then Some (length buf) else None)"
    using assms(2) by (auto simp: crlf_write_def split: prod.splits bool.splits)
  from crlf_chunks_writes [OF assms(1) _ run(1)] split_inclusive_chunks [of buf] run(2) show ?thesis by auto
qed

end
