(* ===== verification/Seeder.thy ===== *)
theory Seeder
  imports Client Password
begin

text \<open>
  Creating the test accounts (\<open>crates/dummy_client/src/seeder.rs\<close>): in batches, each hashed by worker
  threads, then inserted row by row.
\<close>

section \<open>Counting in steps\<close>

definition div_ceil :: "nat \<Rightarrow> nat \<Rightarrow> nat" where
  "div_ceil a b = (a + b - 1) div b"

text \<open>\<open>(lo..hi).step_by(k)\<close>\<close>

definition step_by :: "nat \<Rightarrow> nat \<Rightarrow> nat \<Rightarrow> nat list" where
  "step_by lo hi k = map (\<lambda>i. lo + i * k) [0..<div_ceil (hi - lo) k]"

lemma div_ceil_step:
  assumes "0 < a" and "0 < k"
  shows "div_ceil a k = Suc (div_ceil (a - k) k)"
proof -
  have "a + k - 1 = a - 1 + k" using assms(1) by simp
  then have "div_ceil a k = Suc ((a - 1) div k)" using assms(2) by (simp only: div_ceil_def div_add_self2)
  moreover have "div_ceil (a - k) k = (a - 1) div k"
  proof (cases "k \<le> a")
    case True
    then have "a - k + k - 1 = a - 1" by simp
    then show ?thesis by (simp only: div_ceil_def)
  next
    case False
    then have "a - k = 0" "a - 1 < k" by simp_all
    with assms(2) show ?thesis by (simp only: div_ceil_def) simp
  qed
  ultimately show ?thesis by (simp only:)
qed

text \<open>The iterator, a step at a time; and the steps cut the range into consecutive pieces.\<close>

lemma step_by_step:
  assumes "0 < k"
  shows "step_by lo hi k = (if lo < hi then lo # step_by (lo + k) hi k else [])"
proof (cases "lo < hi")
  case True
  then have "div_ceil (hi - lo) k = Suc (div_ceil (hi - (lo + k)) k)"
    using div_ceil_step [of "hi - lo" k] assms by simp
  with True show ?thesis
    unfolding step_by_def by (simp add: upt_conv_Cons map_Suc_upt [symmetric] add.assoc del: upt_Suc)
next
  case False
  with assms show ?thesis by (simp add: step_by_def div_ceil_def)
qed

lemma map_upt_piece: "map (\<lambda>j. f (s + j)) [0..<n] = map f [s..<s + n]"
  by (rule nth_equalityI) simp_all

lemma map_pieces:
  assumes "0 < k"
  shows "concat (map (\<lambda>s. map (\<lambda>j. f (s + j)) [0..<min k (hi - s)]) (step_by lo hi k)) = map f [lo..<hi]"
proof (induction "hi - lo" arbitrary: lo rule: less_induct)
  case less
  show ?case
  proof (cases "lo < hi")
    case True
    with assms less [of "lo + k"]
    have "concat (map (\<lambda>s. map (\<lambda>j. f (s + j)) [0..<min k (hi - s)]) (step_by (lo + k) hi k)) = map f [lo + k..<hi]"
      by simp
    moreover have "[lo..<lo + min k (hi - lo)] @ [lo + k..<hi] = [lo..<hi]"
      using True upt_add_eq_append [of lo "lo + k" "hi - (lo + k)"] by (cases "lo + k \<le> hi") (simp_all add: min_def)
    ultimately show ?thesis
      using True by (simp add: step_by_step [OF assms, of lo] map_upt_piece flip: map_append)
  qed (simp add: step_by_step [OF assms, of lo])
qed

section \<open>Hashing\<close>

text \<open>\<open>salts j\<close> is the random salt of the \<open>j\<close>-th call; \<open>threads\<close> is the available parallelism.\<close>

definition generate_hashes :: "crypto \<Rightarrow> nat \<Rightarrow> (nat \<Rightarrow> bytes) \<Rightarrow> bytes \<Rightarrow> nat \<Rightarrow> (string \<times> string) list" where
  "generate_hashes cr threads salts h n =
     (let chunk = max (div_ceil n threads) 1
      in concat (map (\<lambda>start. let len = min chunk (n - start)
           in map (\<lambda>j. generate_stored_hash cr (salts (start + j)) h) [0..<len])
         (step_by 0 n chunk)))"

lemma generate_hashes_eq:
  "generate_hashes cr threads salts h n = map (\<lambda>j. generate_stored_hash cr (salts j) h) [0..<n]"
  using map_pieces [of "max (div_ceil n threads) 1" "\<lambda>j. generate_stored_hash cr (salts j) h" n 0]
  by (simp add: generate_hashes_def Let_def)

section \<open>Seeding\<close>

datatype seed_error = SeedSqlError | SeedJoinError

text \<open>The two statements, over the state \<open>'d\<close> of the database; the second returns \<open>rows_affected\<close>.\<close>

record 'd seed_mysql =
  sm_create_accounts :: "'d \<Rightarrow> (seed_error + unit) \<times> 'd"
  sm_insert_ignore :: "string \<Rightarrow> string \<Rightarrow> string \<Rightarrow> 'd \<Rightarrow> (seed_error + u64) \<times> 'd"

definition SEED_BATCH_SIZE :: nat where
  "SEED_BATCH_SIZE = 1000"

text \<open>The inner loop over the rows of a batch, from the account \<open>i\<close> on.\<close>

fun insert_rows :: "'d seed_mysql \<Rightarrow> nat \<Rightarrow> (string \<times> string) list \<Rightarrow> u64 \<Rightarrow> 'd \<Rightarrow> (seed_error + u64) \<times> 'd" where
  "insert_rows db i [] inserted d = (Inr inserted, d)"
| "insert_rows db i ((hash, salt) # rows) inserted d =
     (case sm_insert_ignore db (client_user_id i) hash salt d of
        (Inl e, d') \<Rightarrow> (Inl e, d')
      | (Inr n, d') \<Rightarrow> insert_rows db (Suc i) rows (inserted + n) d')"

text \<open>The outer loop; \<open>joined\<close> says whether the blocking task of a batch ran to its end.\<close>

fun seed_batches :: "crypto \<Rightarrow> 'd seed_mysql \<Rightarrow> nat \<Rightarrow> (nat \<Rightarrow> bytes) \<Rightarrow> (nat \<Rightarrow> bool) \<Rightarrow> bytes \<Rightarrow> nat \<Rightarrow>
    nat list \<Rightarrow> u64 \<Rightarrow> 'd \<Rightarrow> (seed_error + u64) \<times> 'd" where
  "seed_batches cr db threads salts joined h account_count [] inserted d = (Inr inserted, d)"
| "seed_batches cr db threads salts joined h account_count (batch_start # starts) inserted d =
     (let batch_len = min SEED_BATCH_SIZE (account_count + 1 - batch_start) in
      if \<not> joined batch_start then (Inl SeedJoinError, d)
      else (case insert_rows db batch_start
          (generate_hashes cr threads (\<lambda>j. salts (batch_start + j)) h batch_len) inserted d of
          (Inl e, d') \<Rightarrow> (Inl e, d')
        | (Inr inserted', d') \<Rightarrow> seed_batches cr db threads salts joined h account_count starts inserted' d'))"

text \<open>The number of inserted accounts is only logged; here it is the result.\<close>

definition seed :: "crypto \<Rightarrow> 'd seed_mysql \<Rightarrow> nat \<Rightarrow> (nat \<Rightarrow> bytes) \<Rightarrow> (nat \<Rightarrow> bool) \<Rightarrow> bytes \<Rightarrow> nat \<Rightarrow>
    'd \<Rightarrow> (seed_error + u64) \<times> 'd" where
  "seed cr db threads salts joined password account_count d =
     (case sm_create_accounts db d of
        (Inl e, d') \<Rightarrow> (Inl e, d')
      | (Inr _, d') \<Rightarrow>
          seed_batches cr db threads salts joined (client_hash cr password) account_count
            (step_by 1 (account_count + 1) SEED_BATCH_SIZE) 0 d')"

section \<open>What the accounts are afterwards\<close>

text \<open>
  The documented behaviour of the two statements, by what \<open>accounts d\<close> tells of a user id, for the
  user ids of the test accounts: creating the table if it does not exist keeps its rows; an insert
  of values that fit their columns adds the row and counts it unless the user id is taken, and one
  that fails has either had this effect or none.
\<close>

definition fits_columns :: "string \<times> string \<Rightarrow> bool" where
  "fits_columns row \<longleftrightarrow> length (fst row) \<le> 88 \<and> length (snd row) \<le> 88"

definition complete :: "'a option \<Rightarrow> 'a \<Rightarrow> 'a option" where
  "complete old row = (case old of None \<Rightarrow> Some row | Some _ \<Rightarrow> old)"

definition seed_laws :: "'d seed_mysql \<Rightarrow> ('d \<Rightarrow> string \<Rightarrow> (string \<times> string) option) \<Rightarrow> bool" where
  "seed_laws db accounts \<longleftrightarrow>
     (\<forall>d j. accounts (snd (sm_create_accounts db d)) (client_user_id j) = accounts d (client_user_id j)) \<and>
     (\<forall>d i hash salt. fits_columns (hash, salt) \<longrightarrow>
        (case sm_insert_ignore db (client_user_id i) hash salt d of
           (Inr n, d') \<Rightarrow> n = (if accounts d (client_user_id i) = None then 1 else 0) \<and>
             (\<forall>j. accounts d' (client_user_id j) =
               (if j = i then complete (accounts d (client_user_id j)) (hash, salt) else accounts d (client_user_id j)))
         | (Inl _, d') \<Rightarrow>
             (\<forall>j. accounts d' (client_user_id j) = accounts d (client_user_id j)) \<or>
             (\<forall>j. accounts d' (client_user_id j) =
               (if j = i then complete (accounts d (client_user_id j)) (hash, salt) else accounts d (client_user_id j)))))"

text \<open>The accounts \<open>lo..<m\<close> have been completed, the others are as they were.\<close>

definition seeded :: "('d \<Rightarrow> string \<Rightarrow> (string \<times> string) option) \<Rightarrow> (nat \<Rightarrow> string \<times> string) \<Rightarrow> nat \<Rightarrow> nat \<Rightarrow>
    'd \<Rightarrow> 'd \<Rightarrow> bool" where
  "seeded accounts row lo m d d' \<longleftrightarrow>
     (\<forall>j. accounts d' (client_user_id j) =
       (if lo \<le> j \<and> j < m then complete (accounts d (client_user_id j)) (row j) else accounts d (client_user_id j)))"

definition missing :: "('d \<Rightarrow> string \<Rightarrow> (string \<times> string) option) \<Rightarrow> nat \<Rightarrow> nat \<Rightarrow> 'd \<Rightarrow> nat" where
  "missing accounts lo m d = length (filter (\<lambda>j. accounts d (client_user_id j) = None) [lo..<m])"

lemma seeded_none [intro]: "m \<le> lo \<Longrightarrow> seeded accounts row lo m d d"
  by (auto simp: seeded_def)

lemma seeded_trans:
  assumes "seeded accounts row lo m d d'" "seeded accounts row m k d' d''" "lo \<le> m" "m \<le> k"
  shows "seeded accounts row lo k d d''"
  using assms by (auto simp: seeded_def)

lemma missing_split:
  assumes "lo \<le> m" "m \<le> k"
  shows "missing accounts lo k d = missing accounts lo m d + missing accounts m k d"
  using upt_add_eq_append [of lo m "k - m"] assms by (simp add: missing_def)

lemma missing_seeded:
  assumes "seeded accounts row lo m d d'"
  shows "missing accounts m k d' = missing accounts m k d"
proof -
  have "filter (\<lambda>j. accounts d' (client_user_id j) = None) [m..<k] =
      filter (\<lambda>j. accounts d (client_user_id j) = None) [m..<k]"
    using assms by (intro filter_cong) (auto simp: seeded_def)
  then show ?thesis by (simp add: missing_def)
qed

text \<open>One insert, and then the rows of a batch.\<close>

lemma insert_seeded:
  assumes "seed_laws db accounts" "fits_columns (row i)"
    "sm_insert_ignore db (client_user_id i) (fst (row i)) (snd (row i)) d = (r, d')"
  shows "(\<exists>e. r = Inl e \<and> (seeded accounts row i i d d' \<or> seeded accounts row i (Suc i) d d')) \<or>
    (r = Inr (of_nat (missing accounts i (Suc i) d)) \<and> seeded accounts row i (Suc i) d d')"
proof -
  have one: "(\<forall>j. accounts d' (client_user_id j) = (if j = i then complete (accounts d (client_user_id j)) (row i)
      else accounts d (client_user_id j))) \<longleftrightarrow> seeded accounts row i (Suc i) d d'"
    unfolding seeded_def by (auto simp: less_Suc_eq)
  have none: "(\<forall>j. accounts d' (client_user_id j) = accounts d (client_user_id j)) \<longleftrightarrow> seeded accounts row i i d d'"
    unfolding seeded_def by auto
  have law: "case (r, d') of
      (Inr n, d') \<Rightarrow> n = (if accounts d (client_user_id i) = None then 1 else 0) \<and>
        (\<forall>j. accounts d' (client_user_id j) =
          (if j = i then complete (accounts d (client_user_id j)) (row i) else accounts d (client_user_id j)))
    | (Inl _, d') \<Rightarrow>
        (\<forall>j. accounts d' (client_user_id j) = accounts d (client_user_id j)) \<or>
        (\<forall>j. accounts d' (client_user_id j) =
          (if j = i then complete (accounts d (client_user_id j)) (row i) else accounts d (client_user_id j)))"
  proof -
    obtain hash salt where row: "row i = (hash, salt)" by force
    with assms have ins: "sm_insert_ignore db (client_user_id i) hash salt d = (r, d')"
      and fits: "fits_columns (hash, salt)" by simp_all
    show ?thesis
      using assms(1) [unfolded seed_laws_def, THEN conjunct2, THEN spec [of _ d], THEN spec [of _ i],
          THEN spec [of _ hash], THEN spec [of _ salt], THEN mp, OF fits]
      unfolding ins row .
  qed
  show ?thesis
  proof (cases r)
    case (Inl e)
    then show ?thesis using law [unfolded Inl prod.case sum.case none one] by blast
  next
    case (Inr n)
    note inserted = law [unfolded Inr prod.case sum.case one]
    have "n = of_nat (missing accounts i (Suc i) d)"
      unfolding inserted [THEN conjunct1] by (simp add: missing_def)
    moreover note inserted [THEN conjunct2]
    ultimately show ?thesis using Inr by simp
  qed
qed

text \<open>
  What a stretch of the seeding from account \<open>lo\<close> to before \<open>hi\<close> achieves: all of it, counted, or an
  error after a part of it.
\<close>

definition seeding :: "('d \<Rightarrow> string \<Rightarrow> (string \<times> string) option) \<Rightarrow> (nat \<Rightarrow> string \<times> string) \<Rightarrow> nat \<Rightarrow> nat \<Rightarrow>
    u64 \<Rightarrow> 'd \<Rightarrow> (seed_error + u64) \<times> 'd \<Rightarrow> bool" where
  "seeding accounts row lo hi k d result \<longleftrightarrow>
     (case result of
        (Inr k', d') \<Rightarrow> seeded accounts row lo hi d d' \<and> k' = k + of_nat (missing accounts lo hi d)
      | (Inl _, d') \<Rightarrow> \<exists>m. lo \<le> m \<and> m \<le> hi \<and> seeded accounts row lo m d d')"

lemma seeding_done: "seeding accounts row lo lo k d (Inr k, d)"
  by (auto simp: seeding_def missing_def)

lemma seeding_then:
  assumes first: "seeded accounts row lo m d d'" and "lo \<le> m" "m \<le> hi"
    and rest: "seeding accounts row m hi (k + of_nat (missing accounts lo m d)) d' result"
  shows "seeding accounts row lo hi k d result"
proof (cases result)
  case (Pair r d'')
  show ?thesis
  proof (cases r)
    case (Inl e)
    with rest Pair obtain l where "m \<le> l" "l \<le> hi" "seeded accounts row m l d' d''" by (auto simp: seeding_def)
    moreover from this have "seeded accounts row lo l d d''" using seeded_trans [OF first] assms(2) by blast
    moreover have "lo \<le> l" using assms(2) \<open>m \<le> l\<close> by simp
    ultimately show ?thesis using Pair Inl by (auto simp: seeding_def)
  next
    case (Inr k')
    with rest Pair have "seeded accounts row m hi d' d''"
      "k' = k + of_nat (missing accounts lo m d) + of_nat (missing accounts m hi d')" by (simp_all add: seeding_def)
    then show ?thesis
      using Pair Inr seeded_trans [OF first _ assms(2,3)]
      by (simp add: seeding_def add.assoc missing_split [OF assms(2,3), of accounts d] missing_seeded [OF first])
  qed
qed

lemma insert_rows_Cons:
  "insert_rows db i (row # rows) k d =
    (case sm_insert_ignore db (client_user_id i) (fst row) (snd row) d of
       (Inl e, d') \<Rightarrow> (Inl e, d') | (Inr n, d') \<Rightarrow> insert_rows db (Suc i) rows (k + n) d')"
  by (cases row) simp

lemma insert_rows_seeding:
  assumes laws: "seed_laws db accounts" and fits: "\<And>j. fits_columns (row j)"
  shows "seeding accounts row lo (lo + n) k d (insert_rows db lo (map row [lo..<lo + n]) k d)"
proof (induction n arbitrary: lo k d)
  case 0
  then show ?case by (simp add: seeding_done)
next
  case (Suc n)
  obtain r d' where ins: "sm_insert_ignore db (client_user_id lo) (fst (row lo)) (snd (row lo)) d = (r, d')" by force
  have "map row [lo..<lo + Suc n] = row lo # map row [Suc lo..<Suc lo + n]"
    by (simp add: upt_conv_Cons del: upt_Suc)
  then have run: "insert_rows db lo (map row [lo..<lo + Suc n]) k d =
      (case r of Inl e \<Rightarrow> (Inl e, d')
       | Inr w \<Rightarrow> insert_rows db (Suc lo) (map row [Suc lo..<Suc lo + n]) (k + w) d')"
    by (simp only: insert_rows_Cons ins prod.case)
  show ?case
  proof (cases r)
    case (Inl e)
    then have "seeded accounts row lo lo d d' \<or> seeded accounts row lo (Suc lo) d d'"
      using insert_seeded [where row = row and i = lo, OF laws fits ins] by auto
    moreover have "lo \<le> lo + Suc n" "Suc lo \<le> lo + Suc n" "lo \<le> Suc lo" by simp_all
    ultimately show ?thesis
      unfolding run Inl sum.case seeding_def prod.case by blast
  next
    case (Inr w)
    then have w: "w = of_nat (missing accounts lo (Suc lo) d)" and first: "seeded accounts row lo (Suc lo) d d'"
      using insert_seeded [where row = row and i = lo, OF laws fits ins] by auto
    show ?thesis
      unfolding run Inr sum.case w
      by (rule seeding_then [OF first]) (use Suc.IH [of "Suc lo"] in \<open>simp_all del: upt_Suc\<close>)
  qed
qed

text \<open>The batches: one account after the other, unless the hashing of a batch fails.\<close>

definition seed_row :: "crypto \<Rightarrow> (nat \<Rightarrow> bytes) \<Rightarrow> bytes \<Rightarrow> nat \<Rightarrow> string \<times> string" where
  "seed_row cr salts h i = generate_stored_hash cr (salts i) h"

lemma batch_rows:
  "generate_hashes cr threads (\<lambda>j. salts (s + j)) h n = map (seed_row cr salts h) [s..<s + n]"
  using map_upt_piece [of "seed_row cr salts h" s n] by (simp add: generate_hashes_eq seed_row_def)

lemma seed_batches_seeding:
  assumes laws: "seed_laws db accounts" and fits: "\<And>j. fits_columns (seed_row cr salts h j)"
  shows "lo \<le> n + 1 \<Longrightarrow> seeding accounts (seed_row cr salts h) lo (n + 1) k d
    (seed_batches cr db threads salts joined h n (step_by lo (n + 1) SEED_BATCH_SIZE) k d)"
proof (induction "n + 1 - lo" arbitrary: lo k d rule: less_induct)
  case less
  have pos: "0 < SEED_BATCH_SIZE" by (simp add: SEED_BATCH_SIZE_def)
  define len where "len = min SEED_BATCH_SIZE (n + 1 - lo)"
  define rest where "rest = step_by (lo + SEED_BATCH_SIZE) (n + 1) SEED_BATCH_SIZE"
  consider "lo = n + 1" | "lo < n + 1" "\<not> joined lo" | "lo < n + 1" "joined lo" using less.prems by linarith
  then show ?case
  proof cases
    case 1
    then show ?thesis by (simp add: step_by_step [OF pos] seeding_done)
  next
    case 2
    then show ?thesis
      by (auto simp: step_by_step [OF pos, of lo] Let_def seeding_def)
  next
    case 3
    obtain r d' where ins: "insert_rows db lo (map (seed_row cr salts h) [lo..<lo + len]) k d = (r, d')" by force
    have run: "seed_batches cr db threads salts joined h n (step_by lo (n + 1) SEED_BATCH_SIZE) k d =
        (case r of Inl e \<Rightarrow> (Inl e, d') | Inr k' \<Rightarrow> seed_batches cr db threads salts joined h n rest k' d')"
      using 3 by (simp only: step_by_step [OF pos, of lo] seed_batches.simps Let_def batch_rows ins prod.case rest_def
          len_def [symmetric] if_True if_False not_True_eq_False)
    have first: "seeding accounts (seed_row cr salts h) lo (lo + len) k d (r, d')"
      using insert_rows_seeding [where row = "seed_row cr salts h" and lo = lo and n = len and k = k and d = d, OF laws fits] unfolding ins .
    have len: "lo + len \<le> n + 1" using 3 by (simp add: len_def)
    show ?thesis
    proof (cases r)
      case (Inl e)
      with first obtain m where "lo \<le> m" "m \<le> lo + len" "seeded accounts (seed_row cr salts h) lo m d d'"
        by (auto simp: seeding_def)
      then show ?thesis using len unfolding run Inl seeding_def by (auto intro: order_trans)
    next
      case (Inr k')
      with first have batch: "seeded accounts (seed_row cr salts h) lo (lo + len) d d'"
        and k': "k' = k + of_nat (missing accounts lo (lo + len) d)" by (simp_all add: seeding_def)
      have "seeding accounts (seed_row cr salts h) (lo + len) (n + 1) k' d'
          (seed_batches cr db threads salts joined h n rest k' d')"
      proof (cases "lo + SEED_BATCH_SIZE \<le> n + 1")
        case True
        then have "len = SEED_BATCH_SIZE" by (simp add: len_def)
        then show ?thesis unfolding rest_def using less.hyps [of "lo + SEED_BATCH_SIZE"] pos True 3 by simp
      next
        case False
        then have "rest = []" "lo + len = n + 1" using 3 by (auto simp: rest_def step_by_step [OF pos] len_def)
        then show ?thesis by (simp add: seeding_done)
      qed
      then show ?thesis unfolding run Inr sum.case k' by (intro seeding_then [OF batch]) (use len in simp_all)
    qed
  qed
qed

lemma seed_result:
  assumes "seed_laws db accounts"
    and "\<And>j. fits_columns (generate_stored_hash cr (salts j) (client_hash cr password))"
    and "seed cr db threads salts joined password n d = (r, d')"
  shows "\<exists>m \<le> n. seeded accounts (seed_row cr salts (client_hash cr password)) 1 (m + 1) d d' \<and>
    (\<forall>k. r = Inr k \<longrightarrow> m = n \<and> k = of_nat (missing accounts 1 (n + 1) d))"
proof -
  let ?row = "seed_row cr salts (client_hash cr password)"
  obtain c d0 where create: "sm_create_accounts db d = (c, d0)" by force
  have d0: "accounts d0 (client_user_id j) = accounts d (client_user_id j)" for j
    using assms(1) [unfolded seed_laws_def, THEN conjunct1, THEN spec, THEN spec, of d j] unfolding create snd_conv .
  then have same: "seeded accounts ?row 1 m d0 d' = seeded accounts ?row 1 m d d'"
    "missing accounts 1 m d0 = missing accounts 1 m d" for m by (simp_all add: seeded_def missing_def)
  have "seeding accounts ?row 1 (n + 1) 0 d0 (r, d')"
  proof (cases c)
    case (Inl e)
    with assms(3) create have "r = Inl e" "d' = d0" by (simp_all add: seed_def)
    then show ?thesis by (auto simp: seeding_def)
  next
    case (Inr u)
    with assms(3) create show ?thesis
      using seed_batches_seeding [OF assms(1), of cr salts "client_hash cr password" 1 n 0 d0 threads joined]
        assms(2) by (simp add: seed_def seed_row_def)
  qed
  then show ?thesis
  proof (cases r)
    case (Inl e)
    with \<open>seeding _ _ _ _ _ _ _\<close> obtain m where "1 \<le> m" "m \<le> n + 1" "seeded accounts ?row 1 m d0 d'"
      by (auto simp: seeding_def)
    then show ?thesis using Inl by (intro exI [of _ "m - 1"]) (auto simp: same [simplified])
  qed (auto simp: seeding_def same [simplified])
qed

lemma missing_card:
  "missing accounts 1 (n + 1) d = card {j. 1 \<le> j \<and> j \<le> n \<and> accounts d (client_user_id j) = None}"
proof -
  have "{j. 1 \<le> j \<and> j \<le> n \<and> accounts d (client_user_id j) = None} =
      set (filter (\<lambda>j. accounts d (client_user_id j) = None) [1..<n + 1])" by auto
  then show ?thesis unfolding missing_def by (simp only: distinct_card distinct_filter distinct_upt)
qed

lemma seed_row_verifies:
  assumes "crypto_laws cr" "seed_row cr salts h j = (hash, salt)"
  shows "verify cr h' hash salt = Inr (derive cr h' (salts j) = derive cr h (salts j))"
  using verify_generated [OF assms(1), of "salts j" h hash salt h'] assms(2) by (simp add: seed_row_def)

text \<open>
  C35. However the seeding of \<open>n\<close> accounts ends, it has completed the first accounts \<open>user_00001\<close> to
  some \<open>m\<close> in order and changed no other test account: an account that existed keeps its password and
  salt, and a new one is accepted by the check of LoginServer with the configured password. If the
  seeding returns, these are all \<open>n\<close> accounts and the count it reports is the number of those that
  were missing. Batches and hashing threads make no difference.
\<close>

theorem seeded_accounts_verify:
  assumes "seed_laws db accounts" and "crypto_laws cr"
    and "\<And>j. fits_columns (generate_stored_hash cr (salts j) (client_hash cr password))"
    and "seed cr db threads salts joined password n d = (r, d')"
  shows "\<exists>m \<le> n.
    (\<forall>j. 1 \<le> j \<and> j \<le> m \<and> accounts d (client_user_id j) = None \<longrightarrow>
       (\<exists>hash salt. accounts d' (client_user_id j) = Some (hash, salt) \<and>
          verify cr (client_hash cr password) hash salt = Inr True)) \<and>
    (\<forall>j. \<not> (1 \<le> j \<and> j \<le> m) \<or> accounts d (client_user_id j) \<noteq> None \<longrightarrow>
       accounts d' (client_user_id j) = accounts d (client_user_id j)) \<and>
    (\<forall>inserted. r = Inr inserted \<longrightarrow> m = n \<and>
       inserted = of_nat (card {j. 1 \<le> j \<and> j \<le> n \<and> accounts d (client_user_id j) = None}))"
proof -
  let ?row = "seed_row cr salts (client_hash cr password)"
  obtain m where m: "m \<le> n" and filled: "seeded accounts ?row 1 (m + 1) d d'"
    and all: "\<And>k. r = Inr k \<Longrightarrow> m = n \<and> k = of_nat (missing accounts 1 (n + 1) d)"
    using seed_result [OF assms(1,3,4)] by blast
  have "\<exists>hash salt. ?row j = (hash, salt) \<and> verify cr (client_hash cr password) hash salt = Inr True" for j
    using seed_row_verifies [OF assms(2)] by (cases "?row j") simp
  then show ?thesis
    using m filled all unfolding missing_card
    by (intro exI [of _ m]) (auto simp: seeded_def complete_def split: option.splits)
qed

text \<open>A table with one of three accounts in it.\<close>

definition toy_mysql :: "(string \<rightharpoonup> string \<times> string) seed_mysql" where
  "toy_mysql =
     \<lparr>sm_create_accounts = (\<lambda>d. (Inr (), d)),
      sm_insert_ignore = (\<lambda>u hash salt d. if d u = None then (Inr 1, d(u \<mapsto> (hash, salt))) else (Inr 0, d))\<rparr>"

lemma toy_mysql_laws: "seed_laws toy_mysql id"
  by (auto simp: seed_laws_def toy_mysql_def complete_def client_user_id_inject split: option.splits)

lemma toy_fits: "fits_columns (generate_stored_hash toy_crypto [of_nat j] (client_hash toy_crypto [1, 2]))"
  by (simp add: fits_columns_def generate_stored_hash_def client_hash_def derive_def toy_crypto_def Let_def)

theorem seeded_accounts_verify_witness:
  "\<exists>hash salt. snd (seed toy_crypto toy_mysql 2 (\<lambda>j. [of_nat j]) (\<lambda>_. True) [1, 2] 3
       [client_user_id 2 \<mapsto> (''h'', ''s'')]) (client_user_id 3) = Some (hash, salt) \<and>
     verify toy_crypto (client_hash toy_crypto [1, 2]) hash salt = Inr True"
proof -
  let ?d = "[client_user_id 2 \<mapsto> (''h'', ''s'')] :: string \<rightharpoonup> string \<times> string"
  let ?seed = "seed toy_crypto toy_mysql 2 (\<lambda>j. [of_nat j]) (\<lambda>_. True) [1, 2] 3 ?d"
  have "fst ?seed = Inr 2" by code_simp
  with seeded_accounts_verify [OF toy_mysql_laws crypto_laws_toy toy_fits surjective_pairing [of ?seed]]
  have "\<forall>j. 1 \<le> j \<and> j \<le> 3 \<and> ?d (client_user_id j) = None \<longrightarrow>
     (\<exists>hash salt. snd ?seed (client_user_id j) = Some (hash, salt) \<and>
        verify toy_crypto (client_hash toy_crypto [1, 2]) hash salt = Inr True)" by auto
  then show ?thesis by (simp add: client_user_id_inject)
qed

end
