(* ===== verification/Writer_Close.thy ===== *)
theory Writer_Close
  imports Outbox
begin

text \<open>
  \<open>Writer::close\<close> of \<open>crates/net/src/outbox.rs\<close>: when a session ends, its outbox is dropped, and the
  writer gets a limited time to write what is left in the send queue.
\<close>

section \<open>The operations a writer waits for\<close>

datatype 'm write_op = Feed 'm | Flush

definition ops_of :: "'m list list \<Rightarrow> 'm write_op list" where
  "ops_of batches = concat (map (\<lambda>batch. map Feed batch @ [Flush]) batches)"

fun run_op :: "'w framed_write \<Rightarrow> 'm prost \<Rightarrow> 'm write_op \<Rightarrow> 'w sink \<Rightarrow> (codec_error + unit) \<times> 'w sink" where
  "run_op fw p (Feed m) s = sink_feed fw p m s"
| "run_op fw p Flush s = sink_flush fw s"

fun run_ops :: "'w framed_write \<Rightarrow> 'm prost \<Rightarrow> 'm write_op list \<Rightarrow> 'w sink \<Rightarrow> (codec_error + unit) \<times> 'w sink" where
  "run_ops fw p [] s = (Inr (), s)"
| "run_ops fw p (x # xs) s =
     (case run_op fw p x s of (Inl e, s') \<Rightarrow> (Inl e, s') | (Inr _, s') \<Rightarrow> run_ops fw p xs s')"

lemma run_ops_append:
  "run_ops fw p (xs @ ys) s =
    (case run_ops fw p xs s of (Inl e, s') \<Rightarrow> (Inl e, s') | (Inr _, s') \<Rightarrow> run_ops fw p ys s')"
  by (induction xs arbitrary: s) (auto split: prod.split sum.split)

text \<open>The loop of the writer is its operations one after the other.\<close>

lemma run_ops_feeds: "run_ops fw p (map Feed ms) s = feed_all fw p ms s"
  by (induction ms arbitrary: s) (auto split: prod.split sum.split)

lemma write_batches_ops: "write_batches fw p batches s = run_ops fw p (ops_of batches) s"
proof (induction batches arbitrary: s)
  case (Cons batch batches)
  have "ops_of (batch # batches) = map Feed batch @ Flush # ops_of batches" by (simp add: ops_of_def)
  then show ?case
    by (simp add: run_ops_append run_ops_feeds Cons split: prod.split sum.split)
qed (simp add: ops_of_def)

section \<open>Closing\<close>

definition WRITER_DRAIN_TIMEOUT :: duration where
  "WRITER_DRAIN_TIMEOUT = from_secs 1"

datatype drain_end = Drained "codec_error + unit" | Aborted

text \<open>
  The writer against the clock: each operation comes with the time it takes. One that is not through
  when the time is up is dropped with the task; \<open>partial\<close> says what it did to the transport by then.
\<close>

fun drain_ops :: "'w framed_write \<Rightarrow> 'm prost \<Rightarrow> ('w \<times> bytes \<Rightarrow> 'w \<times> bytes) \<Rightarrow> duration \<Rightarrow>
    (duration \<times> 'm write_op) list \<Rightarrow> 'w sink \<Rightarrow> drain_end \<times> 'w sink" where
  "drain_ops fw p partial left [] s = (Drained (Inr ()), s)"
| "drain_ops fw p partial left ((d, x) # xs) s =
     (if left < d then
        (case partial (sk_transport s, sk_buffer s) of
           (w, b) \<Rightarrow> (Aborted, s\<lparr>sk_transport := w, sk_buffer := b\<rparr>))
      else (case run_op fw p x s of
          (Inl e, s') \<Rightarrow> (Drained (Inl e), s')
        | (Inr _, s') \<Rightarrow> drain_ops fw p partial (left - d) xs s'))"

text \<open>
  The batches are what is left in the queue when the outbox is dropped; after them \<open>recv\<close> returns
  \<open>None\<close>. The first component says whether the writer was aborted, the second whether it cancelled the
  kick token.
\<close>

definition writer_close :: "'w framed_write \<Rightarrow> 'm prost \<Rightarrow> ('w \<times> bytes \<Rightarrow> 'w \<times> bytes) \<Rightarrow> duration list \<Rightarrow>
    'm list list \<Rightarrow> 'w sink \<Rightarrow> bool \<times> bool \<times> 'w sink" where
  "writer_close fw p partial waits batches s =
     (case drain_ops fw p partial WRITER_DRAIN_TIMEOUT (zip waits (ops_of batches)) s of
        (Aborted, s') \<Rightarrow> (True, False, s')
      | (Drained (Inl e), s') \<Rightarrow> (False, True, s')
      | (Drained (Inr _), s') \<Rightarrow> (False, False, s'))"

lemma drain_ops_done:
  "drain_ops fw p partial left xs s = (Drained r, s') \<Longrightarrow> run_ops fw p (map snd xs) s = (r, s')"
proof (induction xs arbitrary: left s)
  case (Cons x xs)
  then show ?case by (cases x) (auto split: if_splits prod.splits sum.splits)
qed simp

text \<open>An aborted writer ran the operations before the one it was aborted in, and that took too long.\<close>

lemma drain_ops_aborted:
  assumes "drain_ops fw p partial left xs s = (Aborted, s')"
  shows "\<exists>n s1 w b. n < length xs \<and> run_ops fw p (take n (map snd xs)) s = (Inr (), s1) \<and>
    partial (sk_transport s1, sk_buffer s1) = (w, b) \<and> s' = s1\<lparr>sk_transport := w, sk_buffer := b\<rparr> \<and>
    left < sum_list (map fst (take (Suc n) xs))"
  using assms
proof (induction xs arbitrary: left s)
  case (Cons dx xs)
  obtain d x where dx: "dx = (d, x)" by (rule prod.exhaust)
  show ?case
  proof (cases "left < d")
    case True
    with Cons.prems dx show ?thesis
      by (intro exI [of _ 0] exI [of _ s]) (auto split: prod.splits)
  next
    case False
    with Cons.prems dx obtain s1 where op: "run_op fw p x s = (Inr (), s1)"
      and rest: "drain_ops fw p partial (left - d) xs s1 = (Aborted, s')"
      by (auto split: prod.splits sum.splits)
    from Cons.IH [OF rest] obtain n s2 w b where n: "n < length xs"
      "run_ops fw p (take n (map snd xs)) s1 = (Inr (), s2)"
      "partial (sk_transport s2, sk_buffer s2) = (w, b)" "s' = s2\<lparr>sk_transport := w, sk_buffer := b\<rparr>"
      "left - d < sum_list (map fst (take (Suc n) xs))" by blast
    with op dx False show ?thesis
      by (intro exI [of _ "Suc n"] exI [of _ s2] exI [of _ w] exI [of _ b]) auto
  qed
qed simp

text \<open>What operations enter: the frames of the messages they feed.\<close>

definition fed :: "'m write_op list \<Rightarrow> 'm list" where
  "fed xs = concat (map (\<lambda>x. case x of Feed m \<Rightarrow> [m] | Flush \<Rightarrow> []) xs)"

lemma fed_simps [simp]: "fed [] = []" "fed (Feed m # xs) = m # fed xs" "fed (Flush # xs) = fed xs"
  "fed (xs @ ys) = fed xs @ fed ys"
  by (simp_all add: fed_def)

lemma fed_map_Feed [simp]: "fed (map Feed ms) = ms"
  by (induction ms) simp_all

lemma fed_ops_of [simp]: "fed (ops_of batches) = concat batches"
  by (induction batches) (simp_all add: ops_of_def)

lemma run_ops_enters:
  assumes "fw_laws fw" and "prost_laws p"
  shows "enters fw p (fed xs) s (run_ops fw p xs s)"
proof (induction xs arbitrary: s)
  case (Cons x xs)
  obtain r s1 where op: "run_op fw p x s = (r, s1)" by (rule prod.exhaust)
  show ?case
  proof (cases x)
    case (Feed m)
    with op sink_feed_spec [OF assms, of m s] have s1: "sink_bytes fw s1 =
        sink_bytes fw s @ (if r = Inr () then wire_frame p m else [])" by simp
    show ?thesis
    proof (cases r)
      case (Inl e)
      with s1 op Feed show ?thesis by (auto simp: enters_def)
    next
      case (Inr u)
      with s1 op Feed enters_Cons [of fw s1 s p "[m]", OF _ Cons.IH] show ?thesis by simp
    qed
  next
    case Flush
    with op sink_flush_spec(1) [OF assms(1), of s] have s1: "sink_bytes fw s1 = sink_bytes fw s" by simp
    show ?thesis
    proof (cases r)
      case (Inl e)
      with s1 op Flush show ?thesis by (auto simp: enters_def)
    next
      case (Inr u)
      with s1 op Flush enters_Cons [of fw s1 s p "[]", OF _ Cons.IH] show ?thesis by simp
    qed
  qed
qed (simp add: enters_def)

lemma take_fed: "\<exists>k \<le> length (fed xs). fed (take n xs) = take k (fed xs)"
proof -
  have "fed xs = fed (take n xs) @ fed (drop n xs)" by (simp flip: fed_simps(4))
  then show ?thesis by (intro exI [of _ "length (fed (take n xs))"]) simp
qed

text \<open>
  C37. A session that ends does not lose what it has sent, as far as time allows. From a
  sink with an empty buffer, as every batch leaves it, the writer puts a prefix of the queued frames
  into the sink, in order; if the operations it still had to wait for take
  at most a second together it is not aborted; and if it is not aborted and no write failed, the
  transport has taken all of them.
\<close>

theorem close_drains_queue:
  assumes "fw_laws fw" "prost_laws p"
    and "\<And>w b w' b'. partial (w, b) = (w', b') \<Longrightarrow> fw_sent fw w' @ b' = fw_sent fw w @ b"
    and "length waits = length (ops_of batches)" "sk_buffer s = []"
    and "writer_close fw p partial waits batches s = (aborted, kicked, s')"
  shows "(\<exists>n \<le> length (concat batches).
      sink_bytes fw s' = sink_bytes fw s @ concat (map (wire_frame p) (take n (concat batches)))) \<and>
    (aborted \<longrightarrow> WRITER_DRAIN_TIMEOUT < sum_list waits) \<and>
    (\<not> aborted \<and> \<not> kicked \<longrightarrow> fw_sent fw (sk_transport s') =
      fw_sent fw (sk_transport s) @ concat (map (wire_frame p) (concat batches)))"
proof -
  let ?xs = "zip waits (ops_of batches)"
  have ops: "map snd ?xs = ops_of batches" and waits: "map fst ?xs = waits" using assms(4) by simp_all
  obtain e s1 where d: "drain_ops fw p partial WRITER_DRAIN_TIMEOUT ?xs s = (e, s1)" by (rule prod.exhaust)
  show ?thesis
  proof (cases e)
    case Aborted
    with d assms(6) have res: "aborted" "s' = s1" by (simp_all add: writer_close_def)
    from drain_ops_aborted [OF d [unfolded Aborted]] obtain n s2 w b where
      run: "run_ops fw p (take n (ops_of batches)) s = (Inr (), s2)"
      and w: "partial (sk_transport s2, sk_buffer s2) = (w, b)" "s1 = s2\<lparr>sk_transport := w, sk_buffer := b\<rparr>"
      and late: "WRITER_DRAIN_TIMEOUT < sum_list (take (Suc n) waits)" by (auto simp: ops waits take_map [symmetric])
    have "sum_list (take (Suc n) waits) \<le> sum_list (take (Suc n) waits) + sum_list (drop (Suc n) waits)" by simp
    also have "\<dots> = sum_list waits" by (simp flip: sum_list_append)
    finally have "WRITER_DRAIN_TIMEOUT < sum_list waits" using late by simp
    moreover have "sink_bytes fw s1 = sink_bytes fw s2" using assms(3) [OF w(1)] w(2) by (simp add: sink_bytes_def)
    moreover have "sink_bytes fw s2 = sink_bytes fw s @ concat (map (wire_frame p) (fed (take n (ops_of batches))))"
      using run_ops_enters [OF assms(1,2), of "take n (ops_of batches)" s] run by (auto simp: enters_def)
    moreover obtain k where "k \<le> length (concat batches)" "fed (take n (ops_of batches)) = take k (concat batches)"
      using take_fed [of "ops_of batches" n] by auto
    ultimately show ?thesis using res by auto
  next
    case (Drained r)
    with d drain_ops_done have w: "write_batches fw p batches s = (r, s1)" by (metis ops write_batches_ops)
    from Drained d assms(6) have res: "\<not> aborted" "kicked \<longleftrightarrow> r \<noteq> Inr ()" "s' = s1"
      by (cases r; simp add: writer_close_def)+
    have entered: "enters fw p (concat batches) s (r, s1)" using write_batches_enters [OF assms(1,2), of batches s] w by simp
    have "fw_sent fw (sk_transport s') = fw_sent fw (sk_transport s) @ concat (map (wire_frame p) (concat batches))"
      if "\<not> kicked"
    proof -
      from that res have ok: "r = Inr ()" by simp
      with w write_batches_flushed [OF assms(1), of p batches s "()" s1] assms(5) have "sk_buffer s1 = []" by simp
      with entered ok assms(5) res show ?thesis by (auto simp: enters_def sink_bytes_def)
    qed
    with entered res show ?thesis by (auto simp: enters_def)
  qed
qed

theorem close_drains_queue_witness:
  "writer_close (limited_write 100) raw_prost id [from_millis 10, from_millis 20, from_millis 5] [[[1], [2]]]
      (sink_new (limited_write 100) (50, []) stats_zero) =
    (False, False, \<lparr>sk_transport = (44, [1, 0, 1, 1, 0, 2]), sk_buffer = [], sk_stats = \<lparr>RECEIVED = 0, SENT = 2\<rparr>\<rparr>) \<and>
   concat (map (wire_frame raw_prost) [[1], [2]]) = [1, 0, 1, 1, 0, 2]"
proof -
  let ?s = "sink_new (limited_write 100) (50, []) stats_zero"
  have run: "writer_close (limited_write 100) raw_prost id [from_millis 10, from_millis 20, from_millis 5] [[[1], [2]]] ?s =
    (False, False, \<lparr>sk_transport = (44, [1, 0, 1, 1, 0, 2]), sk_buffer = [], sk_stats = \<lparr>RECEIVED = 0, SENT = 2\<rparr>\<rparr>)"
    by (simp add: writer_close_def ops_of_def WRITER_DRAIN_TIMEOUT_def from_secs_def from_millis_def sink_new_def
        limited_write_def sink_feed_def sink_flush_def encode_def raw_prost_def u16_to_le_bytes_def const_defs
        stats_zero_def increment_sent_def)
  have "\<And>w b w' b'. id (w, b) = (w', b') \<Longrightarrow> fw_sent (limited_write 100) w' @ b' = fw_sent (limited_write 100) w @ b"
    by simp
  from close_drains_queue [OF fw_laws_limited prost_laws_raw this _ _ run]
  have "fw_sent (limited_write 100) (44, [1, 0, 1, 1, 0, 2]) =
      fw_sent (limited_write 100) (50, []) @ concat (map (wire_frame raw_prost) [[1], [2]])"
    by (simp add: ops_of_def sink_new_def)
  with run show ?thesis by (simp add: limited_write_def)
qed

end
