(* ===== verification/Startup.thy ===== *)
theory Startup
  imports Admin_Keys Backends
begin

text \<open>
  The configuration of the servers with its defaults (\<open>login_server/src/config.rs\<close>,
  \<open>game_server/src/config.rs\<close>, \<open>db/src/lib.rs\<close>), how \<open>main\<close> of both hands it on, \<open>AdminState::new\<close> and
  \<open>start\<close> of \<open>login_server/src/admin/mod.rs\<close>, and what follows from the defaults: the two uses of the
  one Redis do not meet. Reading the configuration, sockets and certificates are library calls: what
  they return is data.
\<close>

section \<open>Configuration\<close>

record database_config =
  dc_mysql_url :: string
  dc_mysql_max_connections :: u32
  dc_redis_url :: string
  dc_broadcast_channel :: string

definition database_config_default :: database_config where
  "database_config_default =
     \<lparr>dc_mysql_url = ''mysql://root@127.0.0.1:3306/gamedb'', dc_mysql_max_connections = 32,
      dc_redis_url = ''redis://127.0.0.1:6379'', dc_broadcast_channel = ''server:notice''\<rparr>"

record admin_api_config =
  aa_enabled :: bool
  aa_port :: u16
  aa_admins :: "string list"
  aa_session_key_ttl_minutes :: u64
  aa_redis_key_prefix :: string
  aa_tls_cert_path :: string
  aa_tls_key_path :: string

definition admin_api_config_default :: admin_api_config where
  "admin_api_config_default =
     \<lparr>aa_enabled = True, aa_port = 9010, aa_admins = [], aa_session_key_ttl_minutes = 60,
      aa_redis_key_prefix = ''admin:session:'', aa_tls_cert_path = [], aa_tls_key_path = []\<rparr>"

record login_server_config =
  lv_port :: u16
  lv_auth_token_prefix :: string
  lv_auth_token_ttl_seconds :: u64
  lv_admin_api :: admin_api_config

definition login_server_config_default :: login_server_config where
  "login_server_config_default =
     \<lparr>lv_port = 9000, lv_auth_token_prefix = ''auth:token:'', lv_auth_token_ttl_seconds = 60,
      lv_admin_api = admin_api_config_default\<rparr>"

record game_server_config =
  gv_port :: u16
  gv_auth_token_prefix :: string

definition game_server_config_default :: game_server_config where
  "game_server_config_default = \<lparr>gv_port = 9001, gv_auth_token_prefix = ''auth:token:''\<rparr>"

section \<open>The admin API\<close>

text \<open>
  \<open>AdminState::new\<close>: the part of the configuration that the handlers use, the first measurement, and the
  time of the start. The process, as the system reports it, and the two readings of the clock are data.
\<close>

record process_calls =
  pc_f64 :: "f64 f64_ops"
  pc_pid :: bool
  pc_parallelism :: "nat option"
  pc_found :: "(u64 \<times> u64) option"
  pc_now :: instant
  pc_now_then :: instant

record admin_inner =
  ai_config :: admin_config
  ai_metrics :: "f64 process_metrics"
  ai_started_at :: instant

definition admin_state_new :: "process_calls \<Rightarrow> admin_api_config \<Rightarrow> string \<Rightarrow> admin_inner" where
  "admin_state_new pc config broadcast_channel =
     \<lparr>ai_config =
        \<lparr>ac_admins = aa_admins config, ac_session_key_ttl_minutes = aa_session_key_ttl_minutes config,
         ac_redis_key_prefix = aa_redis_key_prefix config, ac_broadcast_channel = broadcast_channel\<rparr>,
      ai_metrics = metrics_default (pc_f64 pc) (pc_pid pc) (pc_parallelism pc) (pc_now pc) (pc_found pc),
      ai_started_at = pc_now_then pc\<rparr>"

text \<open>What the library calls of \<open>start\<close> answer, and what it serves or why it fails.\<close>

record admin_calls =
  cl_bind :: "u16 \<Rightarrow> bool"
  cl_set_nonblocking :: bool
  cl_pem :: "string \<Rightarrow> string \<Rightarrow> bool"
  cl_from_tcp :: bool

datatype admin_listener = Http u16 | Https u16

datatype startup_error =
  Config_Failed | Mysql_Url | Redis_Url | Redis_Manager | Admin_Bind | Admin_Socket | Admin_Tls | Bind_Failed

definition admin_start :: "admin_calls \<Rightarrow> admin_api_config \<Rightarrow> startup_error + admin_listener" where
  "admin_start cl config =
     (if \<not> cl_bind cl (aa_port config) then Inl Admin_Bind
      else if \<not> cl_set_nonblocking cl then Inl Admin_Socket
      else if aa_tls_cert_path config = [] \<or> aa_tls_key_path config = []
      then (if cl_from_tcp cl then Inr (Http (aa_port config)) else Inl Admin_Socket)
      else if \<not> cl_pem cl (aa_tls_cert_path config) (aa_tls_key_path config) then Inl Admin_Tls
      else if cl_from_tcp cl then Inr (Https (aa_port config)) else Inl Admin_Socket)"

text \<open>With both paths set the API is served over TLS or not at all.\<close>

lemma admin_start_tls:
  assumes "aa_tls_cert_path config \<noteq> []" "aa_tls_key_path config \<noteq> []"
  shows "admin_start cl config \<noteq> Inr (Http port)"
  using assms by (simp add: admin_start_def)

section \<open>The main functions, up to the signal that stops them\<close>

record main_calls =
  mc_mysql_pool :: "string \<Rightarrow> u32 \<Rightarrow> bool"
  mc_redis_open :: "string \<Rightarrow> bool"
  mc_redis_manager :: bool
  mc_process :: process_calls
  mc_admin :: admin_calls
  mc_bind :: "u16 \<Rightarrow> bool"

text \<open>What runs then: the sessions' backend, the channel subscribed to, the admin API, the port.\<close>

record login_running =
  lr_backend :: login_config
  lr_channel :: string
  lr_admin :: "(admin_inner \<times> admin_listener) option"
  lr_port :: u16

definition login_main :: "main_calls \<Rightarrow> (database_config \<times> login_server_config) option \<Rightarrow>
    startup_error + login_running" where
  "login_main mc loaded =
     (case loaded of
        None \<Rightarrow> Inl Config_Failed
      | Some (db, server_config) \<Rightarrow>
          if \<not> mc_mysql_pool mc (dc_mysql_url db) (dc_mysql_max_connections db) then Inl Mysql_Url
          else if \<not> mc_redis_open mc (dc_redis_url db) then Inl Redis_Url
          else if \<not> mc_redis_manager mc then Inl Redis_Manager
          else
            let backend = \<lparr>lc_auth_token_prefix = lv_auth_token_prefix server_config,
                  lc_auth_token_ttl_seconds = lv_auth_token_ttl_seconds server_config\<rparr>;
                admin =
                  (if aa_enabled (lv_admin_api server_config)
                   then (case admin_start (mc_admin mc) (lv_admin_api server_config) of
                       Inl e \<Rightarrow> Inl e
                     | Inr l \<Rightarrow> Inr (Some (admin_state_new (mc_process mc) (lv_admin_api server_config) (dc_broadcast_channel db), l)))
                   else Inr None)
            in (case admin of
                Inl e \<Rightarrow> Inl e
              | Inr api \<Rightarrow>
                  if \<not> mc_bind mc (lv_port server_config) then Inl Bind_Failed
                  else Inr \<lparr>lr_backend = backend, lr_channel = dc_broadcast_channel db, lr_admin = api,
                         lr_port = lv_port server_config\<rparr>))"

record game_running =
  gr_auth_token_prefix :: string
  gr_channel :: string
  gr_port :: u16

definition game_main :: "main_calls \<Rightarrow> (database_config \<times> game_server_config) option \<Rightarrow>
    startup_error + game_running" where
  "game_main mc loaded =
     (case loaded of
        None \<Rightarrow> Inl Config_Failed
      | Some (db, server_config) \<Rightarrow>
          if \<not> mc_mysql_pool mc (dc_mysql_url db) (dc_mysql_max_connections db) then Inl Mysql_Url
          else if \<not> mc_redis_open mc (dc_redis_url db) then Inl Redis_Url
          else if \<not> mc_redis_manager mc then Inl Redis_Manager
          else if \<not> mc_bind mc (gv_port server_config) then Inl Bind_Failed
          else Inr \<lparr>gr_auth_token_prefix = gv_auth_token_prefix server_config,
                 gr_channel = dc_broadcast_channel db, gr_port = gv_port server_config\<rparr>)"

text \<open>LoginServer opens its port only after the admin API listens, if it is enabled.\<close>

lemma login_main_admin_first:
  assumes "login_main mc (Some (db, c)) = Inr run"
  shows "lr_admin run \<noteq> None \<longleftrightarrow> aa_enabled (lv_admin_api c)"
    and "lr_admin run = Some (api, l) \<Longrightarrow> admin_start (mc_admin mc) (lv_admin_api c) = Inr l \<and>
      api = admin_state_new (mc_process mc) (lv_admin_api c) (lr_channel run)"
  using assms by (auto simp: login_main_def Let_def split: if_splits sum.splits)

section \<open>One Redis for two uses\<close>

text \<open>A request touches no key but those of its own prefix.\<close>

lemma renewed_elsewhere: "k' \<noteq> k \<Longrightarrow> renewed now k secs m k' = m k'"
  by (auto simp: renewed_def split: option.split)

lemma dispatch_elsewhere:
  assumes laws: "key_laws (ae_redis e) entry" and "\<And>key. k \<noteq> ac_redis_key_prefix (ae_config e) @ key"
  shows "entry (as_redis (snd (dispatch e rq st))) k = entry (as_redis st) k"
proof (cases rule: dispatch_cases [of e rq st "[]"])
  case (grant x)
  with key_lawsD(2) [OF laws grant(1)] assms(2) show ?thesis by auto
next
  case (revoke key x)
  with key_lawsD(4) [OF laws revoke(3)] assms(2) show ?thesis by auto
next
  case (notice c m x)
  with key_lawsD(5) [OF laws notice(1)] show ?thesis by simp
qed simp

lemma admin_request_elsewhere:
  assumes laws: "key_laws (ae_redis e) entry" and k: "\<And>key. k \<noteq> ac_redis_key_prefix (ae_config e) @ key"
  shows "entry (as_redis (snd (admin_request e rq st))) k = entry (as_redis st) k"
proof (cases rule: admin_request_cases [of rq e st])
  case exempt
  then show ?thesis using dispatch_elsewhere [OF laws k, of rq st] by simp
next
  case (failed key x r)
  with key_lawsD(3) [OF laws failed(3)] k show ?thesis by (auto simp: renewed_elsewhere)
next
  case (let_in key uid x r)
  have "entry (as_redis (snd (admin_request e rq st))) k = entry r k"
    using dispatch_elsewhere [OF laws k, of rq "st\<lparr>as_redis := r\<rparr>"] let_in(8) by simp
  with key_lawsD(3) [OF laws let_in(6)] k show ?thesis by (auto simp: renewed_elsewhere)
qed simp

lemma take_elsewhere:
  assumes "redis_laws rd" "k \<noteq> pfx @ token"
  shows "rd_get rd t k (snd (take_auth_token rd pfx now token r)) = rd_get rd t k r"
  using redis_lawsD(4) [OF assms] redis_lawsD(7) [OF assms(1), of now "pfx @ token" r _ _ t k] assms(2)
  by (force simp: take_auth_token_def get_del_def Let_def split: option.splits prod.splits)

lemma issue_elsewhere:
  assumes "redis_laws rd" "k \<noteq> pfx @ token"
  shows "rd_get rd t k (snd (issue_auth_token rd pfx ttl now token aid uid r)) = rd_get rd t k r"
  using redis_lawsD(2) [OF assms]
  by (auto simp: issue_auth_token_def Let_def split: sum.splits prod.splits) (metis snd_conv)+

text \<open>
  C22. The servers run with the default prefixes share one Redis without getting in each other's way. Whatever
  header an admin request carries, it changes no token; and whatever token a client of GameServer shows,
  or LoginServer issues, no admin session key is read, changed or removed.
\<close>

theorem shared_redis_namespaces:
  assumes "key_laws (ae_redis e) entry" "redis_laws rd" "\<forall>t k r. rd_get rd t k r = key_live entry t k r"
    and "ae_config e = ai_config (admin_state_new pc (admin_api_config_default\<lparr>aa_admins := admins\<rparr>) channel)"
  shows "stored_token rd (gv_auth_token_prefix game_server_config_default) t token (as_redis (snd (admin_request e rq st))) =
      stored_token rd (gv_auth_token_prefix game_server_config_default) t token (as_redis st) \<and>
    key_live entry t (ac_redis_key_prefix (ae_config e) @ key)
        (snd (take_auth_token rd (gv_auth_token_prefix game_server_config_default) now token r)) =
      key_live entry t (ac_redis_key_prefix (ae_config e) @ key) r \<and>
    key_live entry t (ac_redis_key_prefix (ae_config e) @ key)
        (snd (issue_auth_token rd (lv_auth_token_prefix login_server_config_default)
          (lv_auth_token_ttl_seconds login_server_config_default) now token aid uid r)) =
      key_live entry t (ac_redis_key_prefix (ae_config e) @ key) r"
proof -
  have apart: "''auth:token:'' @ x \<noteq> ac_redis_key_prefix (ae_config e) @ y" for x y
    by (simp add: assms(4) admin_state_new_def admin_api_config_default_def)
  have "entry (as_redis (snd (admin_request e rq st))) (''auth:token:'' @ token) = entry (as_redis st) (''auth:token:'' @ token)"
    by (rule admin_request_elsewhere [OF assms(1)]) (rule apart)
  then show ?thesis
    using take_elsewhere [OF assms(2) apart [symmetric]] issue_elsewhere [OF assms(2) apart [symmetric]] assms(3)
    by (simp add: stored_token_def game_server_config_default_def login_server_config_default_def key_live_def)
qed

text \<open>A logout with the key of nobody, while a token is stored, for the witness.\<close>

definition sample_process :: process_calls where
  "sample_process =
     \<lparr>pc_f64 = sample_f64, pc_pid = True, pc_parallelism = Some 4, pc_found = None, pc_now = 0, pc_now_then = 0\<rparr>"

theorem shared_redis_namespaces_witness:
  "let e = (sample_env ''k'' 5)\<lparr>ae_config := ai_config (admin_state_new sample_process (admin_api_config_default\<lparr>aa_admins := [''a'']\<rparr>) ''c'')\<rparr>;
       st = sample_admin_state\<lparr>as_redis := [''auth:token:t'' \<mapsto> (''7:u'', 9)]\<rparr>
   in stored_token map_redis ''auth:token:'' 6 ''t''
     (as_redis (snd (admin_request e (sample_request POST ''/api/auth/logout'' (Some (Some ''x''))) st))) = Some ''7:u''"
proof -
  let ?e = "(sample_env ''k'' 5)\<lparr>ae_config := ai_config (admin_state_new sample_process (admin_api_config_default\<lparr>aa_admins := [''a'']\<rparr>) ''c'')\<rparr>"
  have "key_laws (ae_redis ?e) (\<lambda>r. r)" by (simp add: sample_env_def)
  from shared_redis_namespaces [OF this redis_laws_map, of sample_process "[''a'']" "''c''" 6 "''t''"
      "sample_request POST ''/api/auth/logout'' (Some (Some ''x''))" "sample_admin_state\<lparr>as_redis := [''auth:token:t'' \<mapsto> (''7:u'', 9)]\<rparr>"]
  show ?thesis
    by (simp add: map_redis_def key_live_def stored_token_def game_server_config_default_def Let_def)
qed

end
