(* ===== verification/Deployment.thy ===== *)
theory Deployment
  imports Seeder Backends
begin

text \<open>
  The tools and the servers together: what the seeder of \<open>dummy_client\<close> wrote is what LoginServer checks
  (\<open>crates/dummy_client/src/seeder.rs\<close>, \<open>crates/login_server/src/session.rs\<close> and \<open>backend.rs\<close>).
\<close>

text \<open>
  \<open>SELECT\<close> finds the row the seeder inserted, with the default status 0; \<open>accounts\<close> observes the same table
  for the seeder's statements.
\<close>

definition reads_seeded :: "'d mysql \<Rightarrow> ('d \<Rightarrow> string \<Rightarrow> (string \<times> string) option) \<Rightarrow> string \<Rightarrow> 'd \<Rightarrow> bool" where
  "reads_seeded db accounts uid d \<longleftrightarrow>
     (case accounts d uid of
        None \<Rightarrow> True
      | Some (hash, salt) \<Rightarrow> \<exists>aid. sql_select_account db uid d = (Inr (Some (aid, uid, hash, salt, 0)), d))"

text \<open>A login against a row that a seeding with the salt \<open>s\<close> made.\<close>

lemma login_seeded_row:
  assumes "crypto_laws cr" and "seed_row cr salts h0 j = (hash, salt)"
    and "sql_select_account db uid d = (Inr (Some (aid, uid, hash, salt, 0)), d)"
    and "login_authenticate cr (login_mysql_redis db rd cfg t token) True uid h (d, r) = (outcome, b)"
  shows "outcome = LoginFailure InvalidCredentials \<longleftrightarrow> derive cr h (salts j) \<noteq> derive cr h0 (salts j)"
    and "outcome \<in> {LoginSuccess \<lparr>la_user_id = uid\<rparr> token, LoginFailure InvalidCredentials, LoginFailure ServerError, LoginDbError}"
    and "derive cr h (salts j) = derive cr h0 (salts j) \<Longrightarrow> sql_update_last_login db aid d = (Inr (), d2) \<Longrightarrow>
      fst (rd_set_ex rd t (lc_auth_token_prefix cfg @ token) (token_value aid uid) (lc_auth_token_ttl_seconds cfg) r) = Inr True \<Longrightarrow>
      outcome = LoginSuccess \<lparr>la_user_id = uid\<rparr> token"
  using assms(3,4) seed_row_verifies [OF assms(1,2), of h]
  by (auto simp: login_authenticate_def login_mysql_redis_def account_of_columns_def issue_auth_token_def Let_def
      split: prod.splits sum.splits option.splits bool.splits if_splits)

text \<open>
  C26. A seeded account can be logged in to, with the seeded password and no other. After a seeding that
  returned, LoginServer answers a login as an account that was new with "invalid credentials" exactly
  if PBKDF2 tells the client's hash from that of the configured password under the salt of that row;
  it never finds the account banned; and with the configured password it is successful whenever
  the two stores work.
\<close>

theorem seeded_accounts_log_in:
  assumes "seed_laws sdb accounts" "crypto_laws cr"
    and "\<And>j. fits_columns (generate_stored_hash cr (salts j) (client_hash cr password))"
    and "seed cr sdb threads salts joined password n d = (Inr inserted, d')"
    and "1 \<le> j" "j \<le> n" "accounts d (client_user_id j) = None" "reads_seeded db accounts (client_user_id j) d'"
    and "login_authenticate cr (login_mysql_redis db rd cfg t token) True (client_user_id j) h (d', r) = (outcome, b)"
  shows "(outcome = LoginFailure InvalidCredentials \<longleftrightarrow>
      derive cr h (salts j) \<noteq> derive cr (client_hash cr password) (salts j)) \<and>
    outcome \<in> {LoginSuccess \<lparr>la_user_id = client_user_id j\<rparr> token, LoginFailure InvalidCredentials,
      LoginFailure ServerError, LoginDbError} \<and>
    (h = client_hash cr password \<and> (\<forall>aid. \<exists>d2. sql_update_last_login db aid d' = (Inr (), d2)) \<and>
      (\<forall>k v ttl. fst (rd_set_ex rd t k v ttl r) = Inr True) \<longrightarrow>
      outcome = LoginSuccess \<lparr>la_user_id = client_user_id j\<rparr> token)"
proof -
  from seed_result [OF assms(1,3,4)]
  have "seeded accounts (seed_row cr salts (client_hash cr password)) 1 (n + 1) d d'" by auto
  with assms(5-7) have row: "accounts d' (client_user_id j) = Some (seed_row cr salts (client_hash cr password) j)"
    by (simp add: seeded_def complete_def)
  obtain hash salt where hs: "seed_row cr salts (client_hash cr password) j = (hash, salt)" by (rule prod.exhaust)
  with row assms(8) obtain aid where select:
    "sql_select_account db (client_user_id j) d' = (Inr (Some (aid, client_user_id j, hash, salt, 0)), d')"
    by (auto simp: reads_seeded_def)
  note login = login_seeded_row [OF assms(2) hs select assms(9)]
  show ?thesis using login(1,2) login(3) by metis
qed

text \<open>A table for both programs, for the witness.\<close>

definition toy_accounts :: "(string \<rightharpoonup> string \<times> string) mysql" where
  "toy_accounts =
     \<lparr>sql_select_account = (\<lambda>uid d. (Inr (map_option (\<lambda>(hash, salt). (7, uid, hash, salt, 0)) (d uid)), d)),
      sql_update_last_login = (\<lambda>aid d. (Inr (), d)),
      sql_insert_score = (\<lambda>aid score kills secs d. (Inr (), d))\<rparr>"

theorem seeded_accounts_log_in_witness:
  "\<exists>b. login_authenticate toy_crypto (login_mysql_redis toy_accounts map_redis sample_config 0 ''x'') True
      (client_user_id 3) (client_hash toy_crypto [1, 2])
      (snd (seed toy_crypto toy_mysql 2 (\<lambda>j. [of_nat j]) (\<lambda>_. True) [1, 2] 3 Map.empty), Map.empty) =
    (LoginSuccess \<lparr>la_user_id = client_user_id 3\<rparr> ''x'', b)"
proof -
  let ?seed = "seed toy_crypto toy_mysql 2 (\<lambda>j. [of_nat j]) (\<lambda>_. True) [1, 2] 3 Map.empty"
  have "fst ?seed = Inr 3" by code_simp
  then have seeded: "?seed = (Inr 3, snd ?seed)" by (simp add: prod_eq_iff)
  obtain outcome b where login: "login_authenticate toy_crypto
      (login_mysql_redis toy_accounts map_redis sample_config 0 ''x'') True
      (client_user_id 3) (client_hash toy_crypto [1, 2]) (snd ?seed, Map.empty) = (outcome, b)" by (rule prod.exhaust)
  have "reads_seeded toy_accounts id (client_user_id 3) (snd ?seed)"
    by (auto simp: reads_seeded_def toy_accounts_def split: option.split)
  from seeded_accounts_log_in [OF toy_mysql_laws crypto_laws_toy toy_fits seeded _ _ _ this login]
  have "outcome = LoginSuccess \<lparr>la_user_id = client_user_id 3\<rparr> ''x''"
    by (simp add: toy_accounts_def map_redis_def)
  with login show ?thesis by simp
qed

end
