(* ===== verification/Host.thy ===== *)
theory Host
  imports Server
begin

text \<open>
  A server together with the tasks its sessions spawn and the inner channels those report to. In
  \<open>Server\<close> an inner message may be anything; here it comes from a task the session started, through
  its bounded channel (\<open>inner_tx\<close> and \<open>inner_rx\<close> of \<open>session.rs\<close>, \<open>tokio::spawn\<close> and
  \<open>Session::spawn_inner\<close>). Sessions and tasks of one server interleave freely. Every step of a host is
  a step of its server, or leaves the server alone.
\<close>

section \<open>Tasks and channels\<close>

text \<open>
  What a task sees of its surroundings in a step: the clock, a fresh UUID, and whether a blocking
  call it waits for came back.
\<close>

record task_env =
  te_now :: instant
  te_uuid :: string
  te_joined :: bool

text \<open>
  The body of a server's tasks, over the shared resources \<open>'b\<close>: how the captured work begins, and
  its steps. A step gives the rest of the task or its message; \<open>None\<close> is a task that waits.
\<close>

record ('i, 'w, 't, 'b) worker =
  wk_begin :: "'w \<Rightarrow> 't"
  wk_step :: "task_env \<Rightarrow> 't \<Rightarrow> 'b \<Rightarrow> (('t + 'i) \<times> 'b) option"

text \<open>
  A task belongs to a session: it works (\<open>Inl\<close>), or has its message and awaits the \<open>send\<close> (\<open>Inr\<close>).
\<close>

record ('s, 'i, 'w, 't) host =
  ho_server :: "('s, 'w) server"
  ho_tasks :: "(u64 \<times> ('t + 'i)) list"
  ho_inbox :: "u64 \<Rightarrow> 'i list"

definition host_start :: "('s, 'i, 'w, 't) host" where
  "host_start = \<lparr>ho_server = server_start, ho_tasks = [], ho_inbox = (\<lambda>_. [])\<rparr>"

text \<open>The tasks a session spawned during a step: what its step appended to the log.\<close>

definition newly_spawned :: "(u64, 'w) world \<Rightarrow> (u64, 'w) world \<Rightarrow> 'w list" where
  "newly_spawned w w' = drop (length (spawned w)) (spawned w')"

text \<open>\<open>inner_rx.recv()\<close> removes a message only when the \<open>select!\<close> takes its branch.\<close>

definition inbox_after :: "'i select_branch option \<Rightarrow> 'i list \<Rightarrow> 'i list" where
  "inbox_after b ms = (case b of Some (Inner_Branch _) \<Rightarrow> tl ms | _ \<Rightarrow> ms)"

definition session_turn :: "('s, u64, 'i, 'w) actor \<Rightarrow> ('s, 'w) service \<Rightarrow> ('i, 'w, 't, 'b) worker \<Rightarrow>
    u64 \<Rightarrow> (u64, 'i) poll \<Rightarrow> 's \<Rightarrow> ('s, 'i, 'w, 't) host \<Rightarrow> ('s, 'i, 'w, 't) host" where
  "session_turn act svc wk i p s h =
     (let v = ho_server h;
          b = branch_of act i p (wake act p (s, sv_world v))
      in case loop_step act i p (s, sv_world v) of
           (f, s', w) \<Rightarrow>
             \<lparr>ho_server =
                (case f of
                   Continue \<Rightarrow> v\<lparr>sv_running := (sv_running v)(i \<mapsto> s'), sv_world := w\<rparr>
                 | Break \<Rightarrow> v\<lparr>sv_running := (sv_running v)(i := None), sv_world := sc_end svc (s', w)\<rparr>),
              ho_tasks = ho_tasks h @ map (\<lambda>x. (i, Inl (wk_begin wk x))) (newly_spawned (sv_world v) w),
              ho_inbox = (ho_inbox h)(i :=
                case f of Continue \<Rightarrow> inbox_after b (ho_inbox h i) | Break \<Rightarrow> [])\<rparr>)"

text \<open>The messages a session can find ready: the oldest of its channel, or none.\<close>

definition inner_ready :: "('s, 'i, 'w, 't) host \<Rightarrow> u64 \<Rightarrow> 'i option \<Rightarrow> bool" where
  "inner_ready h i m \<longleftrightarrow> (case m of None \<Rightarrow> True | Some x \<Rightarrow> ho_inbox h i \<noteq> [] \<and> hd (ho_inbox h i) = x)"

definition deliver :: "u64 \<Rightarrow> 'i \<Rightarrow> ('s, 'i, 'w, 't) host \<Rightarrow> u64 \<Rightarrow> 'i list" where
  "deliver i m h =
     (if sv_running (ho_server h) i = None then ho_inbox h
      else (ho_inbox h)(i := ho_inbox h i @ [m]))"

text \<open>What happened in a step.\<close>

datatype ('i, 't) host_event =
    Accept_Event instant
  | Poll_Event u64 "(u64, 'i) poll"
  | Work_Event u64 task_env 't "'t + 'i"
  | Send_Event u64 'i
  | Cancel_Event u64

inductive host_step :: "('s, u64, 'i, 'w) actor \<Rightarrow> ('s, 'w) service \<Rightarrow> ('i, 'w, 't, 'b) worker \<Rightarrow>
    ('s, 'i, 'w, 't) host \<times> 'b \<Rightarrow> ('i, 't) host_event \<Rightarrow> ('s, 'i, 'w, 't) host \<times> 'b \<Rightarrow> bool"
  for act and svc and wk where
  accept: "v = ho_server h \<Longrightarrow>
    sc_start svc (sv_next_id v) (sv_next_id v + 1) now (sv_world v) = (n, s, w) \<Longrightarrow>
    sv_next_id v + 1 \<noteq> 0 \<Longrightarrow>
    host_step act svc wk (h, b) (Accept_Event now)
      (h\<lparr>ho_server := v\<lparr>sv_next_id := n, sv_running := (sv_running v)(sv_next_id v + 1 \<mapsto> s), sv_world := w\<rparr>\<rparr>, b)"
| poll: "sv_running (ho_server h) i = Some s \<Longrightarrow> p_others p = [] \<Longrightarrow> inner_ready h i (p_inner p) \<Longrightarrow>
    host_step act svc wk (h, b) (Poll_Event i p) (session_turn act svc wk i p s h, b)"
| work: "k < length (ho_tasks h) \<Longrightarrow> ho_tasks h ! k = (i, Inl t) \<Longrightarrow>
    wk_step wk env t b = Some (res, b') \<Longrightarrow>
    host_step act svc wk (h, b) (Work_Event i env t res) (h\<lparr>ho_tasks := (ho_tasks h)[k := (i, res)]\<rparr>, b')"
| send: "k < length (ho_tasks h) \<Longrightarrow> ho_tasks h ! k = (i, Inr m) \<Longrightarrow>
    (sv_running (ho_server h) i \<noteq> None \<Longrightarrow> length (ho_inbox h i) < MAX_MESSAGE_CHANNEL_CAPACITY) \<Longrightarrow>
    host_step act svc wk (h, b) (Send_Event i m)
      (h\<lparr>ho_tasks := take k (ho_tasks h) @ drop (Suc k) (ho_tasks h), ho_inbox := deliver i m h\<rparr>, b)"
| cancel: "v = ho_server h \<Longrightarrow>
    host_step act svc wk (h, b) (Cancel_Event k)
      (h\<lparr>ho_server := v\<lparr>sv_world := (sv_world v)\<lparr>cancelled := insert k (cancelled (sv_world v))\<rparr>\<rparr>\<rparr>, b)"

inductive_cases host_stepE [consumes 1, case_names accept poll work send cancel]:
  "host_step act svc wk hb ev hb'"

text \<open>A run, with the events it consists of, the latest last.\<close>

inductive host_run :: "('s, u64, 'i, 'w) actor \<Rightarrow> ('s, 'w) service \<Rightarrow> ('i, 'w, 't, 'b) worker \<Rightarrow> 'b \<Rightarrow>
    ('i, 't) host_event list \<Rightarrow> ('s, 'i, 'w, 't) host \<times> 'b \<Rightarrow> bool"
  for act and svc and wk and b0 where
  start: "host_run act svc wk b0 [] (host_start, b0)"
| step: "host_run act svc wk b0 tr hb \<Longrightarrow> host_step act svc wk hb ev hb' \<Longrightarrow>
    host_run act svc wk b0 (tr @ [ev]) hb'"

section \<open>A host refines its server\<close>

lemma session_turn_server:
  assumes "sv_running (ho_server h) i = Some s" and "p_others p = []"
  shows "server_step act svc (ho_server h) (ho_server (session_turn act svc wk i p s h))"
proof -
  obtain f s' w where l: "loop_step act i p (s, sv_world (ho_server h)) = (f, s', w)"
    by (metis prod_cases3)
  show ?thesis
  proof (cases f)
    case Continue
    with l server_step.go_on [OF assms, of act s' w svc] show ?thesis by (simp add: session_turn_def Let_def)
  next
    case Break
    with l server_step.finish [OF assms, of act s' w svc] show ?thesis by (simp add: session_turn_def Let_def)
  qed
qed

lemma host_refines_server:
  assumes "host_step act svc wk (h, b) ev (h', b')"
  shows "(server_step act svc)\<^sup>=\<^sup>= (ho_server h) (ho_server h')"
  using assms
proof (cases rule: host_stepE)
  case accept
  then show ?thesis by (auto dest: server_step.accept [where act = act])
next
  case poll
  then show ?thesis by (auto intro: session_turn_server)
next
  case cancel
  then show ?thesis using server_step.cancel [of act svc "ho_server h"] by auto
qed simp_all

lemma host_run_reachable: "host_run act svc wk b0 tr hb \<Longrightarrow> server_reachable act svc (ho_server (fst hb))"
proof (induction rule: host_run.induct)
  case start
  then show ?case by (simp add: host_start_def server_reachable_def)
next
  case (step tr hb ev hb')
  from host_refines_server [of act svc wk "fst hb" "snd hb" ev "fst hb'" "snd hb'"] step
  show ?case by (auto simp: server_reachable_def intro: rtranclp.rtrancl_into_rtrancl)
qed

section \<open>What a step can change\<close>

text \<open>
  The parts of the host that a step can have changed, for invariants over sessions, tasks and
  channels: a new session, a session's own step, or a task.
\<close>

lemma newly_spawned_same [simp]: "spawned w' = spawned w \<Longrightarrow> newly_spawned w w' = []"
  by (simp add: newly_spawned_def)

lemma newly_spawned_append [simp]: "spawned w' = spawned w @ xs \<Longrightarrow> newly_spawned w w' = xs"
  by (simp add: newly_spawned_def)

lemma session_turn_tasks:
  "ho_tasks (session_turn act svc wk i p s h) = ho_tasks h @ map (\<lambda>x. (i, Inl (wk_begin wk x)))
     (newly_spawned (sv_world (ho_server h)) (snd (snd (loop_step act i p (s, sv_world (ho_server h))))))"
  by (simp add: session_turn_def Let_def split: prod.split)

lemma inbox_after_Nil [simp]: "inbox_after b [] = []"
  by (simp add: inbox_after_def split: option.split select_branch.split)

lemma session_turn_inbox: "set (ho_inbox (session_turn act svc wk i p s h) j) \<subseteq> set (ho_inbox h j)"
  by (cases "ho_inbox h i")
    (auto simp: session_turn_def Let_def inbox_after_def split: prod.splits control_flow.splits
      option.splits select_branch.splits)

lemma session_turn_running:
  assumes "sv_running (ho_server (session_turn act svc wk i p s h)) j = Some s'"
  shows "j \<noteq> i \<and> sv_running (ho_server h) j = Some s' \<or>
    j = i \<and> s' = fst (snd (loop_step act i p (s, sv_world (ho_server h))))"
  using assms
  by (auto simp: session_turn_def Let_def split: prod.splits control_flow.splits if_splits)

lemma deliver_set: "x \<in> set (deliver i m h j) \<Longrightarrow> x \<in> set (ho_inbox h j) \<or> (j = i \<and> x = m)"
  by (auto simp: deliver_def split: if_splits)

lemma tasks_removed: "x \<in> set (take k ts @ drop (Suc k) ts) \<Longrightarrow> x \<in> set ts"
  by (auto dest: in_set_takeD in_set_dropD)

lemma tasks_updated: "x \<in> set (ts[k := y]) \<Longrightarrow> x \<in> set ts \<or> x = y"
  using set_update_subset_insert by fastforce

text \<open>
  A rule for properties of single sessions and messages: \<open>P\<close> of a session when it starts, and kept by
  each of its steps in which its message, if any, has \<open>Q\<close>; \<open>Q\<close> of every message a task ends with.
\<close>

definition host_typed :: "('s \<Rightarrow> bool) \<Rightarrow> ('i \<Rightarrow> bool) \<Rightarrow> ('s, 'i, 'w, 't) host \<Rightarrow> bool" where
  "host_typed P Q h \<longleftrightarrow>
     (\<forall>i s. sv_running (ho_server h) i = Some s \<longrightarrow> P s) \<and>
     (\<forall>x\<in>set (ho_tasks h). \<forall>m. snd x = Inr m \<longrightarrow> Q m) \<and>
     (\<forall>i. \<forall>m\<in>set (ho_inbox h i). Q m)"

lemma host_typedI:
  assumes "host_typed P Q h"
    and "\<And>i s. sv_running (ho_server h') i = Some s \<Longrightarrow> sv_running (ho_server h) i = Some s \<or> P s"
    and "\<And>i m. (i, Inr m) \<in> set (ho_tasks h') \<Longrightarrow> (i, Inr m) \<in> set (ho_tasks h) \<or> Q m"
    and "\<And>i m. m \<in> set (ho_inbox h' i) \<Longrightarrow> m \<in> set (ho_inbox h i) \<or> Q m"
  shows "host_typed P Q h'"
  using assms unfolding host_typed_def by (metis prod.collapse snd_conv)

lemma host_typed_step:
  assumes step: "host_step act svc wk (h, b) ev (h', b')" and I: "host_typed P Q h"
    and start: "\<And>n k now w n' s w'. sc_start svc n k now w = (n', s, w') \<Longrightarrow> P s"
    and keep: "\<And>i p s w f s' w'. loop_step act i p (s, w) = (f, s', w') \<Longrightarrow>
      (\<And>m. p_inner p = Some m \<Longrightarrow> Q m) \<Longrightarrow> P s \<Longrightarrow> P s'"
    and ends: "\<And>env t b m b'. wk_step wk env t b = Some (Inr m, b') \<Longrightarrow> Q m"
  shows "host_typed P Q h'"
  using step
proof (cases rule: host_stepE)
  case accept
  with start show ?thesis by (intro host_typedI [OF I]) (auto split: if_splits)
next
  case (poll h1 i s p)
  obtain f s' w where l: "loop_step act i p (s, sv_world (ho_server h)) = (f, s', w)" by (metis prod_cases3)
  have "Q m" if "p_inner p = Some m" for m
  proof -
    have "m \<in> set (ho_inbox h i)" using poll that by (cases "ho_inbox h i") (auto simp: inner_ready_def)
    with I show ?thesis by (auto simp: host_typed_def)
  qed
  moreover have "P s" using I poll by (auto simp: host_typed_def)
  ultimately have "P s'" by (rule keep [OF l])
  then have "P x" if "sv_running (ho_server h') j = Some x" for j x
    using session_turn_running [of act svc wk i p s h j x] that poll l I by (auto simp: host_typed_def)
  with poll show ?thesis
    by (intro host_typedI [OF I]) (auto simp: session_turn_tasks dest!: subsetD [OF session_turn_inbox])
next
  case (work k h1 i t env b1 res b2)
  have "(j, Inr m) \<in> set (ho_tasks h) \<or> Q m" if "(j, Inr m) \<in> set (ho_tasks h')" for j m
    using that work ends tasks_updated [of "(j, Inr m)" "ho_tasks h" k "(i, res)"] by auto
  with work show ?thesis by (intro host_typedI [OF I]) auto
next
  case (send k h1 i m)
  have "(i, Inr m) \<in> set (ho_tasks h)" using send by (metis nth_mem fst_conv)
  with I have "Q m" by (auto simp: host_typed_def)
  with send show ?thesis
    by (intro host_typedI [OF I]) (auto dest: in_set_takeD in_set_dropD dest!: deliver_set)
next
  case cancel
  then show ?thesis by (intro host_typedI [OF I]) auto
qed

lemma host_run_typed:
  assumes "host_run act svc wk b0 tr hb"
    and start: "\<And>n k now w n' s w'. sc_start svc n k now w = (n', s, w') \<Longrightarrow> P s"
    and keep: "\<And>i p s w f s' w'. loop_step act i p (s, w) = (f, s', w') \<Longrightarrow>
      (\<And>m. p_inner p = Some m \<Longrightarrow> Q m) \<Longrightarrow> P s \<Longrightarrow> P s'"
    and ends: "\<And>env t b m b'. wk_step wk env t b = Some (Inr m, b') \<Longrightarrow> Q m"
  shows "host_typed P Q (fst hb)"
  using assms(1)
proof (induction rule: host_run.induct)
  case start
  show ?case by (simp add: host_typed_def host_start_def server_start_def)
next
  case (step tr hb ev hb')
  show ?case
    by (rule host_typed_step [of act svc wk "fst hb" "snd hb" ev "fst hb'" "snd hb'", OF _ step.IH])
      (use step.hyps(2) start keep ends in auto)
qed

end
