(* ===== verification/Tasks.thy ===== *)
theory Tasks
  imports Host Backends
begin

text \<open>
  The tasks the sessions of both servers spawn, step by step: one step from an \<open>await\<close> to the next.
  \<open>authenticate\<close> of \<open>login_server/src/session.rs\<close> with the semaphore it holds while it verifies a
  password, and the two tasks of \<open>game_server/src/session.rs\<close>; and the \<open>SessionContext\<close> of both. The
  semaphore is tokio's: its operations are parameters, its documented behaviour is a hypothesis.
\<close>

section \<open>The semaphore\<close>

record 'p semaphore =
  sm_new :: "nat \<Rightarrow> 'p"
  sm_try_acquire :: "'p \<Rightarrow> 'p option"
  sm_release :: "'p \<Rightarrow> 'p"
  sm_available :: "'p \<Rightarrow> nat"

definition semaphore_laws :: "'p semaphore \<Rightarrow> bool" where
  "semaphore_laws sm \<longleftrightarrow>
     (\<forall>n. sm_available sm (sm_new sm n) = n) \<and>
     (\<forall>p. sm_try_acquire sm p = None \<longleftrightarrow> sm_available sm p = 0) \<and>
     (\<forall>p p'. sm_try_acquire sm p = Some p' \<longrightarrow> sm_available sm p = Suc (sm_available sm p')) \<and>
     (\<forall>p. sm_available sm (sm_release sm p) = Suc (sm_available sm p))"

lemma semaphore_lawsD:
  assumes "semaphore_laws sm"
  shows "sm_available sm (sm_new sm n) = n"
    and "sm_try_acquire sm p = None \<longleftrightarrow> sm_available sm p = 0"
    and "sm_try_acquire sm p = Some p' \<Longrightarrow> sm_available sm p = Suc (sm_available sm p')"
    and "sm_available sm (sm_release sm p) = Suc (sm_available sm p)"
  using assms by (auto simp: semaphore_laws_def)

text \<open>A counter behaves so.\<close>

definition counter_semaphore :: "nat semaphore" where
  "counter_semaphore =
     \<lparr>sm_new = (\<lambda>n. n), sm_try_acquire = (\<lambda>p. case p of 0 \<Rightarrow> None | Suc p' \<Rightarrow> Some p'), sm_release = Suc,
      sm_available = (\<lambda>p. p)\<rparr>"

lemma semaphore_laws_counter [simp]: "semaphore_laws counter_semaphore"
  by (simp add: semaphore_laws_def counter_semaphore_def split: nat.split)

section \<open>The session contexts\<close>

text \<open>The backend is an argument of what uses it.\<close>

record ('k, 'p) login_context =
  lx_registry :: "'k registry"
  lx_keep_alive_timeout :: duration
  lx_hash_limiter :: 'p

text \<open>\<open>available_parallelism\<close> is the answer of the system, if it has one.\<close>

definition login_context_new :: "'p semaphore \<Rightarrow> nat option \<Rightarrow> ('k, 'p) login_context" where
  "login_context_new sm available_parallelism =
     (let permits = (case available_parallelism of None \<Rightarrow> 4 | Some n \<Rightarrow> n)
      in \<lparr>lx_registry = registry_default, lx_keep_alive_timeout = KEEP_ALIVE_TIMEOUT,
          lx_hash_limiter = sm_new sm permits\<rparr>)"

definition login_with_keep_alive_timeout :: "duration \<Rightarrow> ('k, 'p) login_context \<Rightarrow> ('k, 'p) login_context" where
  "login_with_keep_alive_timeout timeout self = self\<lparr>lx_keep_alive_timeout := timeout\<rparr>"

record 'k game_context =
  gx_registry :: "'k registry"
  gx_keep_alive_timeout :: duration

definition game_context_new :: "'k game_context" where
  "game_context_new = \<lparr>gx_registry = registry_default, gx_keep_alive_timeout = KEEP_ALIVE_TIMEOUT\<rparr>"

definition game_with_keep_alive_timeout :: "duration \<Rightarrow> 'k game_context \<Rightarrow> 'k game_context" where
  "game_with_keep_alive_timeout timeout self = self\<lparr>gx_keep_alive_timeout := timeout\<rparr>"

section \<open>The login task\<close>

text \<open>
  Where \<open>authenticate\<close> stands: at the lookup, at \<open>hash_limiter.acquire()\<close>, in the blocking task with
  the permit, at \<open>touch_last_login\<close>, at \<open>issue_auth_token\<close>; with what it still needs.
\<close>

datatype login_task =
    Finding string bytes
  | Acquiring string bytes account_row
  | Hashing string bytes account_row
  | Touching string account_row
  | Issuing string account_row

fun login_task_begin :: "login_work \<Rightarrow> login_task" where
  "login_task_begin (Authenticate_Login uid h) = Finding uid h"

text \<open>After the blocking task: the permit is dropped, then its result is looked at.\<close>

definition after_verify :: "string \<Rightarrow> account_row \<Rightarrow> (password_error + bool) option \<Rightarrow> login_task + login_outcome" where
  "after_verify uid row verified =
     (case verified of
        None \<Rightarrow> Inr LoginDbError
      | Some (Inl e) \<Rightarrow> Inr LoginDbError
      | Some (Inr False) \<Rightarrow> Inr (LoginFailure InvalidCredentials)
      | Some (Inr True) \<Rightarrow> if ar_status row = 1 then Inr (LoginFailure Banned) else Inl (Touching uid row))"

fun login_task_step :: "crypto \<Rightarrow> 'b login_backend \<Rightarrow> 'p semaphore \<Rightarrow> bool \<Rightarrow> login_task \<Rightarrow> 'b \<times> 'p \<Rightarrow>
    ((login_task + login_outcome) \<times> 'b \<times> 'p) option" where
  "login_task_step cr be sm joined (Finding uid h) (b, p) =
     (case find_account be uid b of
        (Inl e, b1) \<Rightarrow> Some (Inr LoginDbError, b1, p)
      | (Inr None, b1) \<Rightarrow> Some (Inr (LoginFailure InvalidCredentials), b1, p)
      | (Inr (Some row), b1) \<Rightarrow> Some (Inl (Acquiring uid h row), b1, p))"
| "login_task_step cr be sm joined (Acquiring uid h row) (b, p) =
     (case sm_try_acquire sm p of
        None \<Rightarrow> None
      | Some p' \<Rightarrow> Some (Inl (Hashing uid h row), b, p'))"
| "login_task_step cr be sm joined (Hashing uid h row) (b, p) =
     (let verified = (if joined then Some (verify cr h (ar_password_hash row) (ar_salt row)) else None)
      in Some (after_verify uid row verified, b, sm_release sm p))"
| "login_task_step cr be sm joined (Touching uid row) (b, p) =
     (case touch_last_login be (ar_account_id row) b of
        (Inl e, b1) \<Rightarrow> Some (Inr LoginDbError, b1, p)
      | (Inr _, b1) \<Rightarrow> Some (Inl (Issuing uid row), b1, p))"
| "login_task_step cr be sm joined (Issuing uid row) (b, p) =
     (case issue_token be (ar_account_id row) (ar_user_id row) b of
        (Inl e, b1) \<Rightarrow> Some (Inr (LoginFailure ServerError), b1, p)
      | (Inr None, b1) \<Rightarrow> Some (Inr (LoginFailure ServerError), b1, p)
      | (Inr (Some token), b1) \<Rightarrow> Some (Inr (LoginSuccess \<lparr>la_user_id = ar_user_id row\<rparr> token), b1, p))"

definition login_worker :: "crypto \<Rightarrow> 'd mysql \<Rightarrow> 'r redis \<Rightarrow> login_config \<Rightarrow> 'p semaphore \<Rightarrow>
    (login_outcome, login_work, login_task, ('d \<times> 'r) \<times> 'p) worker" where
  "login_worker cr db rd cfg sm =
     \<lparr>wk_begin = login_task_begin,
      wk_step = (\<lambda>env. login_task_step cr (login_mysql_redis db rd cfg (te_now env) (te_uuid env)) sm
        (te_joined env))\<rparr>"

section \<open>GameServer's tasks\<close>

text \<open>They await the backend once.\<close>

definition game_worker :: "'d mysql \<Rightarrow> 'r redis \<Rightarrow> string \<Rightarrow>
    (game_inner_message, game_work, game_work, 'd \<times> 'r) worker" where
  "game_worker db rd auth_token_prefix =
     \<lparr>wk_begin = (\<lambda>work. work),
      wk_step = (\<lambda>env work b.
        case game_perform (game_mysql_redis db rd auth_token_prefix (te_now env)) work b of
          (m, b') \<Rightarrow> Some (Inr m, b'))\<rparr>"

section \<open>One login task by itself\<close>

fun run_task :: "('t \<Rightarrow> 'b \<Rightarrow> (('t + 'i) \<times> 'b) option) \<Rightarrow> nat \<Rightarrow> 't \<Rightarrow> 'b \<Rightarrow> ('i \<times> 'b) option" where
  "run_task step 0 t b = None"
| "run_task step (Suc n) t b =
     (case step t b of
        None \<Rightarrow> None
      | Some (Inl t', b') \<Rightarrow> run_task step n t' b'
      | Some (Inr m, b') \<Rightarrow> Some (m, b'))"

text \<open>
  The steps of a login task compose to \<open>login_authenticate\<close>: run by itself while a permit is free it
  ends within five steps, with that function's outcome and stores, and gives its permit back.
\<close>

theorem login_task_alone:
  assumes "semaphore_laws sm" and "sm_available sm p \<noteq> 0"
  shows "\<exists>p'. run_task (login_task_step cr be sm joined) 5 (login_task_begin (Authenticate_Login uid h)) (b, p) =
      Some (fst (login_authenticate cr be joined uid h b), snd (login_authenticate cr be joined uid h b), p') \<and>
    sm_available sm p' = sm_available sm p"
proof -
  obtain q where q: "sm_try_acquire sm p = Some q" "sm_available sm p = Suc (sm_available sm q)"
    using assms(2) semaphore_lawsD(2,3) [OF assms(1)] by (cases "sm_try_acquire sm p") auto
  obtain a b1 where a: "find_account be uid b = (a, b1)" by (rule prod.exhaust)
  consider (none) "\<forall>row. a \<noteq> Inr (Some row)" | (some) row where "a = Inr (Some row)" by blast
  then show ?thesis
  proof cases
    case none
    with a show ?thesis
      by (cases a) (auto simp: login_authenticate_def eval_nat_numeral)
  next
    case some
    let ?v = "if joined then Some (verify cr h (ar_password_hash row) (ar_salt row)) else None"
    show ?thesis
    proof (cases "after_verify uid row ?v")
      case (Inr m)
      with a some q semaphore_lawsD(4) [OF assms(1)] show ?thesis
        by (auto simp: login_authenticate_def eval_nat_numeral after_verify_def Let_def
            split: if_splits sum.splits bool.splits)
    next
      case (Inl t)
      then have t: "t = Touching uid row" "joined" "verify cr h (ar_password_hash row) (ar_salt row) = Inr True"
        "ar_status row \<noteq> 1"
        by (auto simp: after_verify_def split: if_splits sum.splits bool.splits)
      with a some q semaphore_lawsD(4) [OF assms(1)] Inl show ?thesis
        by (simp add: login_authenticate_def eval_nat_numeral)
          (simp add: after_verify_def split: prod.split sum.split option.split)
    qed
  qed
qed

section \<open>The hash limiter\<close>

text \<open>What a task holds, and the steps it has left at most.\<close>

fun permits_held :: "login_task + login_outcome \<Rightarrow> nat" where
  "permits_held (Inl (Hashing uid h row)) = 1"
| "permits_held _ = 0"

fun steps_left :: "login_task + login_outcome \<Rightarrow> nat" where
  "steps_left (Inl (Finding uid h)) = 5"
| "steps_left (Inl (Acquiring uid h row)) = 4"
| "steps_left (Inl (Hashing uid h row)) = 3"
| "steps_left (Inl (Touching uid row)) = 2"
| "steps_left (Inl (Issuing uid row)) = 1"
| "steps_left (Inr m) = 0"

definition task_sum :: "('a \<Rightarrow> nat) \<Rightarrow> (u64 \<times> 'a) list \<Rightarrow> nat" where
  "task_sum f ts = (\<Sum>x\<leftarrow>ts. f (snd x))"

lemma task_sum_simps [simp]:
  "task_sum f [] = 0"
  "task_sum f (x # ts) = f (snd x) + task_sum f ts"
  "task_sum f (ts @ us) = task_sum f ts + task_sum f us"
  by (simp_all add: task_sum_def)

lemma task_sum_update:
  "k < length ts \<Longrightarrow> ts ! k = (i, x) \<Longrightarrow> task_sum f (ts[k := (j, y)]) + f x = task_sum f ts + f y"
  by (induction ts arbitrary: k) (auto split: nat.split simp: less_Suc_eq_0_disj)

lemma task_sum_remove:
  "k < length ts \<Longrightarrow> ts ! k = (i, x) \<Longrightarrow> task_sum f (take k ts @ drop (Suc k) ts) + f x = task_sum f ts"
  by (induction ts arbitrary: k) (auto simp: less_Suc_eq_0_disj add.assoc)

lemma permits_begin [simp]: "permits_held (Inl (login_task_begin x)) = 0"
  by (cases x) simp

lemma task_sum_begun: "task_sum permits_held (map (\<lambda>x. (i, Inl (login_task_begin x))) xs) = 0"
  by (induction xs) simp_all

lemma login_worker_simps [simp]:
  "wk_begin (login_worker cr db rd cfg sm) = login_task_begin"
  "wk_step (login_worker cr db rd cfg sm) env = login_task_step cr
     (login_mysql_redis db rd cfg (te_now env) (te_uuid env)) sm (te_joined env)"
  by (simp_all add: login_worker_def)

lemma login_task_step_accounts:
  assumes "semaphore_laws sm" and "login_task_step cr be sm joined t (b, p) = Some (res, b', p')"
  shows "permits_held res + sm_available sm p' = permits_held (Inl t) + sm_available sm p"
    and "steps_left res < steps_left (Inl t)"
  using assms(2) semaphore_lawsD(3,4) [OF assms(1)]
  by (cases t; auto simp: after_verify_def Let_def
      split: prod.splits sum.splits option.splits bool.splits if_splits)+

end
