(* ===== verification/Hash_Limiter.thy ===== *)
theory Hash_Limiter
  imports Tasks
begin

text \<open>
  LoginServer with its login tasks: the semaphore \<open>hash_limiter\<close> of \<open>login_server/src/session.rs\<close> bounds
  the password checks that run at once, no permit is lost, and no login task waits for ever.
\<close>

section \<open>The permits\<close>

abbreviation login_host_step where
  "login_host_step mp kt tx cr db rd cfg sm \<equiv>
     host_step (login_actor mp kt) (login_service mp tx) (login_worker cr db rd cfg sm)"

abbreviation login_host_run where
  "login_host_run mp kt tx cr db rd cfg sm stores cores \<equiv>
     host_run (login_actor mp kt) (login_service mp tx) (login_worker cr db rd cfg sm)
       (stores, lx_hash_limiter (login_context_new sm cores :: (u64, _) login_context))"

type_synonym 'c login_host = "('c login_session, login_outcome, login_work, login_task) host"

definition permits_of :: "nat option \<Rightarrow> nat" where
  "permits_of cores = (case cores of None \<Rightarrow> 4 | Some n \<Rightarrow> n)"

definition permits_inv :: "'p semaphore \<Rightarrow> nat \<Rightarrow> 'c login_host \<times> 'b \<times> 'p \<Rightarrow> bool" where
  "permits_inv sm n hb \<longleftrightarrow>
     task_sum permits_held (ho_tasks (fst hb)) + sm_available sm (snd (snd hb)) = n"

lemma permits_inv_step:
  assumes "semaphore_laws sm" and "login_host_step mp kt tx cr db rd cfg sm (h, b) ev hb'"
    and "permits_inv sm n (h, b)"
  shows "permits_inv sm n hb'"
  using assms(2)
proof (cases rule: host_stepE)
  case (work k h' i t env b1 res b')
  then show ?thesis
    using assms(3) login_task_step_accounts(1) [OF assms(1)] task_sum_update [of k "ho_tasks h'" i "Inl t" permits_held i res]
    by (cases b1; cases b') (fastforce simp: permits_inv_def)
next
  case (send k h' i m)
  then show ?thesis using assms(3) task_sum_remove [of k "ho_tasks h'" i "Inr m" permits_held]
    by (simp add: permits_inv_def)
qed (use assms(3) in \<open>auto simp: permits_inv_def session_turn_tasks task_sum_begun\<close>)

lemma permits_inv_run:
  assumes "semaphore_laws sm" and "login_host_run mp kt tx cr db rd cfg sm stores cores tr hb"
  shows "permits_inv sm (permits_of cores) hb"
  using assms(2)
proof (induction rule: host_run.induct)
  case start
  then show ?case using semaphore_lawsD(1) [OF assms(1)] 
    by (simp add: permits_inv_def host_start_def login_context_new_def Let_def permits_of_def)
next
  case (step tr hb ev hb')
  then show ?case using permits_inv_step [OF assms(1)] by (metis surj_pair)
qed

text \<open>The password checks that run.\<close>

definition checks_running :: "'c login_host \<Rightarrow> nat" where
  "checks_running h = length (filter (\<lambda>x. \<exists>uid hs row. snd x = Inl (Hashing uid hs row)) (ho_tasks h))"

lemma permits_held_checks: "task_sum permits_held (ho_tasks h) = checks_running h"
proof -
  have "task_sum permits_held ts = length (filter (\<lambda>x. \<exists>uid hs row. snd x = Inl (Hashing uid hs row)) ts)" for ts
  proof (induction ts)
    case (Cons x ts)
    then show ?case by (cases "snd x" rule: permits_held.cases) auto
  qed simp
  then show ?thesis by (simp add: checks_running_def)
qed

text \<open>
  C9. In every state LoginServer can reach, the password checks that run and the free permits of the
  limiter add up to the number the context was made with: so at most one check runs per core (four
  where the number of cores is not known), however many clients ask, and no permit is ever lost.
\<close>

theorem hash_limiter_bounds:
  assumes "semaphore_laws sm" and "login_host_run mp kt tx cr db rd cfg sm stores cores tr (h, st, p)"
  shows "checks_running h + sm_available sm p = (case cores of None \<Rightarrow> 4 | Some n \<Rightarrow> n)"
  using permits_inv_run [OF assms] by (simp add: permits_inv_def permits_held_checks permits_of_def)

section \<open>Every task ends\<close>

definition login_work_step where
  "login_work_step mp kt tx cr db rd cfg sm hb hb' \<longleftrightarrow>
     (\<exists>i env t res. login_host_step mp kt tx cr db rd cfg sm hb (Work_Event i env t res) hb')"

lemma work_event_step:
  assumes "login_host_step mp kt tx cr db rd cfg sm (h, b) (Work_Event i env t res) hb'"
  obtains k b' where "k < length (ho_tasks h)" "ho_tasks h ! k = (i, Inl t)"
    "login_task_step cr (login_mysql_redis db rd cfg (te_now env) (te_uuid env)) sm (te_joined env) t b = Some (res, b')"
    "hb' = (h\<lparr>ho_tasks := (ho_tasks h)[k := (i, res)]\<rparr>, b')"
  using assms by (cases rule: host_stepE) auto

lemma login_work_decreases:
  assumes "semaphore_laws sm" and "login_work_step mp kt tx cr db rd cfg sm hb hb'"
  shows "task_sum steps_left (ho_tasks (fst hb')) < task_sum steps_left (ho_tasks (fst hb))"
proof -
  obtain h b p where hb: "hb = (h, b, p)" by (metis surj_pair)
  with assms(2) obtain i env t res
    where "login_host_step mp kt tx cr db rd cfg sm (h, b, p) (Work_Event i env t res) hb'"
    by (auto simp: login_work_step_def)
  then obtain k b' where k: "k < length (ho_tasks h)" "ho_tasks h ! k = (i, Inl t)"
    and s: "login_task_step cr (login_mysql_redis db rd cfg (te_now env) (te_uuid env)) sm (te_joined env) t (b, p) =
      Some (res, b')"
    and hb': "hb' = (h\<lparr>ho_tasks := (ho_tasks h)[k := (i, res)]\<rparr>, b')"
    by (rule work_event_step)
  have "steps_left res < steps_left (Inl t)" using login_task_step_accounts(2) [OF assms(1)] s by (cases b') auto
  with task_sum_update [OF k, of steps_left i res] show ?thesis by (simp add: hb hb')
qed

lemma steps_left_le: "steps_left t \<le> 5"
  by (cases t rule: steps_left.cases) auto

lemma task_sum_le: "(\<And>t. f t \<le> n) \<Longrightarrow> task_sum f ts \<le> n * length ts"
  by (induction ts) (simp_all add: add_mono)

text \<open>A task that cannot take its step waits for a permit, so another holds one and can.\<close>

lemma login_task_blocked:
  assumes "semaphore_laws sm" and "login_task_step cr be sm joined t (b, p) = None"
  shows "(\<exists>uid hs row. t = Acquiring uid hs row) \<and> sm_available sm p = 0"
  using assms(2) semaphore_lawsD(2) [OF assms(1)]
  by (cases t) (auto simp: Let_def split: prod.splits sum.splits option.splits)

lemma login_work_possible:
  assumes "semaphore_laws sm" and "permits_inv sm n (h, b, p)" and "0 < n"
    and "x \<in> set (ho_tasks h)" "snd x = Inl t"
  shows "\<exists>hb'. login_work_step mp kt tx cr db rd cfg sm (h, b, p) hb'"
proof -
  have goes: "\<exists>hb'. login_work_step mp kt tx cr db rd cfg sm (h, b, p) hb'"
    if y: "y \<in> set (ho_tasks h)" "snd y = Inl u"
      and s: "login_task_step cr (login_mysql_redis db rd cfg now uuid) sm joined u (b, p) \<noteq> None" for y u now uuid joined
  proof -
    obtain k where k: "k < length (ho_tasks h)" "ho_tasks h ! k = (fst y, Inl u)"
      using y by (metis in_set_conv_nth prod.collapse)
    obtain res b' where "wk_step (login_worker cr db rd cfg sm) \<lparr>te_now = now, te_uuid = uuid, te_joined = joined\<rparr> u (b, p) =
      Some (res, b')" using s by auto
    from host_step.work [OF k this] show ?thesis unfolding login_work_step_def by blast
  qed
  show ?thesis
  proof (cases "login_task_step cr (login_mysql_redis db rd cfg 0 []) sm True t (b, p)")
    case None
    have "sm_available sm p = 0" using login_task_blocked [OF assms(1) None] by blast
    with assms(2,3) have "checks_running h \<noteq> 0" by (simp add: permits_inv_def permits_held_checks)
    then obtain y uid hs row where y: "y \<in> set (ho_tasks h)" "snd y = Inl (Hashing uid hs row)"
      by (auto simp: checks_running_def filter_empty_conv)
    have "login_task_step cr (login_mysql_redis db rd cfg 0 []) sm True (Hashing uid hs row) (b, p) \<noteq> None"
      by (simp add: Let_def)
    with goes [OF y] show ?thesis .
  next
    case (Some r)
    with goes [OF assms(4,5)] show ?thesis by (metis option.distinct(1))
  qed
qed


lemma login_work_relpow:
  assumes "semaphore_laws sm" and "(login_work_step mp kt tx cr db rd cfg sm ^^ m) hb hb'" and "permits_inv sm n hb"
  shows "permits_inv sm n hb' \<and> m + task_sum steps_left (ho_tasks (fst hb')) \<le> task_sum steps_left (ho_tasks (fst hb))"
  using assms(2)
proof (induction m arbitrary: hb')
  case 0
  with assms(3) show ?case by simp
next
  case (Suc m)
  then obtain hb1 where one: "(login_work_step mp kt tx cr db rd cfg sm ^^ m) hb hb1"
    and s: "login_work_step mp kt tx cr db rd cfg sm hb1 hb'" by auto
  have "permits_inv sm n hb'"
    using s Suc.IH [OF one] permits_inv_step [OF assms(1)] unfolding login_work_step_def by (metis prod.collapse)
  with Suc.IH [OF one] login_work_decreases [OF assms(1) s] show ?case by simp
qed

text \<open>
  C8. No login task waits for ever. Whatever state LoginServer is in and in whatever order its tasks
  take their steps, they take at most five each; and when none can take one, each has its outcome and
  every permit is free again. So no two tasks ever wait for each other.
\<close>

theorem login_tasks_finish:
  assumes "semaphore_laws sm" and "login_host_run mp kt tx cr db rd cfg sm stores cores tr hb"
    and "cores \<noteq> Some 0"
    and "(login_work_step mp kt tx cr db rd cfg sm ^^ m) hb (h', b', p')"
  shows "m \<le> 5 * length (ho_tasks (fst hb)) \<and>
    ((\<nexists>hb''. login_work_step mp kt tx cr db rd cfg sm (h', b', p') hb'') \<longrightarrow>
      (\<forall>x\<in>set (ho_tasks h'). \<exists>outcome. snd x = Inr outcome) \<and> sm_available sm p' = permits_of cores)"
proof -
  have n: "0 < permits_of cores" using assms(3) by (auto simp: permits_of_def split: option.split)
  note r = login_work_relpow [OF assms(1,4) permits_inv_run [OF assms(1,2)]]
  have "m \<le> 5 * length (ho_tasks (fst hb))"
    using r task_sum_le [of steps_left 5 "ho_tasks (fst hb)"] steps_left_le by simp
  moreover have "(\<forall>x\<in>set (ho_tasks h'). \<exists>outcome. snd x = Inr outcome) \<and> sm_available sm p' = permits_of cores"
    if stuck: "\<nexists>hb''. login_work_step mp kt tx cr db rd cfg sm (h', b', p') hb''"
  proof -
    have finished: "\<exists>outcome. snd x = Inr outcome" if "x \<in> set (ho_tasks h')" for x
      using login_work_possible [OF assms(1) conjunct1 [OF r] n that] stuck by (cases "snd x") blast+
    then have "checks_running h' = 0" by (force simp: checks_running_def filter_empty_conv)
    with finished r show ?thesis by (simp add: permits_inv_def permits_held_checks)
  qed
  ultimately show ?thesis by blast
qed

section \<open>A login, for the witnesses\<close>

text \<open>One client of LoginServer asks to log in; the limiter has one permit.\<close>

definition asked_session :: "(message_wrapper list \<times> bool) login_session" where
  "asked_session = (login_session_new 1 \<lparr>ob_session_id = 1, ob_tx = ([outgoing (ConnectedResponse 0)], False)\<rparr> 0)
     \<lparr>ls_login_window := Some 0, ls_login_attempts := 1\<rparr>"

definition asking_host :: "(u64 \<times> (login_task + login_outcome)) list \<Rightarrow> (message_wrapper list \<times> bool) login_host" where
  "asking_host ts =
     \<lparr>ho_server = \<lparr>sv_next_id = 1, sv_running = [1 \<mapsto> asked_session],
        sv_world = \<lparr>registry = register 1 1 registry_default, cancelled = {},
          spawned = [Authenticate_Login ''u'' [1]]\<rparr>\<rparr>,
      ho_tasks = ts, ho_inbox = (\<lambda>_. [])\<rparr>"

abbreviation sample_login_run where
  "sample_login_run \<equiv> login_host_run sample_mpsc KEEP_ALIVE_TIMEOUT ([], False) toy_crypto sample_mysql map_redis
     sample_config counter_semaphore ([], Map.empty) (Some 1)"

definition sample_asking :: "(login_outcome, login_task) host_event list" where
  "sample_asking = [Accept_Event 0, Poll_Event 1 (frame_at 0 (LoginRequest ''u'' [1]))]"

definition now_env :: "instant \<Rightarrow> string \<Rightarrow> task_env" where
  "now_env now uuid = \<lparr>te_now = now, te_uuid = uuid, te_joined = True\<rparr>"

lemma sample_login_start: "sc_start (login_service sample_mpsc ([], False)) 0 1 0 w =
    (1, login_session_new 1 \<lparr>ob_session_id = 1, ob_tx = ([outgoing (ConnectedResponse 0)], False)\<rparr> 0,
     w\<lparr>registry := register 1 1 (registry w)\<rparr>)"
  by (simp add: login_service_def login_run_start_def generate_def login_session_new_def outbox_send_def sample_defs
      outgoing_def const_defs)

lemma sample_request: "loop_step (login_actor sample_mpsc t) 1 (frame_at 0 (LoginRequest ''u'' [1]))
    (login_session_new 1 ob 0, \<lparr>registry = r, cancelled = {}, spawned = []\<rparr>) =
   (Continue, (login_session_new 1 ob 0)\<lparr>ls_login_window := Some 0, ls_login_attempts := 1\<rparr>,
    \<lparr>registry = r, cancelled = {}, spawned = [Authenticate_Login ''u'' [1]]\<rparr>)"
  by (simp add: loop_step_polls login_step_simps(1,2) receive_from_def login_handler_defs try_consume_login_attempt_def
      LOGIN_ATTEMPTS_PER_WINDOW_def login_session_new_def outgoing_def spawn_def login_no_takes)

lemma sample_asked: "sample_login_run sample_asking (asking_host [(1, Inl (Finding ''u'' [1]))], ([], Map.empty), Suc 0)"
proof -
  let ?s = "login_session_new 1 \<lparr>ob_session_id = 1, ob_tx = ([outgoing (ConnectedResponse 0)], False)\<rparr> 0"
  let ?w = "\<lparr>registry = register 1 1 registry_default, cancelled = {}, spawned = []\<rparr>"
  let ?h = "\<lparr>ho_server = \<lparr>sv_next_id = 1, sv_running = [1 \<mapsto> ?s], sv_world = ?w\<rparr>, ho_tasks = [], ho_inbox = (\<lambda>_. [])\<rparr>"
  let ?b = "(([], Map.empty), Suc 0)"
  have limiter: "lx_hash_limiter (login_context_new counter_semaphore (Some 1) :: (u64, nat) login_context) = Suc 0"
    by (simp add: login_context_new_def counter_semaphore_def)
  have start: "sample_login_run [] (host_start, ?b)" unfolding limiter by (rule host_run.start)
  have accept: "login_host_step sample_mpsc KEEP_ALIVE_TIMEOUT ([], False) toy_crypto sample_mysql map_redis
      sample_config counter_semaphore (host_start, ?b) (Accept_Event 0) (?h, ?b)"
    using host_step.accept [OF refl, of "login_service sample_mpsc ([], False)" host_start 0 1 ?s ?w]
    by (simp add: sample_login_start host_start_def server_start_def world_new_def)
  have poll: "login_host_step sample_mpsc KEEP_ALIVE_TIMEOUT ([], False) toy_crypto sample_mysql map_redis
      sample_config counter_semaphore (?h, ?b) (Poll_Event 1 (frame_at 0 (LoginRequest ''u'' [1])))
      (asking_host [(1, Inl (Finding ''u'' [1]))], ?b)"
  proof -
    let ?p = "frame_at 0 (LoginRequest ''u'' [1])"
    have turn: "session_turn (login_actor sample_mpsc KEEP_ALIVE_TIMEOUT) (login_service sample_mpsc ([], False))
        (login_worker toy_crypto sample_mysql map_redis sample_config counter_semaphore) 1 ?p ?s ?h =
      asking_host [(1, Inl (Finding ''u'' [1]))]"
      by (simp add: session_turn_def Let_def sample_request newly_spawned_def asking_host_def asked_session_def
          fun_eq_iff)
    show ?thesis unfolding turn [symmetric] by (rule host_step.poll) (simp_all add: inner_ready_def frame_at_def)
  qed
  from host_run.step [OF host_run.step [OF start accept] poll] show ?thesis by (simp add: sample_asking_def)
qed


lemma sample_work:
  assumes "login_task_step toy_crypto (login_mysql_redis sample_mysql map_redis sample_config (te_now env) (te_uuid env))
      counter_semaphore (te_joined env) t b = Some (res, b')"
  shows "login_host_step sample_mpsc KEEP_ALIVE_TIMEOUT ([], False) toy_crypto sample_mysql map_redis
      sample_config counter_semaphore (asking_host [(1, Inl t)], b) (Work_Event 1 env t res) (asking_host [(1, res)], b')"
  using host_step.work [of 0 "asking_host [(1, Inl t)]" 1 t "login_worker toy_crypto sample_mysql map_redis
      sample_config counter_semaphore" env b res b'] assms
  by (simp add: asking_host_def)

text \<open>Its task looks up the account and gets the permit.\<close>

lemma sample_find: "login_task_step toy_crypto (login_mysql_redis sample_mysql map_redis sample_config now uuid)
    counter_semaphore joined (Finding ''u'' [1]) (([], r), p) = Some (Inl (Acquiring ''u'' [1] sample_row), ([], r), p)"
  by (simp add: login_mysql_redis_def sample_mysql_def sample_columns_def account_of_columns_def)
    (simp add: sample_row_def)

lemma sample_acquire: "login_task_step cr be counter_semaphore joined (Acquiring uid h row) (b, Suc p) =
    Some (Inl (Hashing uid h row), b, p)"
  by (simp add: counter_semaphore_def)

lemma now_env_simps [simp]:
  "te_now (now_env now uuid) = now" "te_uuid (now_env now uuid) = uuid" "te_joined (now_env now uuid)"
  by (simp_all add: now_env_def)

lemma sample_hash:
  assumes "joined"
  shows "login_task_step toy_crypto be counter_semaphore joined (Hashing ''u'' [1] sample_row) (b, p) =
    Some (Inl (Touching ''u'' sample_row), b, Suc p)"
  using assms sample_verify [of "[1]"]
  by (simp add: after_verify_def counter_semaphore_def) (simp add: sample_row_def)

lemma sample_touch: "login_task_step cr (login_mysql_redis sample_mysql rd cfg now uuid) sm joined
    (Touching ''u'' sample_row) (([], r), p) = Some (Inl (Issuing ''u'' sample_row), ([], r), p)"
  by (simp add: login_mysql_redis_def sample_mysql_def)

lemma sample_issue: "login_task_step cr (login_mysql_redis sample_mysql map_redis sample_config now uuid) sm joined
    (Issuing ''u'' sample_row) (([], r), p) =
    Some (Inr (LoginSuccess \<lparr>la_user_id = ''u''\<rparr> uuid),
      ([], r(''p:'' @ uuid \<mapsto> (token_value 7 ''u'', now + from_secs 30))), p)"
  by (simp add: login_mysql_redis_def sample_config_def sample_row_def token_defs map_redis_def)

definition sample_checking_trace :: "(login_outcome, login_task) host_event list" where
  "sample_checking_trace = sample_asking @
     [Work_Event 1 (now_env 1 []) (Finding ''u'' [1]) (Inl (Acquiring ''u'' [1] sample_row)),
      Work_Event 1 (now_env 1 []) (Acquiring ''u'' [1] sample_row) (Inl (Hashing ''u'' [1] sample_row))]"

lemma sample_checking:
  "sample_login_run sample_checking_trace (asking_host [(1, Inl (Hashing ''u'' [1] sample_row))], ([], Map.empty), 0)"
  using host_run.step [OF host_run.step [OF sample_asked
      sample_work [where env = "now_env 1 []", OF sample_find]]
      sample_work [where env = "now_env 1 []", OF sample_acquire]]
  by (simp add: sample_checking_trace_def)

theorem hash_limiter_bounds_witness:
  "checks_running (asking_host [(1, Inl (Hashing ''u'' [1] sample_row))]) = 1"
  using hash_limiter_bounds [OF semaphore_laws_counter sample_checking]
  by (simp add: counter_semaphore_def)

text \<open>From there the task ends within three steps.\<close>

theorem login_tasks_finish_witness:
  "\<exists>b'. (login_work_step sample_mpsc KEEP_ALIVE_TIMEOUT ([], False) toy_crypto sample_mysql map_redis sample_config
      counter_semaphore ^^ 3) (asking_host [(1, Inl (Hashing ''u'' [1] sample_row))], ([], Map.empty), 0)
      (asking_host [(1, Inr (LoginSuccess \<lparr>la_user_id = ''u''\<rparr> ''x''))], b', 1) \<and> 3 \<le> (5 * 1 :: nat) \<and>
    sm_available counter_semaphore 1 = permits_of (Some 1)"
proof -
  let ?step = "login_work_step sample_mpsc KEEP_ALIVE_TIMEOUT ([], False) toy_crypto sample_mysql map_redis sample_config
      counter_semaphore"
  let ?h = "asking_host [(1, Inl (Hashing ''u'' [1] sample_row))]"
    and ?h' = "asking_host [(1, Inr (LoginSuccess \<lparr>la_user_id = ''u''\<rparr> ''x''))]"
  let ?b' = "([], Map.empty(''p:'' @ ''x'' \<mapsto> (token_value 7 ''u'', 1 + from_secs 30)))"
  have "?step (?h, ([], Map.empty), 0) (asking_host [(1, Inl (Touching ''u'' sample_row))], ([], Map.empty), Suc 0)"
    unfolding login_work_step_def
    by (intro exI) (rule sample_work [where env = "now_env 1 ''x''", OF sample_hash], simp)
  moreover have "?step (asking_host [(1, Inl (Touching ''u'' sample_row))], ([], Map.empty), Suc 0)
      (asking_host [(1, Inl (Issuing ''u'' sample_row))], ([], Map.empty), Suc 0)"
    unfolding login_work_step_def by (intro exI) (rule sample_work [where env = "now_env 1 ''x''", OF sample_touch])
  moreover have "?step (asking_host [(1, Inl (Issuing ''u'' sample_row))], ([], Map.empty), Suc 0) (?h', ?b', Suc 0)"
    using sample_work [where env = "now_env 1 ''x''", OF sample_issue] unfolding login_work_step_def
    by (simp, blast)
  ultimately have three: "(?step ^^ 3) (?h, ([], Map.empty), 0) (?h', ?b', Suc 0)"
    by (auto simp: eval_nat_numeral)
  have "\<nexists>hb''. ?step (?h', ?b', Suc 0) hb''"
    by (auto simp: login_work_step_def elim!: work_event_step) (simp add: asking_host_def)
  with login_tasks_finish [OF semaphore_laws_counter sample_checking _ three] three show ?thesis
    by (auto simp: asking_host_def)
qed

end
