(* ===== verification/Provenance.thy ===== *)
theory Provenance
  imports Tasks
begin

text \<open>
  Where the things in a server come from, over all its sessions and tasks at once: each login task from
  a request of its session's client, each step of it from the one before; each account a GameServer
  session has from a token its client showed; each score task from an account of its session. The
  facts are about the events of the host so far, and every step keeps them.
\<close>

section \<open>LoginServer\<close>

type_synonym login_event = "(login_outcome, login_task) host_event"

definition requested :: "login_event list \<Rightarrow> u64 \<Rightarrow> string \<Rightarrow> bytes \<Rightarrow> bool" where
  "requested tr j uid h \<longleftrightarrow> (\<exists>p m. Poll_Event j p \<in> set tr \<and> p_frame p = Some (Message m) \<and>
     wrapped m = Some (LoginRequest uid h))"

definition found :: "login_event list \<Rightarrow> u64 \<Rightarrow> string \<Rightarrow> account_row \<Rightarrow> bool" where
  "found tr j uid row \<longleftrightarrow> (\<exists>env h. Work_Event j env (Finding uid h) (Inl (Acquiring uid h row)) \<in> set tr)"

definition issuing :: "login_event list \<Rightarrow> u64 \<Rightarrow> string \<Rightarrow> account_row \<Rightarrow> string \<Rightarrow> bool" where
  "issuing tr j uid row token \<longleftrightarrow>
     (\<exists>env res. Work_Event j env (Issuing uid row) res \<in> set tr \<and> te_uuid env = token)"

text \<open>The client gave the password of the row that was found for it, and is not banned.\<close>

definition passed :: "crypto \<Rightarrow> login_event list \<Rightarrow> u64 \<Rightarrow> string \<Rightarrow> account_row \<Rightarrow> bool" where
  "passed cr tr j uid row \<longleftrightarrow> (\<exists>h. requested tr j uid h \<and> found tr j uid row \<and>
     verify cr h (ar_password_hash row) (ar_salt row) = Inr True \<and> ar_status row \<noteq> 1)"

fun task_stems :: "crypto \<Rightarrow> login_event list \<Rightarrow> u64 \<Rightarrow> login_task + login_outcome \<Rightarrow> bool" where
  "task_stems cr tr j (Inl (Finding uid h)) \<longleftrightarrow> requested tr j uid h"
| "task_stems cr tr j (Inl (Acquiring uid h row)) \<longleftrightarrow> requested tr j uid h \<and> found tr j uid row"
| "task_stems cr tr j (Inl (Hashing uid h row)) \<longleftrightarrow> requested tr j uid h \<and> found tr j uid row"
| "task_stems cr tr j (Inl (Touching uid row)) \<longleftrightarrow> passed cr tr j uid row"
| "task_stems cr tr j (Inl (Issuing uid row)) \<longleftrightarrow> passed cr tr j uid row"
| "task_stems cr tr j (Inr outcome) \<longleftrightarrow> True"

definition login_stems :: "crypto \<Rightarrow> login_event list \<Rightarrow> ('s, login_outcome, 'w, login_task) host \<Rightarrow> bool" where
  "login_stems cr tr h \<longleftrightarrow>
     (\<forall>x\<in>set (ho_tasks h). task_stems cr tr (fst x) (snd x)) \<and>
     (\<forall>j uid row token. issuing tr j uid row token \<longrightarrow> passed cr tr j uid row)"

lemma login_events_mono:
  "requested tr j uid h \<Longrightarrow> requested (tr @ [ev]) j uid h"
  "found tr j uid row \<Longrightarrow> found (tr @ [ev]) j uid row"
  "passed cr tr j uid row \<Longrightarrow> passed cr (tr @ [ev]) j uid row"
  by (auto simp: requested_def found_def passed_def)

lemma task_stems_mono: "task_stems cr tr j t \<Longrightarrow> task_stems cr (tr @ [ev]) j t"
  by (cases "(cr, tr, j, t)" rule: task_stems.cases) (auto intro: login_events_mono)

text \<open>A session starts a login task only for a request it was just sent.\<close>

lemma login_newly_spawned:
  assumes "loop_step (login_actor mp kt) i p (s, w) = (f, s', w')" and "p_others p = []"
    and "x \<in> set (newly_spawned w w')"
  shows "\<exists>uid h m. x = Authenticate_Login uid h \<and> p_frame p = Some (Message m) \<and> wrapped m = Some (LoginRequest uid h)"
  using assms(1)
proof (cases rule: loop_step_cases)
  case none
  with assms(2,3) show ?thesis by (simp add: wake_def)
next
  case (remote m)
  with assms(2) have r: "login_on_remote mp (p_now p) m (writer_takes (login_actor mp kt) (p_taken p) s, w) = (f, s', w')"
    by (simp add: wake_def login_step_simps)
  show ?thesis
  proof (cases "\<exists>uid h. wrapped m = Some (LoginRequest uid h) \<and> spawned w' = spawned w @ [Authenticate_Login uid h]")
    case True
    with remote(1) assms(3) show ?thesis by auto
  next
    case False
    with r have "spawned w' = spawned w"
      by (auto simp: login_on_remote_def on_login_request_def send_login_failure_def Let_def
          dest!: login_send_flow_frame split: option.splits payload.splits if_splits prod.splits)
    with assms(3) show ?thesis by simp
  qed
next
  case (inner i)
  with assms(2) have "spawned w' = spawned w"
    by (auto simp: wake_def login_step_simps on_login_outcome_def send_login_failure_def dest!: login_send_flow_frame
        split: login_outcome.splits)
  with assms(3) show ?thesis by simp
qed

lemma login_task_stems_step:
  assumes step: "login_task_step cr be sm joined t bp = Some (res, bp')" and "task_stems cr tr j (Inl t)"
  shows "task_stems cr (tr @ [Work_Event j env t res]) j res"
  using assms
proof (cases bp; cases t)
  fix b p uid h
  assume "bp = (b, p)" "t = Finding uid h"
  with assms show ?thesis
    by (auto split: prod.splits sum.splits option.splits intro: login_events_mono)
      (auto simp: found_def intro: login_events_mono)
next
  fix b p uid h row
  assume "bp = (b, p)" "t = Hashing uid h row"
  with assms have "res = Inl (Touching uid row) \<and> passed cr tr j uid row \<or> (\<exists>m. res = Inr m)"
    by (auto simp: after_verify_def passed_def Let_def split: if_splits sum.splits bool.splits)
  then show ?thesis by (auto intro: login_events_mono)
qed (use assms in \<open>auto split: prod.splits sum.splits option.splits intro: login_events_mono\<close>)

lemma issuing_snoc:
  "issuing (tr @ [ev]) j uid row token \<longleftrightarrow>
    issuing tr j uid row token \<or> (\<exists>env res. ev = Work_Event j env (Issuing uid row) res \<and> te_uuid env = token)"
  by (auto simp: issuing_def)

lemma login_stemsI:
  assumes "login_stems cr tr h"
    and "\<And>x. x \<in> set (ho_tasks h') \<Longrightarrow> x \<in> set (ho_tasks h) \<or> task_stems cr (tr @ [ev]) (fst x) (snd x)"
    and "\<And>j env uid row res. ev = Work_Event j env (Issuing uid row) res \<Longrightarrow> passed cr tr j uid row"
  shows "login_stems cr (tr @ [ev]) h'"
  using assms unfolding login_stems_def issuing_snoc
  by (metis task_stems_mono login_events_mono(3))

lemma login_stems_step:
  assumes "host_step (login_actor mp kt) (login_service mp tx) (login_worker cr db rd cfg sm) (h, b) ev (h', b')"
    and I: "login_stems cr tr h"
  shows "login_stems cr (tr @ [ev]) h'"
  using assms(1)
proof (cases rule: host_stepE)
  case (poll h1 i s p)
  have "task_stems cr (tr @ [ev]) i (Inl (login_task_begin y))"
    if new: "y \<in> set (newly_spawned (sv_world (ho_server h)) (snd (snd (loop_step (login_actor mp kt) i p (s, sv_world (ho_server h))))))" for y
  proof -
    obtain f s' w where l: "loop_step (login_actor mp kt) i p (s, sv_world (ho_server h)) = (f, s', w)"
      by (metis prod_cases3)
    with new have "y \<in> set (newly_spawned (sv_world (ho_server h)) w)" by simp
    from login_newly_spawned [OF l \<open>p_others p = []\<close> this] obtain uid hs m where "y = Authenticate_Login uid hs"
      "p_frame p = Some (Message m)" "wrapped m = Some (LoginRequest uid hs)" by auto
    with poll show ?thesis by (auto simp: requested_def)
  qed
  with poll show ?thesis by (intro login_stemsI [OF I]) (auto simp: session_turn_tasks)
next
  case (work k h1 i t env b1 res b2)
  have "(i, Inl t) \<in> set (ho_tasks h)" using work by (metis nth_mem fst_conv)
  with I have t: "task_stems cr tr i (Inl t)" by (auto simp: login_stems_def)
  have "login_task_step cr (login_mysql_redis db rd cfg (te_now env) (te_uuid env)) sm (te_joined env) t b = Some (res, b')"
    using work by simp
  from login_task_stems_step [OF this t] work have res: "task_stems cr (tr @ [ev]) i res" by simp
  have "x \<in> set (ho_tasks h) \<or> task_stems cr (tr @ [ev]) (fst x) (snd x)" if "x \<in> set (ho_tasks h')" for x
    using that work res tasks_updated [of x "ho_tasks h" k "(i, res)"] by auto
  with work t show ?thesis by (intro login_stemsI [OF I]) auto
next
  case (send k h1 i m)
  then show ?thesis by (intro login_stemsI [OF I]) (auto dest: in_set_takeD in_set_dropD)
qed (use I in \<open>auto intro: login_stemsI\<close>)

section \<open>GameServer\<close>

type_synonym game_event = "(game_inner_message, game_work) host_event"

definition sent :: "game_event list \<Rightarrow> u64 \<Rightarrow> payload \<Rightarrow> bool" where
  "sent tr i message \<longleftrightarrow> (\<exists>p m. Poll_Event i p \<in> set tr \<and> p_frame p = Some (Message m) \<and> wrapped m = Some message)"

definition took :: "game_event list \<Rightarrow> u64 \<Rightarrow> string \<Rightarrow> string \<Rightarrow> bool" where
  "took tr i token v \<longleftrightarrow> (\<exists>env. Work_Event i env (TakeAuthToken token) (Inr (TokenTaken (Some v))) \<in> set tr)"

definition saving :: "game_event list \<Rightarrow> u64 \<Rightarrow> u64 \<Rightarrow> i32 \<Rightarrow> i32 \<Rightarrow> i32 \<Rightarrow> bool" where
  "saving tr i aid score kills secs \<longleftrightarrow> (\<exists>env res. Work_Event i env (SaveScore aid score kills secs) res \<in> set tr)"

text \<open>The session's client showed a token that was taken for it and had the value \<open>v\<close>; one that named \<open>a\<close>.\<close>

definition taken_for :: "game_event list \<Rightarrow> u64 \<Rightarrow> string \<Rightarrow> string \<Rightarrow> bool" where
  "taken_for tr i token v \<longleftrightarrow> sent tr i (GameConnectRequest token) \<and> took tr i token v"

definition named :: "game_event list \<Rightarrow> u64 \<Rightarrow> account \<Rightarrow> bool" where
  "named tr i a \<longleftrightarrow> (\<exists>token v. taken_for tr i token v \<and> parse_token_value v = Some a)"

definition owed :: "game_event list \<Rightarrow> u64 \<Rightarrow> u64 \<Rightarrow> i32 \<Rightarrow> i32 \<Rightarrow> i32 \<Rightarrow> bool" where
  "owed tr i aid score kills secs \<longleftrightarrow>
     sent tr i (GameOverReport score kills secs) \<and> (\<exists>a. named tr i a \<and> account_id a = aid)"

fun message_stems :: "game_event list \<Rightarrow> u64 \<Rightarrow> game_inner_message \<Rightarrow> bool" where
  "message_stems tr i (TokenTaken (Some v)) \<longleftrightarrow> (\<exists>token. taken_for tr i token v)"
| "message_stems tr i _ \<longleftrightarrow> True"

fun work_stems :: "game_event list \<Rightarrow> u64 \<Rightarrow> game_work + game_inner_message \<Rightarrow> bool" where
  "work_stems tr i (Inl (TakeAuthToken token)) \<longleftrightarrow> sent tr i (GameConnectRequest token)"
| "work_stems tr i (Inl (SaveScore aid score kills secs)) \<longleftrightarrow> owed tr i aid score kills secs"
| "work_stems tr i (Inr m) \<longleftrightarrow> message_stems tr i m"

definition session_stems :: "game_event list \<Rightarrow> u64 \<Rightarrow> 'c game_session \<Rightarrow> bool" where
  "session_stems tr i s \<longleftrightarrow> (\<forall>a. gs_account s = Some a \<longrightarrow> named tr i a)"

definition game_stems :: "game_event list \<Rightarrow> ('c game_session, game_inner_message, 'w, game_work) host \<Rightarrow> bool" where
  "game_stems tr h \<longleftrightarrow>
     (\<forall>x\<in>set (ho_tasks h). work_stems tr (fst x) (snd x)) \<and>
     (\<forall>i. \<forall>m\<in>set (ho_inbox h i). message_stems tr i m) \<and>
     (\<forall>i s. sv_running (ho_server h) i = Some s \<longrightarrow> session_stems tr i s) \<and>
     (\<forall>i aid score kills secs. saving tr i aid score kills secs \<longrightarrow> owed tr i aid score kills secs)"

lemma game_events_mono:
  "sent tr i x \<Longrightarrow> sent (tr @ [ev]) i x"
  "taken_for tr i token v \<Longrightarrow> taken_for (tr @ [ev]) i token v"
  "named tr i a \<Longrightarrow> named (tr @ [ev]) i a"
  "owed tr i aid score kills secs \<Longrightarrow> owed (tr @ [ev]) i aid score kills secs"
  "message_stems tr i m \<Longrightarrow> message_stems (tr @ [ev]) i m"
  "work_stems tr i t \<Longrightarrow> work_stems (tr @ [ev]) i t"
  "session_stems tr i s \<Longrightarrow> session_stems (tr @ [ev]) i s"
proof -
  show s: "sent tr i x \<Longrightarrow> sent (tr @ [ev]) i x" for x by (auto simp: sent_def)
  show t: "taken_for tr i token v \<Longrightarrow> taken_for (tr @ [ev]) i token v" for token v
    using s by (auto simp: taken_for_def took_def)
  show n: "named tr i a \<Longrightarrow> named (tr @ [ev]) i a" for a using t by (auto simp: named_def)
  show o: "owed tr i aid score kills secs \<Longrightarrow> owed (tr @ [ev]) i aid score kills secs" for aid score kills secs
    using s n by (auto simp: owed_def)
  show m: "message_stems tr i m \<Longrightarrow> message_stems (tr @ [ev]) i m" for m
    using t by (cases "(tr, i, m)" rule: message_stems.cases) auto
  show "work_stems tr i t \<Longrightarrow> work_stems (tr @ [ev]) i t"
    using s o m by (cases "(tr, i, t)" rule: work_stems.cases) auto
  show "session_stems tr i s \<Longrightarrow> session_stems (tr @ [ev]) i s" using n by (auto simp: session_stems_def)
qed

lemma saving_snoc:
  "saving (tr @ [ev]) i aid score kills secs \<longleftrightarrow> saving tr i aid score kills secs \<or>
    (\<exists>env res. ev = Work_Event i env (SaveScore aid score kills secs) res)"
  by (auto simp: saving_def)

lemma game_stemsI:
  assumes "game_stems tr h"
    and "\<And>x. x \<in> set (ho_tasks h') \<Longrightarrow> x \<in> set (ho_tasks h) \<or> work_stems (tr @ [ev]) (fst x) (snd x)"
    and "\<And>i m. m \<in> set (ho_inbox h' i) \<Longrightarrow> m \<in> set (ho_inbox h i) \<or> message_stems (tr @ [ev]) i m"
    and "\<And>i s. sv_running (ho_server h') i = Some s \<Longrightarrow>
      sv_running (ho_server h) i = Some s \<or> session_stems (tr @ [ev]) i s"
    and "\<And>i env aid score kills secs res. ev = Work_Event i env (SaveScore aid score kills secs) res \<Longrightarrow>
      owed tr i aid score kills secs"
  shows "game_stems (tr @ [ev]) h'"
proof -
  note old = assms(1) [unfolded game_stems_def]
  have "work_stems (tr @ [ev]) (fst x) (snd x)" if "x \<in> set (ho_tasks h')" for x
    using old assms(2) [OF that] game_events_mono(6) by blast
  moreover have "message_stems (tr @ [ev]) i m" if "m \<in> set (ho_inbox h' i)" for i m
    using old assms(3) [OF that] game_events_mono(5) by blast
  moreover have "session_stems (tr @ [ev]) i s" if "sv_running (ho_server h') i = Some s" for i s
    using old assms(4) [OF that] game_events_mono(7) by blast
  moreover have "owed (tr @ [ev]) i aid score kills secs" if "saving (tr @ [ev]) i aid score kills secs"
    for i aid score kills secs
    by (rule game_events_mono(4)) (use that old assms(5) in \<open>auto simp: saving_snoc\<close>)
  ultimately show ?thesis unfolding game_stems_def by blast
qed


text \<open>What one step of a session does with its account, and the tasks it starts.\<close>

lemma game_step_account:
  assumes "loop_step (game_actor mp kt) i p (s, w) = (f, s', w')" and "p_others p = []"
  shows "gs_account s' = gs_account s \<or>
    (\<exists>v a. p_inner p = Some (TokenTaken (Some v)) \<and> parse_token_value v = Some a \<and> gs_account s' = Some a)"
  using assms(1)
proof (cases rule: loop_step_cases)
  case none
  then show ?thesis by (auto simp: wake_def game_step_simps)
next
  case (remote m)
  then show ?thesis by (auto simp: wake_def game_step_simps dest: game_on_remote_fields)
next
  case (inner m)
  then show ?thesis
    by (auto simp: wake_def game_step_simps game_on_inner_def game_on_authenticated_def send_game_connect_def
        bind_eq_Some_conv dest!: game_send_flow_frame split: game_inner_message.splits option.splits)
qed

lemma game_newly_spawned:
  assumes "loop_step (game_actor mp kt) i p (s, w) = (f, s', w')" and "p_others p = []"
    and "x \<in> set (newly_spawned w w')"
  shows "\<exists>m. p_frame p = Some (Message m) \<and>
    ((\<exists>token. x = TakeAuthToken token \<and> wrapped m = Some (GameConnectRequest token)) \<or>
     (\<exists>a score kills secs. gs_account s = Some a \<and> x = SaveScore (account_id a) score kills secs \<and>
        wrapped m = Some (GameOverReport score kills secs)))"
  using assms(1)
proof (cases rule: loop_step_cases)
  case none
  with assms(2,3) show ?thesis by (simp add: wake_def)
next
  case (remote m)
  with assms(2) have r: "game_on_remote mp (p_now p) m (writer_takes (game_actor mp kt) (p_taken p) s, w) = (f, s', w')"
    by (simp add: wake_def game_step_simps)
  then have "spawned w' = spawned w \<or>
     (\<exists>token. wrapped m = Some (GameConnectRequest token) \<and> spawned w' = spawned w @ [TakeAuthToken token]) \<or>
     (\<exists>a score kills secs. gs_account s = Some a \<and> wrapped m = Some (GameOverReport score kills secs) \<and>
        spawned w' = spawned w @ [SaveScore (account_id a) score kills secs])"
    by (auto simp: game_on_remote_def on_game_connect_request_def on_game_over_report_def send_game_connect_def Let_def
        game_step_simps dest!: game_send_flow_frame split: option.splits payload.splits if_splits)
  with remote(1) assms(3) show ?thesis by auto
next
  case (inner m)
  with assms(2) have "spawned w' = spawned w"
    by (auto simp: wake_def game_step_simps game_on_inner_def game_on_authenticated_def send_game_connect_def
        dest!: game_send_flow_frame split: game_inner_message.splits option.splits)
  with assms(3) show ?thesis by simp
qed

lemma game_stems_poll:
  assumes I: "game_stems tr h" and run: "sv_running (ho_server h) i = Some s"
    and p: "p_others p = []" "inner_ready h i (p_inner p)" and begins: "\<And>x. wk_begin wk x = x"
  shows "game_stems (tr @ [Poll_Event i p]) (session_turn (game_actor mp kt) svc wk i p s h)"
proof -
  let ?tr = "tr @ [Poll_Event i p]"
  obtain f s' w where l: "loop_step (game_actor mp kt) i p (s, sv_world (ho_server h)) = (f, s', w)"
    by (metis prod_cases3)
  have s: "session_stems tr i s" using I run by (auto simp: game_stems_def)
  have "session_stems ?tr i s'"
  proof -
    have "named tr i a" if "p_inner p = Some (TokenTaken (Some v))" "parse_token_value v = Some a" for v a
    proof -
      have "TokenTaken (Some v) \<in> set (ho_inbox h i)"
        using p(2) that(1) by (cases "ho_inbox h i") (auto simp: inner_ready_def)
      with I have "message_stems tr i (TokenTaken (Some v))" unfolding game_stems_def by blast
      with that(2) show ?thesis by (auto simp: named_def)
    qed
    with game_step_account [OF l p(1)] s have "session_stems tr i s'" by (auto simp: session_stems_def)
    then show ?thesis by (rule game_events_mono)
  qed
  moreover have "work_stems ?tr i (Inl x)" if "x \<in> set (newly_spawned (sv_world (ho_server h)) w)" for x
  proof -
    from game_newly_spawned [OF l p(1) that] obtain m where m: "p_frame p = Some (Message m)" and
      "(\<exists>token. x = TakeAuthToken token \<and> wrapped m = Some (GameConnectRequest token)) \<or>
       (\<exists>a score kills secs. gs_account s = Some a \<and> x = SaveScore (account_id a) score kills secs \<and>
        wrapped m = Some (GameOverReport score kills secs))" by blast
    moreover have "sent ?tr i y" if "wrapped m = Some y" for y using m that by (auto simp: sent_def)
    moreover have "named ?tr i a" if "gs_account s = Some a" for a
      using s that by (auto simp: session_stems_def intro: game_events_mono)
    ultimately show ?thesis by (auto simp: owed_def)
  qed
  ultimately show ?thesis using l
    by (intro game_stemsI [OF I]) (auto simp: session_turn_tasks begins dest: session_turn_running
        dest!: subsetD [OF session_turn_inbox])
qed

lemma game_worker_simps [simp]:
  "wk_begin (game_worker db rd pfx) x = x"
  "wk_step (game_worker db rd pfx) env t b = Some (res, b') \<longleftrightarrow>
    (\<exists>m. game_perform (game_mysql_redis db rd pfx (te_now env)) t b = (m, b') \<and> res = Inr m)"
  by (auto simp: game_worker_def split: prod.split)

lemma game_perform_stems:
  assumes "work_stems tr i (Inl t)" and "game_perform be t b = (m, b')"
  shows "message_stems (tr @ [Work_Event i env t (Inr m)]) i m"
proof (cases "\<exists>token v. t = TakeAuthToken token \<and> m = TokenTaken (Some v)")
  case True
  then obtain token v where t: "t = TakeAuthToken token" "m = TokenTaken (Some v)" by blast
  with assms(1) have "sent (tr @ [Work_Event i env t (Inr m)]) i (GameConnectRequest token)"
    by (auto intro: game_events_mono)
  with t show ?thesis by (auto simp: taken_for_def took_def)
next
  case False
  with assms(2) show ?thesis
    by (cases t; cases "(tr, i, m)" rule: message_stems.cases) (auto split: prod.splits sum.splits)
qed

lemma game_stems_step:
  assumes "host_step (game_actor mp kt) (game_service mp tx) (game_worker db rd pfx) (h, b) ev (h', b')"
    and I: "game_stems tr h"
  shows "game_stems (tr @ [ev]) h'"
  using assms(1)
proof (cases rule: host_stepE)
  case accept
  then show ?thesis
    by (intro game_stemsI [OF I]) (auto simp: session_stems_def split: if_splits dest!: game_server.start)
next
  case (poll h1 i s p)
  then show ?thesis using I by (auto intro: game_stems_poll)
next
  case (work k h1 i t env b1 res b2)
  have "(i, Inl t) \<in> set (ho_tasks h)" using work by (metis nth_mem fst_conv)
  with I have t: "work_stems tr i (Inl t)" by (auto simp: game_stems_def)
  obtain m where "game_perform (game_mysql_redis db rd pfx (te_now env)) t b = (m, b')" "res = Inr m"
    using work by auto
  with game_perform_stems [OF t this(1)] work have res: "work_stems (tr @ [ev]) i res" by simp
  have "x \<in> set (ho_tasks h) \<or> work_stems (tr @ [ev]) (fst x) (snd x)" if "x \<in> set (ho_tasks h')" for x
    using that work res tasks_updated [of x "ho_tasks h" k "(i, res)"] by auto
  with work t show ?thesis by (intro game_stemsI [OF I]) auto
next
  case (send k h1 i m)
  have "(i, Inr m) \<in> set (ho_tasks h)" using send by (metis nth_mem fst_conv)
  with I have "message_stems tr i m" by (auto simp: game_stems_def)
  with send show ?thesis
    by (intro game_stemsI [OF I]) (auto dest!: deliver_set dest: in_set_takeD in_set_dropD intro: game_events_mono)
next
  case cancel
  then show ?thesis by (intro game_stemsI [OF I]) auto
qed

lemma stems_start: "login_stems cr [] host_start" "game_stems [] host_start"
  by (simp_all add: login_stems_def game_stems_def issuing_def saving_def host_start_def server_start_def)

end
