(* ===== verification/System.thy ===== *)
theory System
  imports Provenance Hash_Limiter
begin

text \<open>
  The whole system: LoginServer and GameServer, each with its sessions, tasks and channels, over one
  MySQL and one Redis, under one clock. Everything interleaves: a step of the system is a step of one
  of the servers, time passing, or somebody else's use of the stores that leaves the tokens alone
  (\<open>shared_redis_namespaces\<close> in \<open>Startup\<close> has that for the admin API).
\<close>

section \<open>The two servers and their stores\<close>

text \<open>What \<open>main\<close> of the servers builds them from; both have the same token prefix.\<close>

record ('c, 'd, 'r, 'p) deployment =
  su_mpsc :: "('c, message_wrapper) mpsc"
  su_tx :: 'c
  su_timeout :: duration
  su_crypto :: crypto
  su_mysql :: "'d mysql"
  su_redis :: "'r redis"
  su_config :: login_config
  su_semaphore :: "'p semaphore"
  su_cores :: "nat option"

record ('c, 'd, 'r, 'p) system =
  sy_now :: instant
  sy_login :: "('c login_session, login_outcome, login_work, login_task) host"
  sy_game :: "('c game_session, game_inner_message, game_work, game_work) host"
  sy_mysql :: 'd
  sy_redis :: 'r
  sy_permits :: 'p

definition system_start :: "('c, 'd, 'r, 'p) deployment \<Rightarrow> instant \<Rightarrow> 'd \<Rightarrow> 'r \<Rightarrow> ('c, 'd, 'r, 'p) system" where
  "system_start D now d r =
     \<lparr>sy_now = now, sy_login = host_start, sy_game = host_start, sy_mysql = d, sy_redis = r,
      sy_permits = lx_hash_limiter (login_context_new (su_semaphore D) (su_cores D) :: (u64, 'p) login_context)\<rparr>"

datatype system_event = At_Login login_event | At_Game game_event | Elsewhere

text \<open>An event happens now: whoever reads the clock in it reads the system's.\<close>

fun happens_at :: "instant \<Rightarrow> ('i, 't) host_event \<Rightarrow> bool" where
  "happens_at now (Accept_Event t) \<longleftrightarrow> t = now"
| "happens_at now (Poll_Event i p) \<longleftrightarrow> p_now p = now"
| "happens_at now (Work_Event i env t res) \<longleftrightarrow> te_now env = now"
| "happens_at now _ \<longleftrightarrow> True"

inductive system_step :: "('c, 'd, 'r, 'p) deployment \<Rightarrow> ('c, 'd, 'r, 'p) system \<Rightarrow> system_event \<Rightarrow>
    ('c, 'd, 'r, 'p) system \<Rightarrow> bool"
  for D where
  at_login: "host_step (login_actor (su_mpsc D) (su_timeout D)) (login_service (su_mpsc D) (su_tx D))
      (login_worker (su_crypto D) (su_mysql D) (su_redis D) (su_config D) (su_semaphore D))
      (sy_login s, (sy_mysql s, sy_redis s), sy_permits s) ev (h, (d, r), p) \<Longrightarrow>
    happens_at (sy_now s) ev \<Longrightarrow>
    system_step D s (At_Login ev) (s\<lparr>sy_login := h, sy_mysql := d, sy_redis := r, sy_permits := p\<rparr>)"
| at_game: "host_step (game_actor (su_mpsc D) (su_timeout D)) (game_service (su_mpsc D) (su_tx D))
      (game_worker (su_mysql D) (su_redis D) (lc_auth_token_prefix (su_config D)))
      (sy_game s, sy_mysql s, sy_redis s) ev (h, d, r) \<Longrightarrow>
    happens_at (sy_now s) ev \<Longrightarrow>
    system_step D s (At_Game ev) (s\<lparr>sy_game := h, sy_mysql := d, sy_redis := r\<rparr>)"
| elsewhere: "sy_now s \<le> now \<Longrightarrow>
    (\<And>t token. stored_token (su_redis D) (lc_auth_token_prefix (su_config D)) t token r =
      stored_token (su_redis D) (lc_auth_token_prefix (su_config D)) t token (sy_redis s)) \<Longrightarrow>
    system_step D s Elsewhere (s\<lparr>sy_now := now, sy_mysql := d, sy_redis := r\<rparr>)"

inductive system_run :: "('c, 'd, 'r, 'p) deployment \<Rightarrow> ('c, 'd, 'r, 'p) system \<Rightarrow> system_event list \<Rightarrow>
    ('c, 'd, 'r, 'p) system \<Rightarrow> bool"
  for D and s0 where
  start: "system_run D s0 [] s0"
| step: "system_run D s0 tr s \<Longrightarrow> system_step D s ev s' \<Longrightarrow> system_run D s0 (tr @ [ev]) s'"

text \<open>The events of each server, and the tokens issued and taken with their values.\<close>

fun login_part :: "system_event \<Rightarrow> login_event list" where
  "login_part (At_Login ev) = [ev]"
| "login_part _ = []"

fun game_part :: "system_event \<Rightarrow> game_event list" where
  "game_part (At_Game ev) = [ev]"
| "game_part _ = []"

definition login_events :: "system_event list \<Rightarrow> login_event list" where
  "login_events tr = concat (map login_part tr)"

definition game_events :: "system_event list \<Rightarrow> game_event list" where
  "game_events tr = concat (map game_part tr)"

fun issue_of :: "login_event \<Rightarrow> (string \<times> string) list" where
  "issue_of (Work_Event j env (Issuing uid row) res) =
     [(te_uuid env, token_value (ar_account_id row) (ar_user_id row))]"
| "issue_of _ = []"

fun take_of :: "game_event \<Rightarrow> (string \<times> string) list" where
  "take_of (Work_Event i env (TakeAuthToken token) (Inr (TokenTaken (Some v)))) = [(token, v)]"
| "take_of _ = []"

definition issues :: "system_event list \<Rightarrow> (string \<times> string) list" where
  "issues tr = concat (map issue_of (login_events tr))"

definition takes :: "system_event list \<Rightarrow> (string \<times> string) list" where
  "takes tr = concat (map take_of (game_events tr))"

lemma events_simps [simp]:
  "login_events [] = []" "game_events [] = []" "issues [] = []" "takes [] = []"
  "login_events (tr @ [ev]) = login_events tr @ login_part ev"
  "game_events (tr @ [ev]) = game_events tr @ game_part ev"
  "issues (tr @ [ev]) = issues tr @ concat (map issue_of (login_part ev))"
  "takes (tr @ [ev]) = takes tr @ concat (map take_of (game_part ev))"
  by (simp_all add: login_events_def game_events_def issues_def takes_def)

section \<open>Provenance in the system\<close>

lemma system_stems:
  assumes "system_run D (system_start D now d r) tr s"
  shows "login_stems (su_crypto D) (login_events tr) (sy_login s) \<and> game_stems (game_events tr) (sy_game s)"
  using assms
proof (induction rule: system_run.induct)
  case start
  show ?case by (simp add: system_start_def stems_start)
next
  case (step tr s ev s')
  from step.hyps(2) show ?case
  proof cases
    case (at_login ev h d r p)
    with login_stems_step [OF at_login(3)] step.IH show ?thesis by simp
  next
    case (at_game ev h d r)
    with game_stems_step [OF at_game(3)] step.IH show ?thesis by simp
  next
    case elsewhere
    with step.IH show ?thesis by simp
  qed
qed

section \<open>The tokens in the system\<close>

text \<open>Only issuing and taking touch the tokens.\<close>

lemma host_step_stores:
  assumes "host_step act svc wk (h, b) ev (h', b')"
  shows "case ev of Work_Event i env t res \<Rightarrow> wk_step wk env t b = Some (res, b') | _ \<Rightarrow> b' = b"
  using assms by (cases rule: host_stepE) auto

lemma login_task_redis:
  assumes "login_task_step cr (login_mysql_redis db rd cfg now token) sm joined t ((d, r), p) = Some (res, (d', r'), p')"
  shows "case t of
      Issuing uid row \<Rightarrow> r' = snd (issue_auth_token rd (lc_auth_token_prefix cfg) (lc_auth_token_ttl_seconds cfg) now token
        (ar_account_id row) (ar_user_id row) r)
    | _ \<Rightarrow> r' = r"
  using assms
  by (cases t) (auto simp: login_mysql_redis_def Let_def split: prod.splits sum.splits option.splits)

lemma game_perform_redis:
  assumes "game_perform (game_mysql_redis db rd pfx now) t (d, r) = (m, d', r')"
  shows "case t of
      TakeAuthToken token \<Rightarrow> (r', taken @ take_of (Work_Event i env t (Inr m))) =
        token_step issue (take_auth_token rd pfx) (Take now token) (r, taken)
    | _ \<Rightarrow> r' = r"
  using assms
  by (cases t) (auto simp: game_mysql_redis_def split: prod.splits sum.splits option.splits)

lemma login_host_redis:
  assumes "host_step (login_actor mp kt) (login_service mp tx) (login_worker cr db rd cfg sm)
      (h, (d, r), p) ev (h', (d', r'), p')"
  shows "issue_of ev = [] \<and> r' = r \<or>
    (\<exists>j env uid row res. ev = Work_Event j env (Issuing uid row) res \<and>
      r' = snd (issue_auth_token rd (lc_auth_token_prefix cfg) (lc_auth_token_ttl_seconds cfg) (te_now env) (te_uuid env)
        (ar_account_id row) (ar_user_id row) r))"
proof (cases ev)
  case (Work_Event j env t res)
  with host_step_stores [OF assms] have "login_task_step cr (login_mysql_redis db rd cfg (te_now env) (te_uuid env)) sm
      (te_joined env) t ((d, r), p) = Some (res, (d', r'), p')" by simp
  from login_task_redis [OF this] Work_Event show ?thesis by (cases t) auto
qed (use host_step_stores [OF assms] in auto)

lemma game_host_redis:
  assumes "host_step (game_actor mp kt) (game_service mp tx) (game_worker db rd pfx) (h, d, r) ev (h', d', r')"
  shows "take_of ev = [] \<and> r' = r \<or>
    (\<exists>i env token res. ev = Work_Event i env (TakeAuthToken token) res \<and>
      (r', taken @ take_of ev) = token_step issue (take_auth_token rd pfx) (Take (te_now env) token) (r, taken))"
proof (cases ev)
  case (Work_Event i env t res)
  with host_step_stores [OF assms] obtain m where m: "res = Inr m"
    "game_perform (game_mysql_redis db rd pfx (te_now env)) t (d, r) = (m, d', r')" by auto
  from game_perform_redis [OF m(2), of taken i env issue] m(1) Work_Event show ?thesis by (cases t) auto
qed (use host_step_stores [OF assms] in auto)

text \<open>The invariant of the token service, for the store and the history of the system.\<close>

definition system_once :: "('c, 'd, 'r, 'p) deployment \<Rightarrow> system_event list \<Rightarrow> ('c, 'd, 'r, 'p) system \<Rightarrow> bool" where
  "system_once D tr s \<longleftrightarrow>
     token_service.once (stored_token (su_redis D) (lc_auth_token_prefix (su_config D))) (sy_now s) (issues tr)
       (sy_redis s, takes tr)"

lemma system_once_step:
  assumes laws: "redis_laws (su_redis D)" and step: "system_step D s ev s'" and once: "system_once D tr s"
    and fresh: "distinct (map fst (issues (tr @ [ev])))"
  shows "system_once D (tr @ [ev]) s'"
proof -
  let ?pfx = "lc_auth_token_prefix (su_config D)" and ?ttl = "lc_auth_token_ttl_seconds (su_config D)"
  note service = token_service_redis [OF laws, of ?pfx ?ttl]
  note once = once [unfolded system_once_def]
  from step show ?thesis
  proof cases
    case (at_login lev h d r p)
    from login_host_redis [OF at_login(3)] show ?thesis
    proof (elim disjE exE conjE)
      assume "issue_of lev = []" "r = sy_redis s"
      with once at_login show ?thesis by (simp add: system_once_def)
    next
      fix j env uid row res
      assume lev: "lev = Work_Event j env (Issuing uid row) res"
        "r = snd (issue_auth_token (su_redis D) ?pfx ?ttl (te_now env) (te_uuid env) (ar_account_id row) (ar_user_id row)
          (sy_redis s))"
      have "te_uuid env \<notin> fst ` set (issues tr)" using fresh at_login(1) lev by auto
      then show ?thesis using token_service.once_issue [OF service once] at_login lev by (simp add: system_once_def)
    qed
  next
    case (at_game gev h d r)
    from game_host_redis [OF at_game(3), of "takes tr" "issue_auth_token (su_redis D) ?pfx ?ttl"] show ?thesis
    proof (elim disjE exE conjE)
      assume "take_of gev = []" "r = sy_redis s"
      with once at_game show ?thesis by (simp add: system_once_def)
    next
      fix i env token res
      assume gev: "gev = Work_Event i env (TakeAuthToken token) res"
        "(r, takes tr @ take_of gev) = token_step (issue_auth_token (su_redis D) ?pfx ?ttl)
          (take_auth_token (su_redis D) ?pfx) (Take (te_now env) token) (sy_redis s, takes tr)"
      with token_service.once_take [OF service once, of "te_now env" token] at_game
      show ?thesis by (simp add: system_once_def)
    qed
  next
    case (elsewhere now r d)
    with token_service.once_later [OF service once elsewhere(3)] show ?thesis
      by (simp add: system_once_def token_service.once_def [OF service]) blast
  qed
qed

lemma system_once_run:
  assumes "redis_laws (su_redis D)" and "system_run D (system_start D now d r) tr s"
    and "\<forall>t token. stored_token (su_redis D) (lc_auth_token_prefix (su_config D)) t token r = None"
    and "distinct (map fst (issues tr))"
  shows "system_once D tr s"
  using assms(2,4)
proof (induction rule: system_run.induct)
  case start
  with assms(3) show ?case
    by (simp add: system_once_def system_start_def
        token_service.once_def [OF token_service_redis [OF assms(1), of _ "lc_auth_token_ttl_seconds (su_config D)"]])
next
  case (step tr s ev s')
  have "distinct (map fst (issues tr))" using step.prems by simp
  from system_once_step [OF assms(1) step.hyps(2) step.IH [OF this] step.prems] show ?case .
qed

section \<open>Agreement\<close>

text \<open>An account in GameServer comes from a login: this one.\<close>

definition logged_in_with :: "crypto \<Rightarrow> system_event list \<Rightarrow> string \<Rightarrow> account \<Rightarrow> bool" where
  "logged_in_with cr tr token a \<longleftrightarrow>
     (\<exists>j uid h row. requested (login_events tr) j uid h \<and> found (login_events tr) j uid row \<and>
        verify cr h (ar_password_hash row) (ar_salt row) = Inr True \<and> ar_status row \<noteq> 1 \<and>
        issuing (login_events tr) j uid row token \<and>
        a = \<lparr>account_id = ar_account_id row, user_id = ar_user_id row\<rparr>)"

lemma issued_by:
  assumes "(token, v) \<in> set (issues tr)"
  obtains j uid row where "issuing (login_events tr) j uid row token"
    "v = token_value (ar_account_id row) (ar_user_id row)"
proof -
  from assms obtain ev where "ev \<in> set (login_events tr)" "(token, v) \<in> set (issue_of ev)"
    by (auto simp: issues_def)
  with that show ?thesis by (cases ev rule: issue_of.cases) (force simp: issuing_def)+
qed

lemma taken_in: "took (game_events tr) i token v \<Longrightarrow> (token, v) \<in> set (takes tr)"
  by (force simp: took_def takes_def)

lemma named_logged_in:
  assumes "redis_laws (su_redis D)" and "system_run D (system_start D now d r) tr s"
    and "\<forall>t token. stored_token (su_redis D) (lc_auth_token_prefix (su_config D)) t token r = None"
    and "distinct (map fst (issues tr))"
    and "taken_for (game_events tr) i token v" "parse_token_value v = Some a"
  shows "logged_in_with (su_crypto D) tr token a"
proof -
  let ?ttl = "lc_auth_token_ttl_seconds (su_config D)"
  have "set (takes tr) \<subseteq> set (issues tr)"
    using system_once_run [OF assms(1-4)]
    by (simp add: system_once_def token_service.once_def [OF token_service_redis [OF assms(1), of _ ?ttl]])
  moreover have "(token, v) \<in> set (takes tr)" using assms(5) by (auto simp: taken_for_def intro: taken_in)
  ultimately obtain j uid row where iss: "issuing (login_events tr) j uid row token"
    and v: "v = token_value (ar_account_id row) (ar_user_id row)" by (meson issued_by subsetD)
  from system_stems [OF assms(2)] iss have "passed (su_crypto D) (login_events tr) j uid row"
    unfolding login_stems_def by blast
  with iss v assms(6) show ?thesis by (fastforce simp: passed_def logged_in_with_def)
qed

text \<open>A token is taken in one event only, so for one session.\<close>

lemma distinct_concat_same:
  assumes "distinct (map fst (concat (map f evs)))" and "x \<in> set evs" "y \<in> set evs"
    and "(k, v) \<in> set (f x)" "(k, v') \<in> set (f y)"
  shows "x = y"
  using assms
proof (induction evs)
  case (Cons z evs)
  have apart: "k \<notin> fst ` set (f z)" if "w \<in> set evs" "(k, u) \<in> set (f w)" for w u
    using Cons.prems(1) that by force
  from Cons show ?case by (cases "x = z"; cases "y = z") (force dest: apart)+
qed simp

lemma taken_by_one:
  assumes "distinct (map fst (takes tr))"
    and "took (game_events tr) i token v" "took (game_events tr) j token v'"
  shows "i = j"
proof -
  obtain e e' where e: "Work_Event i e (TakeAuthToken token) (Inr (TokenTaken (Some v))) \<in> set (game_events tr)"
    "Work_Event j e' (TakeAuthToken token) (Inr (TokenTaken (Some v'))) \<in> set (game_events tr)"
    using assms(2,3) by (auto simp: took_def)
  from distinct_concat_same [OF assms(1) [unfolded takes_def] e, of token v v'] show ?thesis by simp
qed

text \<open>
  C1. Injective agreement of the two servers. In every state the system can reach, however the sessions
  and tasks of both servers and the stores interleave: each GameServer session that has an account was
  shown, by its own client, the token of a login of that very account; that login was requested by a
  client of LoginServer with the account's password, for an account that was not banned; and no two
  sessions owe their account to the same login.
\<close>

theorem servers_agree:
  assumes "redis_laws (su_redis D)" and "system_run D (system_start D now d r) tr s"
    and "\<forall>t token. stored_token (su_redis D) (lc_auth_token_prefix (su_config D)) t token r = None"
    and "distinct (map fst (issues tr))"
  shows "\<exists>token. inj_on token {i. \<exists>gs. sv_running (ho_server (sy_game s)) i = Some gs \<and> gs_account gs \<noteq> None} \<and>
    (\<forall>i gs a. sv_running (ho_server (sy_game s)) i = Some gs \<longrightarrow> gs_account gs = Some a \<longrightarrow>
      sent (game_events tr) i (GameConnectRequest (token i)) \<and> logged_in_with (su_crypto D) tr (token i) a)"
proof -
  let ?ttl = "lc_auth_token_ttl_seconds (su_config D)"
  let ?has = "\<lambda>i gs a. sv_running (ho_server (sy_game s)) i = Some gs \<and> gs_account gs = Some a"
  have once: "distinct (map fst (takes tr))"
    using system_once_run [OF assms]
    by (simp add: system_once_def token_service.once_def [OF token_service_redis [OF assms(1), of _ ?ttl]])
  define token where "token i = (SOME t. \<exists>gs a v. ?has i gs a \<and> taken_for (game_events tr) i t v \<and> parse_token_value v = Some a)" for i
  have token: "\<exists>v. taken_for (game_events tr) i (token i) v \<and> parse_token_value v = Some a" if "?has i gs a" for i gs a
  proof -
    have "session_stems (game_events tr) i gs" using system_stems [OF assms(2)] that by (auto simp: game_stems_def)
    with that have "\<exists>t gs a v. ?has i gs a \<and> taken_for (game_events tr) i t v \<and> parse_token_value v = Some a"
      by (auto simp: session_stems_def named_def)
    from someI_ex [OF this] that show ?thesis by (auto simp: token_def)
  qed
  have "inj_on token {i. \<exists>gs. sv_running (ho_server (sy_game s)) i = Some gs \<and> gs_account gs \<noteq> None}"
  proof (rule inj_onI)
    fix i j
    assume "i \<in> {i. \<exists>gs. sv_running (ho_server (sy_game s)) i = Some gs \<and> gs_account gs \<noteq> None}"
      "j \<in> {i. \<exists>gs. sv_running (ho_server (sy_game s)) i = Some gs \<and> gs_account gs \<noteq> None}" and eq: "token i = token j"
    then obtain gs a gs' a' where "?has i gs a" "?has j gs' a'" by blast
    then obtain v v' where "took (game_events tr) i (token i) v" "took (game_events tr) j (token j) v'"
      using token unfolding taken_for_def by blast
    with taken_by_one [OF once] eq show "i = j" by metis
  qed
  moreover have "sent (game_events tr) i (GameConnectRequest (token i)) \<and> logged_in_with (su_crypto D) tr (token i) a"
    if "?has i gs a" for i gs a
    using token [OF that] named_logged_in [OF assms] by (auto simp: taken_for_def)
  ultimately show ?thesis by blast
qed

section \<open>Scores\<close>

text \<open>
  \<open>scores\<close> observes the rows of the score table. \<open>INSERT\<close> appends its row, or fails, and then it may
  or may not have been carried out; the other statements of the servers leave the table alone.
\<close>

definition score_laws :: "'d mysql \<Rightarrow> ('d \<Rightarrow> score_row list) \<Rightarrow> bool" where
  "score_laws db scores \<longleftrightarrow>
     (\<forall>aid score kills secs d.
        case sql_insert_score db aid score kills secs d of
          (Inr _, d') \<Rightarrow> scores d' = scores d @ [(aid, score, kills, secs)]
        | (Inl _, d') \<Rightarrow> scores d' \<in> {scores d, scores d @ [(aid, score, kills, secs)]}) \<and>
     (\<forall>uid d. scores (snd (sql_select_account db uid d)) = scores d) \<and>
     (\<forall>aid d. scores (snd (sql_update_last_login db aid d)) = scores d)"

lemma score_lawsD:
  assumes "score_laws db scores"
  shows "sql_insert_score db aid score kills secs d = (Inr u, d') \<Longrightarrow> scores d' = scores d @ [(aid, score, kills, secs)]"
    and "sql_insert_score db aid score kills secs d = (Inl e, d') \<Longrightarrow>
      scores d' = scores d \<or> scores d' = scores d @ [(aid, score, kills, secs)]"
    and "sql_select_account db uid d = (x, d') \<Longrightarrow> scores d' = scores d"
    and "sql_update_last_login db aid d = (y, d') \<Longrightarrow> scores d' = scores d"
proof -
  have "case sql_insert_score db aid score kills secs d of
      (Inr _, d') \<Rightarrow> scores d' = scores d @ [(aid, score, kills, secs)]
    | (Inl _, d') \<Rightarrow> scores d' \<in> {scores d, scores d @ [(aid, score, kills, secs)]}"
    "scores (snd (sql_select_account db uid d)) = scores d" "scores (snd (sql_update_last_login db aid d)) = scores d"
    using assms by (simp_all add: score_laws_def)
  then show "sql_insert_score db aid score kills secs d = (Inr u, d') \<Longrightarrow> scores d' = scores d @ [(aid, score, kills, secs)]"
    and "sql_insert_score db aid score kills secs d = (Inl e, d') \<Longrightarrow>
      scores d' = scores d \<or> scores d' = scores d @ [(aid, score, kills, secs)]"
    and "sql_select_account db uid d = (x, d') \<Longrightarrow> scores d' = scores d"
    and "sql_update_last_login db aid d = (y, d') \<Longrightarrow> scores d' = scores d" by auto
qed

lemma login_host_scores:
  assumes laws: "score_laws db scores"
    and step: "host_step (login_actor mp kt) (login_service mp tx) (login_worker cr db rd cfg sm)
      (h, (d, r), p) ev (h', (d', r'), p')"
  shows "scores d' = scores d"
proof (cases ev)
  case (Work_Event j env t res)
  with host_step_stores [OF step] have "login_task_step cr (login_mysql_redis db rd cfg (te_now env) (te_uuid env)) sm
      (te_joined env) t ((d, r), p) = Some (res, (d', r'), p')" by simp
  then show ?thesis
    by (cases t) (auto simp: login_mysql_redis_def Let_def dest: score_lawsD(3,4) [OF laws]
        split: prod.splits sum.splits option.splits)
qed (use host_step_stores [OF step] in auto)

lemma game_host_scores:
  assumes laws: "score_laws db scores" and stems: "game_stems tr h"
    and step: "host_step (game_actor mp kt) (game_service mp tx) (game_worker db rd pfx) (h, d, r) ev (h', d', r')"
  shows "(scores d' = scores d \<or> (\<exists>i aid score kills secs.
      scores d' = scores d @ [(aid, score, kills, secs)] \<and> owed tr i aid score kills secs)) \<and>
    (\<forall>i env t. ev = Work_Event i env t (Inr ScoreSaved) \<longrightarrow> scores d' \<noteq> scores d)"
  using step
proof (cases rule: host_stepE)
  case (work k h1 i t env b1 res b2)
  have "(i, Inl t) \<in> set (ho_tasks h)" using work by (metis nth_mem fst_conv)
  with stems have t: "work_stems tr i (Inl t)" by (auto simp: game_stems_def)
  obtain m where m: "res = Inr m"
    "game_perform (game_mysql_redis db rd pfx (te_now env)) t (d, r) = (m, d', r')"
    using work by auto
  show ?thesis
  proof (cases t)
    case (TakeAuthToken token)
    with m(2) have "d' = d" "m \<noteq> ScoreSaved"
      by (auto simp: game_mysql_redis_def split: prod.splits sum.splits)
    with work m(1) show ?thesis by simp
  next
    case (SaveScore aid score kills secs)
    with m(2) have "scores d' = scores d @ [(aid, score, kills, secs)] \<or> scores d' = scores d \<and> m \<noteq> ScoreSaved"
      by (auto simp: game_mysql_redis_def split: prod.splits sum.splits
          dest: score_lawsD(1) [OF laws] score_lawsD(2) [OF laws])
    with work m(1) t SaveScore show ?thesis by auto
  qed
qed auto

text \<open>
  C4. Scores are earned. Whatever step either server makes in whatever state the system can reach, it
  leaves the score table as it is or appends one row; the numbers of that row, each in its column, are
  those that the client of a GameServer session reported, and its account is one of which that client
  showed the token of a login with its password (the store holds no token at the start, and the
  UUIDs of the tokens are distinct). A task that answers that the score was saved has
  appended a row.
\<close>

theorem scores_are_earned:
  assumes "redis_laws (su_redis D)" and "score_laws (su_mysql D) scores"
    and "system_run D (system_start D now d r) tr s"
    and "\<forall>t token. stored_token (su_redis D) (lc_auth_token_prefix (su_config D)) t token r = None"
    and "distinct (map fst (issues tr))"
    and "system_step D s ev s'" and "ev \<noteq> Elsewhere"
  shows "(scores (sy_mysql s') = scores (sy_mysql s) \<or>
     (\<exists>i aid score kills secs token a.
        scores (sy_mysql s') = scores (sy_mysql s) @ [(aid, score, kills, secs)] \<and>
        sent (game_events tr) i (GameOverReport score kills secs) \<and>
        sent (game_events tr) i (GameConnectRequest token) \<and>
        account_id a = aid \<and> logged_in_with (su_crypto D) tr token a)) \<and>
    (\<forall>i env t. ev = At_Game (Work_Event i env t (Inr ScoreSaved)) \<longrightarrow>
      scores (sy_mysql s') \<noteq> scores (sy_mysql s))"
  using assms(6)
proof cases
  case (at_login lev h d r p)
  with login_host_scores [OF assms(2) at_login(3)] show ?thesis by simp
next
  case (at_game gev h d1 r1)
  have "game_stems (game_events tr) (sy_game s)" using system_stems [OF assms(3)] by simp
  note written = game_host_scores [OF assms(2) this at_game(3)]
  have "\<exists>token a. sent (game_events tr) i (GameOverReport score kills secs) \<and>
      sent (game_events tr) i (GameConnectRequest token) \<and>
      account_id a = aid \<and> logged_in_with (su_crypto D) tr token a"
    if "owed (game_events tr) i aid score kills secs" for i aid score kills secs
  proof -
    from that obtain a token v where a: "account_id a = aid" "taken_for (game_events tr) i token v"
      "parse_token_value v = Some a" and "sent (game_events tr) i (GameOverReport score kills secs)"
      unfolding owed_def named_def by blast
    with named_logged_in [OF assms(1,3-5) a(2,3)] show ?thesis unfolding taken_for_def by blast
  qed
  note earned = this
  have "scores d1 = scores (sy_mysql s) \<or> (\<exists>i aid score kills secs token a.
        scores d1 = scores (sy_mysql s) @ [(aid, score, kills, secs)] \<and>
        sent (game_events tr) i (GameOverReport score kills secs) \<and>
        sent (game_events tr) i (GameConnectRequest token) \<and>
        account_id a = aid \<and> logged_in_with (su_crypto D) tr token a)"
    using written [THEN conjunct1]
  proof (elim disjE exE conjE)
    fix i aid score kills secs
    assume row: "scores d1 = scores (sy_mysql s) @ [(aid, score, kills, secs)]"
      and "owed (game_events tr) i aid score kills secs"
    from earned [OF this(2)] row show ?thesis by metis
  qed simp
  with written [THEN conjunct2] at_game(1,2) show ?thesis by simp
next
  case elsewhere
  with assms(7) show ?thesis by simp
qed

section \<open>One player, for the witnesses\<close>

text \<open>A login at LoginServer, then the token shown to GameServer and a score, all at time 0.\<close>

definition sample_deployment :: "(message_wrapper list \<times> bool, score_row list, string \<rightharpoonup> string \<times> instant, nat) deployment" where
  "sample_deployment =
     \<lparr>su_mpsc = sample_mpsc, su_tx = ([], False), su_timeout = KEEP_ALIVE_TIMEOUT, su_crypto = toy_crypto,
      su_mysql = sample_mysql, su_redis = map_redis, su_config = sample_config, su_semaphore = counter_semaphore,
      su_cores = Some 1\<rparr>"

lemma system_run_login:
  assumes "host_run (login_actor (su_mpsc D) (su_timeout D)) (login_service (su_mpsc D) (su_tx D))
      (login_worker (su_crypto D) (su_mysql D) (su_redis D) (su_config D) (su_semaphore D))
      ((d, r), sy_permits (system_start D now d r)) tr hb"
    and "\<forall>ev\<in>set tr. happens_at now ev"
  shows "system_run D (system_start D now d r) (map At_Login tr)
    ((system_start D now d r)\<lparr>sy_login := fst hb, sy_mysql := fst (fst (snd hb)), sy_redis := snd (fst (snd hb)),
       sy_permits := snd (snd hb)\<rparr>)"
  using assms
proof (induction rule: host_run.induct)
  case start
  have "(system_start D now d r)\<lparr>sy_login := host_start, sy_mysql := d, sy_redis := r,
      sy_permits := sy_permits (system_start D now d r)\<rparr> = system_start D now d r"
    by (simp add: system_start_def)
  then show ?case by (simp add: system_run.start)
next
  case (step tr hb ev hb')
  obtain h d1 r1 p1 where hb: "hb = (h, (d1, r1), p1)" by (metis prod.collapse)
  obtain h' d2 r2 p2 where hb': "hb' = (h', (d2, r2), p2)" by (metis prod.collapse)
  let ?s = "(system_start D now d r)\<lparr>sy_login := h, sy_mysql := d1, sy_redis := r1, sy_permits := p1\<rparr>"
  have "system_step D ?s (At_Login ev) (?s\<lparr>sy_login := h', sy_mysql := d2, sy_redis := r2, sy_permits := p2\<rparr>)"
    using step.hyps(2) step.prems by (intro system_step.at_login) (simp_all add: hb hb' system_start_def)
  from system_run.step [OF _ this] step.IH step.prems show ?case by (simp add: hb hb')
qed

definition sample_login_trace :: "login_event list" where
  "sample_login_trace = sample_asking @
     [Work_Event 1 (now_env 0 ''x'') (Finding ''u'' [1]) (Inl (Acquiring ''u'' [1] sample_row)),
      Work_Event 1 (now_env 0 ''x'') (Acquiring ''u'' [1] sample_row) (Inl (Hashing ''u'' [1] sample_row)),
      Work_Event 1 (now_env 0 ''x'') (Hashing ''u'' [1] sample_row) (Inl (Touching ''u'' sample_row)),
      Work_Event 1 (now_env 0 ''x'') (Touching ''u'' sample_row) (Inl (Issuing ''u'' sample_row)),
      Work_Event 1 (now_env 0 ''x'') (Issuing ''u'' sample_row) (Inr (LoginSuccess \<lparr>la_user_id = ''u''\<rparr> ''x''))]"

abbreviation sample_stored :: "string \<rightharpoonup> string \<times> instant" where
  "sample_stored \<equiv> Map.empty(''p:'' @ ''x'' \<mapsto> (token_value 7 ''u'', 0 + from_secs 30))"

lemma sample_login_done: "sample_login_run sample_login_trace
    (asking_host [(1, Inr (LoginSuccess \<lparr>la_user_id = ''u''\<rparr> ''x''))], ([], sample_stored), Suc 0)"
proof -
  note h = sample_work [where env = "now_env 0 ''x''", OF sample_hash [OF now_env_simps(3)]]
  note steps = host_run.step [OF host_run.step [OF host_run.step [OF host_run.step [OF host_run.step [OF sample_asked
      sample_work [where env = "now_env 0 ''x''", OF sample_find]]
      sample_work [where env = "now_env 0 ''x''", OF sample_acquire]] h]
      sample_work [where env = "now_env 0 ''x''", OF sample_touch]]
      sample_work [where env = "now_env 0 ''x''", OF sample_issue]]
  show ?thesis using steps by (simp add: sample_login_trace_def)
qed

text \<open>LoginServer has logged the user in; GameServer's host is \<open>g\<close>, the score table \<open>d\<close>.\<close>

definition sample_system where
  "sample_system g d r =
     \<lparr>sy_now = 0, sy_login = asking_host [(1, Inr (LoginSuccess \<lparr>la_user_id = ''u''\<rparr> ''x''))], sy_game = g,
      sy_mysql = d, sy_redis = r, sy_permits = Suc 0\<rparr>"

abbreviation sample_system_run where
  "sample_system_run \<equiv> system_run sample_deployment (system_start sample_deployment 0 [] Map.empty)"

lemma sample_system_login: "sample_system_run (map At_Login sample_login_trace) (sample_system host_start [] sample_stored)"
proof -
  have now: "\<forall>ev\<in>set sample_login_trace. happens_at 0 ev"
    by (simp add: sample_login_trace_def sample_asking_def frame_at_def)
  have "host_run (login_actor (su_mpsc sample_deployment) (su_timeout sample_deployment))
      (login_service (su_mpsc sample_deployment) (su_tx sample_deployment))
      (login_worker (su_crypto sample_deployment) (su_mysql sample_deployment) (su_redis sample_deployment)
        (su_config sample_deployment) (su_semaphore sample_deployment))
      (([], Map.empty), sy_permits (system_start sample_deployment 0 [] Map.empty)) sample_login_trace
      (asking_host [(1, Inr (LoginSuccess \<lparr>la_user_id = ''u''\<rparr> ''x''))], ([], sample_stored), Suc 0)"
    using sample_login_done by (simp add: sample_deployment_def system_start_def)
  from system_run_login [OF this now] show ?thesis by (simp add: sample_system_def system_start_def)
qed

text \<open>GameServer with one session, what it spawned, its tasks and its channel.\<close>

definition sample_game_host where
  "sample_game_host s r w ts ms =
     \<lparr>ho_server = \<lparr>sv_next_id = 1, sv_running = [1 \<mapsto> s], sv_world = \<lparr>registry = r, cancelled = {}, spawned = w\<rparr>\<rparr>,
      ho_tasks = ts, ho_inbox = (\<lambda>i. if i = 1 then ms else [])\<rparr>"

definition sample_player :: "(message_wrapper list \<times> bool) game_session" where
  "sample_player = (sample_session 1)
     \<lparr>gs_account := Some \<lparr>account_id = 7, user_id = ''u''\<rparr>, gs_outbox := \<lparr>ob_session_id = 1,
        ob_tx = ([outgoing (ConnectedResponse 0), outgoing (GameConnectResponse True 0)], False)\<rparr>\<rparr>"

abbreviation sample_game_step where
  "sample_game_step \<equiv> host_step (game_actor sample_mpsc KEEP_ALIVE_TIMEOUT) (game_service sample_mpsc ([], False))
     (game_worker sample_mysql map_redis ''p:'')"

lemma sample_game_moves:
  assumes "sample_game_step (g, d, r) ev (g', d', r')" and "happens_at 0 ev"
  shows "system_step sample_deployment (sample_system g d r) (At_Game ev) (sample_system g' d' r')"
proof -
  have "system_step sample_deployment (sample_system g d r) (At_Game ev)
      ((sample_system g d r)\<lparr>sy_game := g', sy_mysql := d', sy_redis := r'\<rparr>)"
    by (rule system_step.at_game)
      (use assms in \<open>simp_all add: sample_deployment_def sample_system_def sample_config_def\<close>)
  then show ?thesis by (simp add: sample_system_def)
qed

lemma sample_game_run:
  assumes "sample_system_run tr (sample_system g d r)" and "sample_game_step (g, d, r) ev (g', d', r')"
    and "happens_at 0 ev"
  shows "sample_system_run (tr @ [At_Game ev]) (sample_system g' d' r')"
  by (rule system_run.step [OF assms(1) sample_game_moves [OF assms(2,3)]])

lemma sample_game_poll:
  assumes "loop_step (game_actor sample_mpsc KEEP_ALIVE_TIMEOUT) 1 p (s, \<lparr>registry = r, cancelled = {}, spawned = w\<rparr>) =
      (Continue, s', \<lparr>registry = r', cancelled = {}, spawned = w @ new\<rparr>)"
    and "p_others p = []" and "case p_inner p of None \<Rightarrow> ms = [] \<and> ms' = [] | Some m \<Rightarrow> p_frame p = None \<and> ms = m # ms'"
  shows "sample_game_step (sample_game_host s r w ts ms, b) (Poll_Event 1 p)
    (sample_game_host s' r' (w @ new) (ts @ map (\<lambda>x. (1, Inl x)) new) ms', b)"
proof -
  have "inbox_after (branch_of (game_actor sample_mpsc KEEP_ALIVE_TIMEOUT) 1 p
      (wake (game_actor sample_mpsc KEEP_ALIVE_TIMEOUT) p (s, \<lparr>registry = r, cancelled = {}, spawned = w\<rparr>))) ms = ms'"
    using assms(2,3)
    by (auto simp: inbox_after_def branch_of_def select_biased_def wake_def split: option.splits)
  then have "session_turn (game_actor sample_mpsc KEEP_ALIVE_TIMEOUT) (game_service sample_mpsc ([], False))
      (game_worker sample_mysql map_redis ''p:'') 1 p s (sample_game_host s r w ts ms) =
    sample_game_host s' r' (w @ new) (ts @ map (\<lambda>x. (1, Inl x)) new) ms'"
    using assms(1) by (simp add: session_turn_def sample_game_host_def Let_def fun_eq_iff)
  moreover have "inner_ready (sample_game_host s r w ts ms) 1 (p_inner p)"
    using assms(3) by (auto simp: inner_ready_def sample_game_host_def split: option.splits)
  ultimately show ?thesis
    using host_step.poll [of "sample_game_host s r w ts ms" 1 s p "game_actor sample_mpsc KEEP_ALIVE_TIMEOUT"
        "game_service sample_mpsc ([], False)" "game_worker sample_mysql map_redis ''p:''" b] assms(2)
    by (simp add: sample_game_host_def)
qed

abbreviation sample_value :: game_inner_message where
  "sample_value \<equiv> TokenTaken (Some (token_value 7 ''u''))"

text \<open>The player's game up to the report, and then the save.\<close>

definition sample_playing_trace :: "game_event list" where
  "sample_playing_trace =
     [Accept_Event 0, Poll_Event 1 (frame_at 0 (GameConnectRequest ''x'')),
      Work_Event 1 (now_env 0 []) (TakeAuthToken ''x'') (Inr sample_value), Send_Event 1 sample_value,
      Poll_Event 1 (inner_at 0 sample_value), Poll_Event 1 (frame_at 0 (GameOverReport 1 2 3))]"

abbreviation sample_save :: game_event where
  "sample_save \<equiv> Work_Event 1 (now_env 0 []) (SaveScore 7 1 2 3) (Inr ScoreSaved)"

definition sample_game_trace :: "game_event list" where
  "sample_game_trace = sample_playing_trace @ [sample_save]"

abbreviation sample_before :: "u64 registry" where
  "sample_before \<equiv> register 1 1 registry_default"

abbreviation sample_after :: "u64 registry" where
  "sample_after \<equiv> fst (authenticate 1 ''u'' sample_before)"

lemma sample_step_accept: "sample_game_step (host_start, b) (Accept_Event 0)
    (sample_game_host (sample_session 1) sample_before [] [] [], b)"
  using host_step.accept [OF refl, of "game_service sample_mpsc ([], False)" host_start 0 1 "sample_session 1"
      "\<lparr>registry = sample_before, cancelled = {}, spawned = []\<rparr>"]
  by (simp add: sample_start host_start_def server_start_def world_new_def sample_game_host_def)

lemma sample_step_connect: "sample_game_step (sample_game_host (sample_session 1) sample_before [] [] [], b)
    (Poll_Event 1 (frame_at 0 (GameConnectRequest ''x'')))
    (sample_game_host (sample_session 1) sample_before [TakeAuthToken ''x''] [(1, Inl (TakeAuthToken ''x''))] [], b)"
proof -
  have "loop_step (game_actor sample_mpsc KEEP_ALIVE_TIMEOUT) 1 (frame_at 0 (GameConnectRequest ''x''))
      (sample_session 1, \<lparr>registry = sample_before, cancelled = {}, spawned = []\<rparr>) =
    (Continue, sample_session 1, \<lparr>registry = sample_before, cancelled = {}, spawned = [] @ [TakeAuthToken ''x'']\<rparr>)"
    by (simp add: loop_step_polls game_step_simps(1,2) game_handler_defs outgoing_def spawn_def sample_session_def
        game_session_new_def)
  from sample_game_poll [OF this, of "[]" "[]" "[]" b] show ?thesis by (simp add: frame_at_def)
qed

lemma sample_step_take: "sample_game_step (sample_game_host s r w [(1, Inl (TakeAuthToken ''x''))] [], d, sample_stored)
    (Work_Event 1 (now_env 0 []) (TakeAuthToken ''x'') (Inr sample_value))
    (sample_game_host s r w [(1, Inr sample_value)] [], d, Map.empty)"
proof -
  let ?h = "sample_game_host s r w [(1, Inl (TakeAuthToken ''x''))] []"
  have "wk_step (game_worker sample_mysql map_redis ''p:'') (now_env 0 []) (TakeAuthToken ''x'') (d, sample_stored) =
    Some (Inr sample_value, d, Map.empty)"
    by (simp add: game_mysql_redis_def token_defs map_redis_def from_secs_def)
  from host_step.work [of 0 ?h 1, OF _ _ this] show ?thesis by (simp add: sample_game_host_def)
qed

lemma sample_step_send: "sample_game_step (sample_game_host s r w [(1, Inr m)] [], b) (Send_Event 1 m)
    (sample_game_host s r w [] [m], b)"
proof -
  let ?h = "sample_game_host s r w [(1, Inr m :: game_work + game_inner_message)] []"
  have "sample_game_step (?h, b) (Send_Event 1 m)
      (?h\<lparr>ho_tasks := take 0 (ho_tasks ?h) @ drop (Suc 0) (ho_tasks ?h), ho_inbox := deliver 1 m ?h\<rparr>, b)"
    using host_step.send [of 0 ?h 1 m] by (simp add: sample_game_host_def MAX_MESSAGE_CHANNEL_CAPACITY_def)
  moreover have "?h\<lparr>ho_tasks := take 0 (ho_tasks ?h) @ drop (Suc 0) (ho_tasks ?h), ho_inbox := deliver 1 m ?h\<rparr> =
      sample_game_host s r w [] [m]"
    by (simp add: deliver_def sample_game_host_def fun_eq_iff)
  ultimately show ?thesis by simp
qed

lemma sample_step_authenticate:
  "sample_game_step (sample_game_host (sample_session 1) sample_before w [] [sample_value], b)
    (Poll_Event 1 (inner_at 0 sample_value)) (sample_game_host sample_player sample_after w [] [], b)"
proof -
  have "loop_step (game_actor sample_mpsc KEEP_ALIVE_TIMEOUT) 1 (inner_at 0 sample_value)
      (sample_session 1, \<lparr>registry = sample_before, cancelled = {}, spawned = w\<rparr>) =
    (Continue, sample_player, \<lparr>registry = sample_after, cancelled = {}, spawned = w @ []\<rparr>)"
    by (simp add: loop_step_polls game_step_simps(1,2) game_handler_defs game_send_flow_def send_flow_def outbox_send_def
        sample_session_def sample_player_def sample_defs const_defs game_session_new_def outgoing_def
        world_authenticate_def split: prod.split)
      (simp add: game_actor_def receive_from_def authenticate_def register_def registry_default_def)
  from sample_game_poll [OF this, of "[sample_value]" "[]" "[]" b] show ?thesis by (simp add: inner_at_def)
qed

lemma sample_step_report: "sample_game_step (sample_game_host sample_player r w [] [], b)
    (Poll_Event 1 (frame_at 0 (GameOverReport 1 2 3)))
    (sample_game_host sample_player r (w @ [SaveScore 7 1 2 3]) [(1, Inl (SaveScore 7 1 2 3))] [], b)"
proof -
  have "loop_step (game_actor sample_mpsc KEEP_ALIVE_TIMEOUT) 1 (frame_at 0 (GameOverReport 1 2 3))
      (sample_player, \<lparr>registry = r, cancelled = {}, spawned = w\<rparr>) =
    (Continue, sample_player, \<lparr>registry = r, cancelled = {}, spawned = w @ [SaveScore 7 1 2 3]\<rparr>)"
    by (simp add: loop_step_polls game_step_simps(1,2) game_handler_defs outgoing_def spawn_def sample_session_def
        sample_player_def game_session_new_def)
  from sample_game_poll [OF this, of "[]" "[]" "[]" b] show ?thesis by (simp add: frame_at_def)
qed

lemma sample_step_save: "sample_game_step (sample_game_host s r w [(1, Inl (SaveScore 7 1 2 3))] [], d, rd)
    sample_save (sample_game_host s r w [(1, Inr ScoreSaved)] [], d @ [(7, 1, 2, 3)], rd)"
proof -
  let ?h = "sample_game_host s r w [(1, Inl (SaveScore 7 1 2 3))] []"
  have "wk_step (game_worker sample_mysql map_redis ''p:'') (now_env 0 []) (SaveScore 7 1 2 3) (d, rd) =
    Some (Inr ScoreSaved, d @ [(7, 1, 2, 3)], rd)"
    by (simp add: game_mysql_redis_def sample_mysql_def)
  from host_step.work [of 0 ?h 1, OF _ _ this] show ?thesis by (simp add: sample_game_host_def)
qed

definition sample_reported_trace :: "system_event list" where
  "sample_reported_trace = map At_Login sample_login_trace @ map At_Game sample_playing_trace"

definition sample_trace :: "system_event list" where
  "sample_trace = map At_Login sample_login_trace @ map At_Game sample_game_trace"

definition sample_reported where
  "sample_reported =
     sample_game_host sample_player sample_after [TakeAuthToken ''x'', SaveScore 7 1 2 3] [(1, Inl (SaveScore 7 1 2 3))] []"

definition sample_game_over where
  "sample_game_over = sample_game_host sample_player sample_after [TakeAuthToken ''x'', SaveScore 7 1 2 3] [(1, Inr ScoreSaved)] []"

lemma sample_reported_run: "sample_system_run sample_reported_trace (sample_system sample_reported [] Map.empty)"
proof -
  note r1 = sample_game_run [OF sample_system_login sample_step_accept, simplified happens_at.simps, OF refl]
  note r2 = sample_game_run [OF r1 sample_step_connect]
  note r3 = sample_game_run [OF r2 sample_step_take]
  note r4 = sample_game_run [OF r3 sample_step_send]
  note r5 = sample_game_run [OF r4 sample_step_authenticate]
  note r6 = sample_game_run [OF r5 sample_step_report]
  show ?thesis using r6
    by (simp add: sample_reported_trace_def sample_playing_trace_def sample_reported_def frame_at_def inner_at_def)
qed

lemma sample_saves: "system_step sample_deployment (sample_system sample_reported [] Map.empty) (At_Game sample_save)
    (sample_system sample_game_over [(7, 1, 2, 3)] Map.empty)"
proof -
  have "sample_game_step (sample_reported, [], Map.empty) sample_save (sample_game_over, [(7, 1, 2, 3)], Map.empty)"
    using sample_step_save [where d = "[]"] by (simp add: sample_reported_def sample_game_over_def)
  from sample_game_moves [OF this] show ?thesis by simp
qed

lemma sample_whole_run: "sample_system_run sample_trace (sample_system sample_game_over [(7, 1, 2, 3)] Map.empty)"
  using system_run.step [OF sample_reported_run sample_saves]
  by (simp add: sample_trace_def sample_reported_trace_def sample_game_trace_def)

lemma sample_premises:
  "redis_laws (su_redis sample_deployment)"
  "\<forall>t token. stored_token (su_redis sample_deployment) (lc_auth_token_prefix (su_config sample_deployment)) t token Map.empty = None"
  "distinct (map fst (issues sample_trace))"
  "distinct (map fst (issues sample_reported_trace))"
  by (simp_all add: sample_deployment_def stored_token_def issues_def login_events_def sample_trace_def
      sample_reported_trace_def sample_login_trace_def sample_game_trace_def sample_playing_trace_def sample_asking_def) (simp add: map_redis_def)

theorem servers_agree_witness:
  "\<exists>token. logged_in_with toy_crypto sample_trace token \<lparr>account_id = 7, user_id = ''u''\<rparr> \<and>
    sent (game_events sample_trace) 1 (GameConnectRequest token)"
proof -
  have "sv_running (ho_server (sy_game (sample_system sample_game_over [(7, 1, 2, 3)] Map.empty))) 1 = Some sample_player"
    "gs_account sample_player = Some \<lparr>account_id = 7, user_id = ''u''\<rparr>"
    by (simp_all add: sample_system_def sample_game_over_def sample_game_host_def sample_player_def)
  with servers_agree [OF sample_premises(1) sample_whole_run sample_premises(2,3)]
  show ?thesis by (auto simp: sample_deployment_def)
qed

text \<open>The row of the witness: the save appends it, and the theorem says where it comes from.\<close>

lemma score_laws_sample: "score_laws sample_mysql (\<lambda>d. d)"
  by (simp add: score_laws_def sample_mysql_def)

theorem scores_are_earned_witness:
  "sy_mysql (sample_system sample_game_over [(7, 1, 2, 3)] Map.empty) = [(7, 1, 2, 3)] \<and>
   (\<exists>i token a. sent (game_events sample_reported_trace) i (GameOverReport 1 2 3) \<and>
      sent (game_events sample_reported_trace) i (GameConnectRequest token) \<and>
      account_id a = 7 \<and> logged_in_with toy_crypto sample_reported_trace token a)"
proof -
  have laws: "score_laws (su_mysql sample_deployment) (\<lambda>d. d)"
    using score_laws_sample by (simp add: sample_deployment_def)
  have table: "sy_mysql (sample_system g d r) = d" for g d r by (simp add: sample_system_def)
  from scores_are_earned [OF sample_premises(1) laws sample_reported_run sample_premises(2,4) sample_saves]
  show ?thesis by (auto simp: table sample_deployment_def)
qed

end
