(* ===== verification/Protocol_Types.thy ===== *)
theory Protocol_Types
  imports System
begin

text \<open>
  The protocol as a type system (\<open>proto/proto/message.proto\<close> and the comments and constants of the two
  \<open>session.rs\<close>): which messages each server may say, with the codes it may use. A session is well-typed
  when its send queue holds such messages only and no more than it has room for. Every session of a
  server is, in every state the server can reach.
\<close>

section \<open>The judgement\<close>

datatype role = Login_Role | Game_Role

inductive says :: "role \<Rightarrow> payload \<Rightarrow> bool" where
  connected: "says r (ConnectedResponse 0)"
| db_error: "says r (ErrorResponse 3)"
| logged_in: "says Login_Role (LoginResponse True 0 token)"
| refused: "code \<in> {1, 2, 3, 4} \<Longrightarrow> says Login_Role (LoginResponse False code [])"
| joined: "says Game_Role (GameConnectResponse True 0)"
| not_joined: "says Game_Role (GameConnectResponse False 1)"
| moved: "says Game_Role (MoveResponse True x y)"
| entered: "says Game_Role (EnterWorldResponse True)"
| game_over: "says Game_Role (GameOverResponse True)"

declare says.intros [intro]

inductive_simps says_simps [simp]:
  "says r (ConnectedResponse i)" "says r (ErrorResponse c)" "says r (LoginResponse ok c token)"
  "says r (GameConnectResponse ok c)" "says r (MoveResponse ok x y)" "says r (EnterWorldResponse ok)"
  "says r (GameOverResponse ok)" "says r KeepAliveRequest" "says r KeepAliveNoti" "says r (EnterWorldRequest i)"
  "says r (LoginRequest uid h)" "says r (GameOverReport a b c)" "says r (MoveRequest x y)" "says r (GameConnectRequest token)"

definition typed_outbox :: "role \<Rightarrow> ('c, message_wrapper) mpsc \<Rightarrow> 'c outbox \<Rightarrow> bool" where
  "typed_outbox r mp ob \<longleftrightarrow>
     (\<forall>m\<in>set (queued mp ob). \<exists>payload. m = outgoing payload \<and> says r payload) \<and>
     length (queued mp ob) \<le> MAX_SEND_QUEUE_SIZE"

text \<open>Sending keeps the type if the message has it; receiving always does.\<close>

lemma typed_outbox_send:
  assumes "mpsc_laws MAX_SEND_QUEUE_SIZE mp" and "typed_outbox r mp ob" and "says r payload"
  shows "typed_outbox r mp (snd (send_flow mp payload ob))"
  using assms(2,3) send_flow_queue_bounded [OF assms(1)]
  by (auto simp: typed_outbox_def send_flow_spec(2) [OF assms(1)])

lemma typed_outbox_receive:
  "mpsc_laws MAX_SEND_QUEUE_SIZE mp \<Longrightarrow> typed_outbox r mp ob \<Longrightarrow> typed_outbox r mp (receive_from mp n ob)"
  by (auto simp: typed_outbox_def receive_from_spec dest: in_set_dropD)

lemma outbox_send_flow: "snd (outbox_send mp payload ob) = snd (send_flow mp payload ob)"
  by (auto simp: send_flow_def split: prod.split sum.split send_queue_full.split)

section \<open>Handlers keep the type\<close>

definition game_typed :: "('c, message_wrapper) mpsc \<Rightarrow> 'c game_session \<Rightarrow> bool" where
  "game_typed mp s \<longleftrightarrow> typed_outbox Game_Role mp (gs_outbox s)"

definition login_typed :: "('c, message_wrapper) mpsc \<Rightarrow> 'c login_session \<Rightarrow> bool" where
  "login_typed mp s \<longleftrightarrow> typed_outbox Login_Role mp (ls_outbox s)"

lemma game_send_typed:
  assumes "mpsc_laws MAX_SEND_QUEUE_SIZE mp" and "game_send_flow mp m (s, w) = (f, s', w')"
    and "typed_outbox Game_Role mp (gs_outbox s)" and "says Game_Role m"
  shows "typed_outbox Game_Role mp (gs_outbox s')"
  using typed_outbox_send [OF assms(1,3,4)] game_send_flow_frame [OF assms(2)] by (metis snd_conv)

lemma game_remote_typed:
  assumes "mpsc_laws MAX_SEND_QUEUE_SIZE mp" and "game_on_remote mp now m (s, w) = (f, s', w')" and "game_typed mp s"
  shows "game_typed mp s'"
  using assms(2,3)
  by (auto simp: game_on_remote_def on_game_connect_request_def on_game_over_report_def send_game_connect_def Let_def
      game_typed_def split: option.splits payload.splits if_splits elim: game_send_typed [OF assms(1)])

lemma game_inner_typed:
  assumes "mpsc_laws MAX_SEND_QUEUE_SIZE mp" and "game_on_inner mp now i (s, w) = (f, s', w')" and "game_typed mp s"
  shows "game_typed mp s'"
  using assms(2,3)
  by (auto simp: game_on_inner_def game_on_authenticated_def send_game_connect_def GAME_DB_ERROR_CODE_def game_typed_def
      split: game_inner_message.splits option.splits elim!: game_send_typed [OF assms(1)])

lemma login_send_typed:
  assumes "mpsc_laws MAX_SEND_QUEUE_SIZE mp" and "login_send_flow mp m (s, w) = (f, s', w')"
    and "typed_outbox Login_Role mp (ls_outbox s)" and "says Login_Role m"
  shows "typed_outbox Login_Role mp (ls_outbox s')"
  using typed_outbox_send [OF assms(1,3,4)] login_send_flow_frame [OF assms(2)] by (metis snd_conv)

lemma login_remote_typed:
  assumes "mpsc_laws MAX_SEND_QUEUE_SIZE mp" and "login_on_remote mp now m (s, w) = (f, s', w')" and "login_typed mp s"
  shows "login_typed mp s'"
  using assms(2,3)
  by (auto simp: login_on_remote_def on_login_request_def send_login_failure_def Let_def login_typed_def
      split: option.splits payload.splits if_splits prod.splits dest: try_consume_frame
      elim!: login_send_typed [OF assms(1)])

text \<open>A failure is never reported with the code of success.\<close>

definition proper_outcome :: "login_outcome \<Rightarrow> bool" where
  "proper_outcome outcome \<longleftrightarrow> outcome \<noteq> LoginFailure LE_Success"

lemma login_code_range: "code \<noteq> LE_Success \<Longrightarrow> login_code code \<in> {1, 2, 3, 4}"
  by (cases code) auto

lemma login_inner_typed:
  assumes "mpsc_laws MAX_SEND_QUEUE_SIZE mp" and "on_login_outcome mp now outcome (s, w) = (f, s', w')"
    and "login_typed mp s" and "proper_outcome outcome"
  shows "login_typed mp s'"
  using assms(2-4) login_code_range
  by (auto simp: on_login_outcome_def send_login_failure_def LOGIN_DB_ERROR_CODE_def login_typed_def proper_outcome_def
      split: login_outcome.splits elim!: login_send_typed [OF assms(1)])

lemma login_task_proper:
  assumes "login_task_step cr be sm joined t bp = Some (Inr outcome, bp')"
  shows "proper_outcome outcome"
  using assms
  by (cases bp; cases t) (auto simp: proper_outcome_def after_verify_def Let_def
      split: prod.splits sum.splits option.splits bool.splits if_splits)

lemma game_loop_typed:
  assumes "mpsc_laws MAX_SEND_QUEUE_SIZE mp" and "loop_step (game_actor mp kt) i p (s, w) = (f, s', w')" and "game_typed mp s"
  shows "game_typed mp s'"
proof -
  let ?s = "s\<lparr>gs_outbox := receive_from mp (p_taken p) (gs_outbox s)\<rparr>"
  have "game_typed mp ?s" using assms(1,3) by (simp add: game_typed_def typed_outbox_receive)
  with assms(2) show ?thesis
    by (cases rule: loop_step_cases)
      (auto simp: wake_def game_step_simps dest: game_remote_typed [OF assms(1)] game_inner_typed [OF assms(1)])
qed

lemma login_loop_typed:
  assumes "mpsc_laws MAX_SEND_QUEUE_SIZE mp" and "loop_step (login_actor mp kt) i p (s, w) = (f, s', w')"
    and "\<And>m. p_inner p = Some m \<Longrightarrow> proper_outcome m" and "login_typed mp s"
  shows "login_typed mp s'"
proof -
  let ?s = "s\<lparr>ls_outbox := receive_from mp (p_taken p) (ls_outbox s)\<rparr>"
  have "login_typed mp ?s" using assms(1,4) by (simp add: login_typed_def typed_outbox_receive)
  with assms(2,3) show ?thesis
    by (cases rule: loop_step_cases)
      (auto simp: wake_def login_step_simps dest: login_remote_typed [OF assms(1)] login_inner_typed [OF assms(1)])
qed

text \<open>A new session, on a new channel, has said \<open>ConnectedResponse\<close>.\<close>

lemma greeting_typed:
  assumes "mpsc_laws MAX_SEND_QUEUE_SIZE mp" and "mp_queue mp tx = []"
  shows "typed_outbox r mp (snd (outbox_send mp (ConnectedResponse 0) \<lparr>ob_session_id = i, ob_tx = tx\<rparr>))"
  unfolding outbox_send_flow
  by (rule typed_outbox_send [OF assms(1)]) (simp_all add: typed_outbox_def queued_def assms(2))

section \<open>Servers keep the type\<close>

text \<open>
  C6. The servers speak their protocol. In every state either server can reach, whatever its clients
  sent and its stores answered, every message that waits to be sent to a client is one that server may
  say, with the codes of the protocol: a login answer says success with code 0 or failure with one of
  the codes 1 to 4 and no token, a connect answer has code 0 or 1 accordingly, an error is code 3. And
  there are at most 200 of them.
\<close>

theorem servers_speak_protocol:
  assumes "mpsc_laws MAX_SEND_QUEUE_SIZE mp" and "mp_queue mp tx = []"
    and "host_run (login_actor mp kt) (login_service mp tx) (login_worker cr db rd cfg sm) b tr (l, b')"
    and "host_run (game_actor mp kt) (game_service mp tx) (game_worker db rd pfx) c tr' (g, c')"
  shows "(\<forall>i s. sv_running (ho_server l) i = Some s \<longrightarrow> typed_outbox Login_Role mp (ls_outbox s)) \<and>
    (\<forall>i s. sv_running (ho_server g) i = Some s \<longrightarrow> typed_outbox Game_Role mp (gs_outbox s))"
proof
  have "host_typed (login_typed mp) proper_outcome (fst (l, b'))"
  proof (rule host_run_typed [OF assms(3)])
    show "login_typed mp s" if "sc_start (login_service mp tx) n k now w = (n', s, w')" for n k now w n' s w'
      using that by (auto simp: login_service_def login_run_start_def login_session_new_def login_typed_def
          greeting_typed [OF assms(1,2)] split: prod.splits)
  qed (rule login_loop_typed [OF assms(1)], assumption+, auto dest: login_task_proper)
  then show "\<forall>i s. sv_running (ho_server l) i = Some s \<longrightarrow> typed_outbox Login_Role mp (ls_outbox s)"
    by (auto simp: host_typed_def login_typed_def)
  have "host_typed (game_typed mp) (\<lambda>m. True) (fst (g, c'))"
  proof (rule host_run_typed [OF assms(4)])
    show "game_typed mp s" if "sc_start (game_service mp tx) n k now w = (n', s, w')" for n k now w n' s w'
      using that by (auto simp: game_service_def game_run_start_def game_session_new_def game_typed_def
          greeting_typed [OF assms(1,2)] split: prod.splits)
  qed (rule game_loop_typed [OF assms(1)], assumption+, auto)
  then show "\<forall>i s. sv_running (ho_server g) i = Some s \<longrightarrow> typed_outbox Game_Role mp (gs_outbox s)"
    by (auto simp: host_typed_def game_typed_def)
qed

theorem servers_speak_protocol_witness:
  "typed_outbox Login_Role sample_mpsc (ls_outbox asked_session) \<and> typed_outbox Game_Role sample_mpsc (gs_outbox (sample_session 1))"
proof -
  have game: "host_run (game_actor sample_mpsc KEEP_ALIVE_TIMEOUT) (game_service sample_mpsc ([], False))
      (game_worker sample_mysql map_redis ''p:'') ([], Map.empty) ([] @ [Accept_Event 0])
      (sample_game_host (sample_session 1) sample_before [] [] [], [], Map.empty)"
    by (rule host_run.step [OF host_run.start sample_step_accept])
  have "mp_queue sample_mpsc ([], False) = []" by (simp add: sample_defs)
  from servers_speak_protocol [OF mpsc_laws_sample this sample_checking game]
  show ?thesis by (auto simp: asking_host_def sample_game_host_def)
qed

end
