(* ===== verification/Shutdown.thy ===== *)
theory Shutdown
  imports Server Retry
begin

text \<open>
  How a server stops: \<open>serve\<close> in \<open>crates/login_server/src/lib.rs\<close> and \<open>crates/game_server/src/lib.rs\<close> with
  the ends of its sessions (\<open>run\<close> in \<open>session.rs\<close> after the event loop), from the moment the shutdown
  token is cancelled until \<open>serve\<close> returns, and the end of \<open>main\<close>. The kick token of a session is a child
  of the shutdown token.
\<close>

section \<open>The end of a session\<close>

text \<open>
  After its event loop a session is out of the registry. It waits for its writer (\<open>writer.close\<close>); with
  an account, GameServer then records the logout: an attempt, and a sleep after one that failed.
\<close>

datatype ending = Draining "u64 option" | Attempting u64 | Sleeping u64

text \<open>
  \<open>touch\<close> is \<open>backend.touch_last_login\<close>. The \<open>select!\<close> after a failed attempt finds the shutdown token
  cancelled before its sleep is over; a sleep that has begun earlier may be over at the same moment.
\<close>

inductive ending_step :: "(u64 \<Rightarrow> 'b \<Rightarrow> bool \<times> 'b) \<Rightarrow> bool \<Rightarrow> ending \<times> 'b \<Rightarrow> ending option \<times> 'b \<Rightarrow> bool"
  for touch and stopping where
  drained: "ending_step touch stopping (Draining a, b) (map_option Attempting a, b)"
| recorded: "touch a b = (True, b') \<Longrightarrow> ending_step touch stopping (Attempting a, b) (None, b')"
| failed: "touch a b = (False, b') \<Longrightarrow>
    ending_step touch stopping (Attempting a, b) (if stopping then None else Some (Sleeping a), b')"
| woke: "ending_step touch stopping (Sleeping a, b) (Some (Attempting a), b)"
| abandoned: "stopping \<Longrightarrow> ending_step touch stopping (Sleeping a, b) (None, b)"

section \<open>The server while it runs and stops\<close>

text \<open>\<open>sg_endings\<close> are the tracked tasks after their event loops; \<open>sg_accepting\<close>: the acceptor runs.\<close>

record ('s, 'w, 'b) serving =
  sg_server :: "('s, 'w) server"
  sg_endings :: "ending list"
  sg_accepting :: bool
  sg_shutdown :: bool
  sg_stores :: 'b

definition serving_start :: "'b \<Rightarrow> ('s, 'w, 'b) serving" where
  "serving_start b =
     \<lparr>sg_server = server_start, sg_endings = [], sg_accepting = True, sg_shutdown = False, sg_stores = b\<rparr>"

text \<open>A child of a cancelled token is cancelled from the start.\<close>

definition child_token :: "bool \<Rightarrow> u64 \<Rightarrow> (u64, 'w) world \<Rightarrow> (u64, 'w) world" where
  "child_token parent_cancelled k w =
     (if parent_cancelled then w\<lparr>cancelled := insert k (cancelled w)\<rparr> else w)"

datatype serve_event = Ev_Accept | Ev_Session | Ev_Ending | Ev_Cancel | Ev_Shutdown | Ev_Stop

text \<open>
  The acceptor's \<open>select!\<close> is not biased: with the token cancelled it may still accept a connection that
  is ready, until it takes the other branch and returns.
\<close>

inductive serve_step :: "('s, u64, 'i, 'w) actor \<Rightarrow> ('s, 'w) service \<Rightarrow> ('s \<Rightarrow> u64 option) \<Rightarrow>
    (u64 \<Rightarrow> 'b \<Rightarrow> bool \<times> 'b) \<Rightarrow> ('s, 'w, 'b) serving \<Rightarrow> serve_event \<Rightarrow> ('s, 'w, 'b) serving \<Rightarrow> bool"
  for act and svc and logs_out and touch where
  accept: "sg_accepting g \<Longrightarrow> v = sg_server g \<Longrightarrow>
    sc_start svc (sv_next_id v) (sv_next_id v + 1) now (sv_world v) = (n, s, w) \<Longrightarrow> sv_next_id v + 1 \<noteq> 0 \<Longrightarrow>
    serve_step act svc logs_out touch g Ev_Accept
      (g\<lparr>sg_server := v\<lparr>sv_next_id := n, sv_running := (sv_running v)(sv_next_id v + 1 \<mapsto> s),
         sv_world := child_token (sg_shutdown g) (sv_next_id v + 1) w\<rparr>\<rparr>)"
| go_on: "v = sg_server g \<Longrightarrow> sv_running v i = Some s \<Longrightarrow> p_others p = [] \<Longrightarrow>
    loop_step act i p (s, sv_world v) = (Continue, s', w) \<Longrightarrow>
    serve_step act svc logs_out touch g Ev_Session
      (g\<lparr>sg_server := v\<lparr>sv_running := (sv_running v)(i \<mapsto> s'), sv_world := w\<rparr>\<rparr>)"
| finish: "v = sg_server g \<Longrightarrow> sv_running v i = Some s \<Longrightarrow> p_others p = [] \<Longrightarrow>
    loop_step act i p (s, sv_world v) = (Break, s', w) \<Longrightarrow>
    serve_step act svc logs_out touch g Ev_Session
      (g\<lparr>sg_server := v\<lparr>sv_running := (sv_running v)(i := None), sv_world := sc_end svc (s', w)\<rparr>,
         sg_endings := sg_endings g @ [Draining (logs_out s')]\<rparr>)"
| ending: "k < length (sg_endings g) \<Longrightarrow>
    ending_step touch (sg_shutdown g) (sg_endings g ! k, sg_stores g) (e, b) \<Longrightarrow>
    serve_step act svc logs_out touch g Ev_Ending
      (g\<lparr>sg_endings := (case e of
           None \<Rightarrow> take k (sg_endings g) @ drop (Suc k) (sg_endings g)
         | Some x \<Rightarrow> (sg_endings g)[k := x]), sg_stores := b\<rparr>)"
| cancel: "v = sg_server g \<Longrightarrow>
    serve_step act svc logs_out touch g Ev_Cancel
      (g\<lparr>sg_server := v\<lparr>sv_world := (sv_world v)\<lparr>cancelled := insert k (cancelled (sv_world v))\<rparr>\<rparr>\<rparr>)"
| shutdown: "\<not> sg_shutdown g \<Longrightarrow> v = sg_server g \<Longrightarrow>
    serve_step act svc logs_out touch g Ev_Shutdown
      (g\<lparr>sg_shutdown := True, sg_server := v\<lparr>sv_world := (sv_world v)\<lparr>cancelled :=
         cancelled (sv_world v) \<union> dom (sv_running v)\<rparr>\<rparr>\<rparr>)"
| stop: "sg_shutdown g \<Longrightarrow> sg_accepting g \<Longrightarrow>
    serve_step act svc logs_out touch g Ev_Stop (g\<lparr>sg_accepting := False\<rparr>)"

inductive serve_run :: "('s, u64, 'i, 'w) actor \<Rightarrow> ('s, 'w) service \<Rightarrow> ('s \<Rightarrow> u64 option) \<Rightarrow>
    (u64 \<Rightarrow> 'b \<Rightarrow> bool \<times> 'b) \<Rightarrow> ('s, 'w, 'b) serving \<Rightarrow> serve_event list \<Rightarrow> ('s, 'w, 'b) serving \<Rightarrow> bool"
  for act and svc and logs_out and touch and g0 where
  start: "serve_run act svc logs_out touch g0 [] g0"
| step: "serve_run act svc logs_out touch g0 evs g \<Longrightarrow> serve_step act svc logs_out touch g ev g' \<Longrightarrow>
    serve_run act svc logs_out touch g0 (evs @ [ev]) g'"

text \<open>The acceptor has returned and \<open>sessions.wait()\<close> finds no task.\<close>

definition serve_returned :: "('s, 'w, 'b) serving \<Rightarrow> bool" where
  "serve_returned g \<longleftrightarrow> \<not> sg_accepting g \<and> sv_running (sg_server g) = Map.empty \<and> sg_endings g = []"

section \<open>It is a server all the time\<close>

lemma cancel_all:
  assumes "finite K"
  shows "(server_step act svc)\<^sup>*\<^sup>* v (v\<lparr>sv_world := (sv_world v)\<lparr>cancelled := cancelled (sv_world v) \<union> K\<rparr>\<rparr>)"
  using assms
proof (induction K rule: finite_induct)
  case (insert k K)
  from server_step.cancel [of act svc "v\<lparr>sv_world := (sv_world v)\<lparr>cancelled := cancelled (sv_world v) \<union> K\<rparr>\<rparr>" k]
  have "server_step act svc (v\<lparr>sv_world := (sv_world v)\<lparr>cancelled := cancelled (sv_world v) \<union> K\<rparr>\<rparr>)
      (v\<lparr>sv_world := (sv_world v)\<lparr>cancelled := cancelled (sv_world v) \<union> insert k K\<rparr>\<rparr>)" by simp
  with insert.IH show ?case by (rule rtranclp.rtrancl_into_rtrancl)
qed simp

lemma serve_step_server:
  assumes "serve_step act svc logs_out touch g ev g'" and "finite (dom (sv_running (sg_server g)))"
  shows "(server_step act svc)\<^sup>*\<^sup>* (sg_server g) (sg_server g') \<and> finite (dom (sv_running (sg_server g')))"
  using assms(1)
proof cases
  case (accept v now n s w)
  let ?v = "v\<lparr>sv_next_id := n, sv_running := (sv_running v)(sv_next_id v + 1 \<mapsto> s), sv_world := w\<rparr>"
  have "server_step act svc v ?v" by (rule server_step.accept [OF accept(5,6)])
  moreover have "(server_step act svc)\<^sup>*\<^sup>* ?v (sg_server g')"
    using accept server_step.cancel [of act svc ?v "sv_next_id v + 1"] by (auto simp: child_token_def)
  ultimately have "(server_step act svc)\<^sup>*\<^sup>* v (sg_server g')" by (rule converse_rtranclp_into_rtranclp)
  with accept assms(2) show ?thesis by simp
next
  case (go_on v i s p s' w)
  from server_step.go_on [OF go_on(4-6), of svc] go_on assms(2) show ?thesis by auto
next
  case (finish v i s p s' w)
  from server_step.finish [OF finish(4-6), of svc] finish assms(2) show ?thesis by auto
next
  case (cancel v k)
  from server_step.cancel [of act svc v k] cancel assms(2) show ?thesis by auto
next
  case (shutdown v)
  with cancel_all [OF assms(2), of act svc "sg_server g"] assms(2) show ?thesis by simp
qed (use assms(2) in simp_all)

lemma serve_run_server:
  assumes "serve_run act svc logs_out touch (serving_start b) evs g"
  shows "server_reachable act svc (sg_server g) \<and> finite (dom (sv_running (sg_server g)))"
  using assms
proof (induction rule: serve_run.induct)
  case start
  show ?case by (simp add: serving_start_def server_reachable_def server_start_def)
next
  case (step evs g ev g')
  from serve_step_server [OF step.hyps(2)] step.IH show ?case
    unfolding server_reachable_def by (meson rtranclp_trans)
qed

section \<open>It stops\<close>

text \<open>The steps a stopping server still has to take, for each session and for the acceptor.\<close>

fun ending_steps :: "ending \<Rightarrow> nat" where
  "ending_steps (Draining None) = 1"
| "ending_steps (Draining (Some a)) = 2"
| "ending_steps (Attempting a) = 1"
| "ending_steps (Sleeping a) = 2"

definition steps_to_stop :: "('s, 'w, 'b) serving \<Rightarrow> nat" where
  "steps_to_stop g = 3 * card (dom (sv_running (sg_server g))) + (\<Sum>e\<leftarrow>sg_endings g. ending_steps e) +
     (if sg_accepting g then 1 else 0)"

definition stopping :: "('s, 'w, 'b) serving \<Rightarrow> bool" where
  "stopping g \<longleftrightarrow> sg_shutdown g \<and> dom (sv_running (sg_server g)) \<subseteq> cancelled (sv_world (sg_server g)) \<and>
     finite (dom (sv_running (sg_server g)))"

definition own_steps :: "serve_event list \<Rightarrow> nat" where
  "own_steps evs = length (filter (\<lambda>ev. ev \<noteq> Ev_Cancel) evs)"

definition accepts :: "serve_event list \<Rightarrow> nat" where
  "accepts evs = length (filter (\<lambda>ev. ev = Ev_Accept) evs)"

lemma ending_step_decreases:
  assumes "ending_step touch True (e, b) (e', b')"
  shows "(case e' of None \<Rightarrow> 0 | Some x \<Rightarrow> ending_steps x) < ending_steps e"
  using assms by cases (auto split: option.split)

lemma sum_list_update_lt:
  fixes f :: "'a \<Rightarrow> nat"
  assumes "k < length xs" and "f y < f (xs ! k)"
  shows "sum_list (map f (xs[k := y])) < sum_list (map f xs)"
  using assms by (induction xs arbitrary: k) (auto split: nat.split simp: less_Suc_eq_0_disj)

lemma sum_list_remove_lt:
  fixes f :: "'a \<Rightarrow> nat"
  assumes "k < length xs" and "0 < f (xs ! k)"
  shows "sum_list (map f (take k xs @ drop (Suc k) xs)) < sum_list (map f xs)"
  using assms by (induction xs arbitrary: k) (auto simp: less_Suc_eq_0_disj)

lemma ending_removed_decreases:
  assumes "k < length es" and "ending_step touch True (es ! k, b) (e, b')"
  shows "sum_list (map ending_steps (case e of None \<Rightarrow> take k es @ drop (Suc k) es | Some x \<Rightarrow> es[k := x])) <
    sum_list (map ending_steps es)"
  using ending_step_decreases [OF assms(2)] sum_list_update_lt [OF assms(1)] sum_list_remove_lt [OF assms(1)]
  by (cases e) (simp_all del: map_append sum_list_append)

lemma card_dom_insert_le: "finite (dom m) \<Longrightarrow> card (dom (m(i \<mapsto> s))) \<le> Suc (card (dom m))"
  by (simp add: card_insert_if)

context connection_server
begin

lemma stopping_session:
  assumes "stopping g" and "sv_running (sg_server g) i = Some s" and "p_others p = []"
  shows "loop_step act i p (s, sv_world (sg_server g)) = (Break, writer_takes act (p_taken p) s, sv_world (sg_server g))"
proof -
  have "i \<in> cancelled (others_run (p_others p) (sv_world (sg_server g)))"
    using assms by (auto simp: stopping_def)
  from kick_ends [OF this, of s] assms(3) show ?thesis by (simp add: wake_def)
qed

lemma stopping_step:
  assumes "stopping g" and "serve_step act svc logs_out touch g ev g'"
  shows "stopping g' \<and> own_steps [ev] + steps_to_stop g' \<le> steps_to_stop g + 4 * accepts [ev]"
  using assms(2)
proof cases
  case (accept v now n s w)
  with start [OF accept(5)] card_dom_insert_le [of "sv_running v" "sv_next_id v + 1" s] assms(1)
  show ?thesis by (auto simp: stopping_def steps_to_stop_def child_token_def own_steps_def accepts_def)
next
  case (go_on v i s p s' w)
  with stopping_session [OF assms(1), of i s p] show ?thesis by simp
next
  case (finish v i s p s' w)
  with stopping_session [OF assms(1), of i s p] have w: "w = sv_world v" by simp
  have "card (dom (sv_running v)) = Suc (card (dom (sv_running v) - {i}))"
    using assms(1) finish by (intro card.remove) (auto simp: stopping_def)
  moreover have "ending_steps (Draining (logs_out s')) \<le> 2" by (cases "logs_out s'") auto
  ultimately show ?thesis using assms(1) finish w by (auto simp: stopping_def steps_to_stop_def end_cancelled own_steps_def accepts_def)
next
  case (ending k e b)
  have "sg_shutdown g" using assms(1) by (simp add: stopping_def)
  with ending ending_removed_decreases [OF ending(3), of touch "sg_stores g" e b] assms(1)
  show ?thesis by (auto simp: stopping_def steps_to_stop_def own_steps_def accepts_def)
next
  case (cancel v k)
  with assms(1) show ?thesis by (auto simp: stopping_def steps_to_stop_def own_steps_def accepts_def)
next
  case (shutdown v)
  with assms(1) show ?thesis by (simp add: stopping_def)
next
  case stop
  with assms(1) show ?thesis by (auto simp: stopping_def steps_to_stop_def own_steps_def accepts_def)
qed

lemma stopping_run:
  assumes "serve_run act svc logs_out touch g evs g'" and "stopping g"
  shows "stopping g' \<and> own_steps evs + steps_to_stop g' \<le> steps_to_stop g + 4 * accepts evs"
  using assms(1)
proof (induction rule: serve_run.induct)
  case start
  with assms(2) show ?case by (simp add: own_steps_def accepts_def)
next
  case (step evs g1 ev g2)
  from stopping_step [OF conjunct1 [OF step.IH] step.hyps(2)] step.IH
  show ?case by (auto simp: own_steps_def accepts_def)
qed

text \<open>A server that has not returned can go on by itself.\<close>

lemma stopping_goes_on:
  assumes "stopping g" and "\<not> serve_returned g"
  shows "\<exists>ev g'. serve_step act svc logs_out touch g ev g' \<and> ev \<noteq> Ev_Cancel \<and> ev \<noteq> Ev_Accept"
proof -
  consider (accepting) "sg_accepting g" | (running) i s where "sv_running (sg_server g) i = Some s"
    | (endings) "sg_endings g \<noteq> []"
    using assms(2) by (auto simp: serve_returned_def fun_eq_iff)
  then show ?thesis
  proof cases
    case accepting
    with assms(1) serve_step.stop [of g act svc logs_out touch] show ?thesis by (auto simp: stopping_def)
  next
    case running
    have "p_others (idle_at 0 :: (u64, 'c) poll) = []" by (simp add: idle_at_def)
    from serve_step.finish [OF refl running this stopping_session [OF assms(1) running this]]
    show ?thesis by blast
  next
    case endings
    obtain e where e: "ending_step touch True (sg_endings g ! 0, sg_stores g) e"
    proof (cases "sg_endings g ! 0")
      case (Attempting a)
      show ?thesis
      proof (cases "touch a (sg_stores g)")
        case (Pair ok b)
        with Attempting that ending_step.recorded [of touch a "sg_stores g" b True]
          ending_step.failed [of touch a "sg_stores g" b True] show ?thesis by (cases ok) auto
      qed
    qed (use that ending_step.drained ending_step.woke in \<open>metis+\<close>)
    with assms(1) have "ending_step touch (sg_shutdown g) (sg_endings g ! 0, sg_stores g) (fst e, snd e)"
      by (simp add: stopping_def)
    from serve_step.ending [OF _ this, of act svc logs_out] endings show ?thesis by blast
  qed
qed

text \<open>Cancelling the shutdown token of a running server makes it stop.\<close>

lemma shutdown_stopping:
  assumes "serve_run act svc logs_out touch (serving_start b) evs g" and "sg_shutdown g"
  shows "stopping g"
  using assms
proof (induction rule: serve_run.induct)
  case start
  then show ?case by (simp add: serving_start_def)
next
  case (step evs g ev g')
  show ?case
  proof (cases "sg_shutdown g")
    case True
    with stopping_step [OF step.IH step.hyps(2)] show ?thesis by blast
  next
    case False
    with step.hyps(2) step.prems show ?thesis
      using conjunct2 [OF serve_run_server [OF step.hyps(1)]]
      by cases (auto simp: stopping_def)
  qed
qed

lemma serve_stops:
  assumes "serve_run act svc logs_out touch (serving_start b) evs g" and "sg_shutdown g"
    and "serve_run act svc logs_out touch g evs' g'"
  shows "own_steps evs' \<le> 3 * card (dom (sv_running (sg_server g))) + 2 * length (sg_endings g) + 1 + 4 * accepts evs'"
    and "(\<nexists>ev g''. serve_step act svc logs_out touch g' ev g'' \<and> ev \<noteq> Ev_Cancel \<and> ev \<noteq> Ev_Accept) \<Longrightarrow>
      serve_returned g' \<and> sessions (registry (sv_world (sg_server g'))) = Map.empty"
proof -
  note run = stopping_run [OF assms(3) shutdown_stopping [OF assms(1,2)]]
  have "sum_list (map ending_steps es) \<le> 2 * length es" for es
  proof (induction es)
    case (Cons e es)
    have "ending_steps e \<le> 2" by (cases e rule: ending_steps.cases) auto
    with Cons show ?case by simp
  qed simp
  from run this [of "sg_endings g"] show "own_steps evs' \<le> 3 * card (dom (sv_running (sg_server g))) + 2 * length (sg_endings g) + 1 + 4 * accepts evs'"
    by (simp add: steps_to_stop_def split: if_splits)
  assume "\<nexists>ev g''. serve_step act svc logs_out touch g' ev g'' \<and> ev \<noteq> Ev_Cancel \<and> ev \<noteq> Ev_Accept"
  with stopping_goes_on run have returned: "serve_returned g'" by blast
  have "serve_run act svc logs_out touch (serving_start b) (evs @ evs') g'"
    using assms(3,1) by (induction rule: serve_run.induct) (auto simp flip: append_assoc intro: serve_run.step)
  from serve_run_server [OF this] have "server_inv (sg_server g')" by (blast intro: server_reachable_inv)
  with returned have "sessions (registry (sv_world (sg_server g'))) = Map.empty"
    by (auto simp: serve_returned_def server_inv_def registry_kick_def fun_eq_iff)
  with returned show "serve_returned g' \<and> sessions (registry (sv_world (sg_server g'))) = Map.empty" ..
qed

end

section \<open>GameServer and LoginServer stop\<close>

text \<open>Whose logout is recorded, and an attempt at it. LoginServer records none.\<close>

definition game_logs_out :: "'c game_session \<Rightarrow> u64 option" where
  "game_logs_out s = map_option account_id (gs_account s)"

definition game_touch :: "'b game_backend \<Rightarrow> u64 \<Rightarrow> 'b \<Rightarrow> bool \<times> 'b" where
  "game_touch be aid b =
     (case gb_touch_last_login be aid b of (Inl e, b') \<Rightarrow> (False, b') | (Inr _, b') \<Rightarrow> (True, b'))"

lemma game_logs_out_run_end: "fst (game_run_end (s, w)) = game_logs_out s"
  by (simp add: game_run_end_def game_logs_out_def)

abbreviation game_serve_run where
  "game_serve_run mp t tx be \<equiv>
     serve_run (game_actor mp t) (game_service mp tx) game_logs_out (game_touch be)"

abbreviation game_serve_step where
  "game_serve_step mp t tx be \<equiv>
     serve_step (game_actor mp t) (game_service mp tx) game_logs_out (game_touch be)"

text \<open>
  C7. GameServer stops when it is told to. From the moment its shutdown token is cancelled, whatever its
  sessions were doing, it takes at most three more steps for each of them, two for each that was ending,
  one to stop accepting, and four for each connection that still slips in; as long as \<open>serve\<close> has not
  returned something can be done, the database failing or not; and when it returns no session is left,
  nor any trace of one in the registry.
\<close>

theorem game_serve_stops:
  assumes "game_serve_run mp t tx be (serving_start b) evs g" and "sg_shutdown g"
    and "game_serve_run mp t tx be g evs' g'"
  shows "own_steps evs' \<le> 3 * card (dom (sv_running (sg_server g))) + 2 * length (sg_endings g) + 1 + 4 * accepts evs' \<and>
    ((\<nexists>ev g''. game_serve_step mp t tx be g' ev g'' \<and> ev \<noteq> Ev_Cancel \<and> ev \<noteq> Ev_Accept) \<longrightarrow>
      serve_returned g' \<and> sessions (registry (sv_world (sg_server g'))) = Map.empty)"
  using game_server.serve_stops [OF assms] by blast

lemma login_serve_stops:
  assumes "serve_run (login_actor mp t) (login_service mp tx) (\<lambda>s. None) touch (serving_start b) evs g" and "sg_shutdown g"
    and "serve_run (login_actor mp t) (login_service mp tx) (\<lambda>s. None) touch g evs' g'"
  shows "own_steps evs' \<le> 3 * card (dom (sv_running (sg_server g))) + 2 * length (sg_endings g) + 1 + 4 * accepts evs' \<and>
    ((\<nexists>ev g''. serve_step (login_actor mp t) (login_service mp tx) (\<lambda>s. None) touch g' ev g'' \<and> ev \<noteq> Ev_Cancel \<and> ev \<noteq> Ev_Accept) \<longrightarrow>
      serve_returned g' \<and> sessions (registry (sv_world (sg_server g'))) = Map.empty)"
  using login_server.serve_stops [OF assms] by blast

text \<open>One session, for the witness.\<close>

definition sample_backend_down :: "unit game_backend" where
  "sample_backend_down =
     \<lparr>gb_take_auth_token = (\<lambda>tok b. (Inl GameBackendError, b)), gb_save_score = (\<lambda>a x y z b. (Inl GameBackendError, b)),
      gb_touch_last_login = (\<lambda>a b. (Inl GameBackendError, b))\<rparr>"

abbreviation sample_serve_run where
  "sample_serve_run \<equiv> game_serve_run sample_mpsc KEEP_ALIVE_TIMEOUT ([], False) sample_backend_down"

definition sample_serving where
  "sample_serving running r C es accepting down =
     \<lparr>sg_server = \<lparr>sv_next_id = 1, sv_running = running, sv_world = \<lparr>registry = r, cancelled = C, spawned = []\<rparr>\<rparr>,
      sg_endings = es, sg_accepting = accepting, sg_shutdown = down, sg_stores = ()\<rparr>"

lemma sample_serving_shutdown:
  "sample_serve_run (serving_start ()) [Ev_Accept, Ev_Shutdown]
     (sample_serving [1 \<mapsto> sample_session 1] (register 1 1 registry_default) {1} [] True True)"
proof -
  let ?step = "game_serve_step sample_mpsc KEEP_ALIVE_TIMEOUT ([], False) sample_backend_down"
  let ?g = "sample_serving [1 \<mapsto> sample_session 1] (register 1 1 registry_default) {} [] True False"
  have a: "?step (serving_start ()) Ev_Accept ?g"
    using serve_step.accept [OF _ refl, of "serving_start ()" "game_service sample_mpsc ([], False)" 0 1 "sample_session 1"
        "\<lparr>registry = register 1 1 registry_default, cancelled = {}, spawned = []\<rparr>"]
    by (simp add: sample_start serving_start_def server_start_def world_new_def child_token_def sample_serving_def)
  have b: "?step ?g Ev_Shutdown (sample_serving [1 \<mapsto> sample_session 1] (register 1 1 registry_default) {1} [] True True)"
    using serve_step.shutdown [OF _ refl, of ?g] by (simp add: sample_serving_def)
  from serve_run.step [OF serve_run.step [OF serve_run.start a] b] show ?thesis by simp
qed

lemma sample_serving_stops:
  "sample_serve_run (sample_serving [1 \<mapsto> sample_session 1] (register 1 1 registry_default) {1} [] True True)
     [Ev_Session, Ev_Ending, Ev_Stop] (sample_serving Map.empty (remove_session 1 (register 1 1 registry_default)) {1} [] False True)"
proof -
  let ?step = "game_serve_step sample_mpsc KEEP_ALIVE_TIMEOUT ([], False) sample_backend_down"
  let ?r = "register 1 1 registry_default" and ?s = "sample_session 1"
  let ?g = "sample_serving [1 \<mapsto> ?s] ?r {1} [] True True"
  let ?g1 = "sample_serving Map.empty (remove_session 1 ?r) {1} [Draining None] True True"
  let ?g2 = "sample_serving Map.empty (remove_session 1 ?r) {1} [] True True"
  have "loop_step (game_actor sample_mpsc KEEP_ALIVE_TIMEOUT) 1 (idle_at 0) (?s, sv_world (sg_server ?g)) =
      (Break, ?s, sv_world (sg_server ?g))"
    by (simp add: loop_step_def branch_of_def wake_def run_branch_def idle_at_def game_step_simps receive_from_def
        sample_serving_def sample_session_def game_session_new_def)
  from serve_step.finish [OF refl _ _ this, of "game_service sample_mpsc ([], False)" game_logs_out]
  have a: "?step ?g Ev_Session ?g1"
    by (simp add: sample_serving_def idle_at_def game_service_def game_run_end_def game_logs_out_def sample_session_def
        game_session_new_def)
  have b: "?step ?g1 Ev_Ending ?g2"
    using serve_step.ending [of 0 ?g1 "game_touch sample_backend_down" None "()"] ending_step.drained [of _ True None "()"]
    by (simp add: sample_serving_def)
  have c: "?step ?g2 Ev_Stop (sample_serving Map.empty (remove_session 1 ?r) {1} [] False True)"
    using serve_step.stop [of ?g2] by (simp add: sample_serving_def)
  from serve_run.step [OF serve_run.step [OF serve_run.step [OF serve_run.start a] b] c] show ?thesis by simp
qed

theorem game_serve_stops_witness:
  "own_steps [Ev_Session, Ev_Ending, Ev_Stop] \<le> (4 :: nat)"
  using game_serve_stops [OF sample_serving_shutdown _ sample_serving_stops]
  by (simp add: sample_serving_def accepts_def)

section \<open>The end of main\<close>

text \<open>
  From \<open>ctrl_c().await?\<close> on: whether the shutdown token was cancelled, and what \<open>main\<close> returns. The
  arguments are what it awaits: the signal, and how the tasks ended, the panic of one being a join error.
  The HTTP server of the admin API may also end with an error of its own.
\<close>

datatype main_error = Signal_Error | Join_Error | Admin_Error

definition game_main_end :: "bool \<Rightarrow> bool \<Rightarrow> bool \<Rightarrow> bool \<Rightarrow> bool \<times> (main_error + unit)" where
  "game_main_end signal server notice monitor =
     (if \<not> signal then (False, Inl Signal_Error)
      else (True,
        if \<not> server then Inl Join_Error
        else if \<not> notice then Inl Join_Error
        else if \<not> monitor then Inl Join_Error
        else Inr ()))"

definition login_main_end :: "bool \<Rightarrow> bool \<Rightarrow> bool option option \<Rightarrow> bool \<Rightarrow> bool \<Rightarrow> bool \<times> (main_error + unit)" where
  "login_main_end signal server admin notice monitor =
     (if \<not> signal then (False, Inl Signal_Error)
      else (True,
        if \<not> server then Inl Join_Error
        else (case admin of
            Some None \<Rightarrow> Inl Join_Error
          | Some (Some False) \<Rightarrow> Inl Admin_Error
          | _ \<Rightarrow>
            if \<not> notice then Inl Join_Error
            else if \<not> monitor then Inl Join_Error
            else Inr ())))"

text \<open>Without an admin API LoginServer ends as GameServer does.\<close>

lemma login_main_end_without_admin: "login_main_end signal server None notice monitor = game_main_end signal server notice monitor"
  by (simp add: login_main_end_def game_main_end_def)

end
