(* ===== verification/Keep_Alive.thy ===== *)
theory Keep_Alive
  imports Client_Game
begin

text \<open>
  The keep-alive across the two programs: the interval of \<open>game_phase\<close> in \<open>dummy_client/src/client.rs\<close>
  against the timeout in \<open>event_loop\<close> of \<open>game_server/src/session.rs\<close>. \<open>Client_Game\<close> lets the two talk with
  no regard to time; here every step happens at a time, what is on its way carries the time it was
  sent, and time passes only as far as nothing is overdue.
\<close>

section \<open>Time\<close>

text \<open>How long a message may wait in either direction, and by how much the client may miss a tick.\<close>

record delays =
  to_server :: duration
  to_client :: duration
  lateness :: duration

text \<open>The times run along \<open>tk_sent\<close> and along the queue of the session's outbox.\<close>

record 'c timed_talk =
  tt_talk :: "'c talk"
  tt_now :: instant
  tt_sent_at :: "instant list"
  tt_queued_at :: "instant list"

abbreviation talk_queue :: "('c, message_wrapper) mpsc \<Rightarrow> 'c talk \<Rightarrow> message_wrapper list" where
  "talk_queue mp a \<equiv> gs_queued mp (tk_session a)"

definition on_time :: "delays \<Rightarrow> instant \<Rightarrow> 'c timed_talk \<Rightarrow> bool" where
  "on_time D now a \<longleftrightarrow>
     (\<forall>t\<in>set (tt_sent_at a). now \<le> t + to_server D) \<and>
     (\<forall>t\<in>set (tt_queued_at a). now \<le> t + to_client D) \<and>
     (case gc_keep_alive (tk_client (tt_talk a)) of None \<Rightarrow> True | Some tick \<Rightarrow> now \<le> tick + lateness D)"

text \<open>The steps of \<open>talk_step\<close>, at the time it is, and the passing of time.\<close>

inductive timed_step :: "delays \<Rightarrow> ('c, message_wrapper) mpsc \<Rightarrow> duration \<Rightarrow> 'k \<Rightarrow> (f32 \<Rightarrow> f32 \<Rightarrow> f32) \<Rightarrow> bool \<Rightarrow>
    string \<Rightarrow> 'c timed_talk \<times> ('k, game_work) world \<Rightarrow> 'c timed_talk \<times> ('k, game_work) world \<Rightarrow> bool"
  for D mp t kick fadd moves token where
  client_reads: "tk = tt_talk a \<Longrightarrow> talk_queue mp tk = m # ms \<Longrightarrow> gw_now w = tt_now a \<Longrightarrow>
    gw_ready w = Ready_Message (Message m) \<Longrightarrow>
    game_client_step fadd moves token w (tk_client tk) = (ps, Inr c) \<Longrightarrow>
    timed_step D mp t kick fadd moves token (a, wd)
      (a\<lparr>tt_talk := tk\<lparr>tk_client := c, tk_sent := tk_sent tk @ ps,
           tk_session := (tk_session tk)\<lparr>gs_outbox := receive_one mp (gs_outbox (tk_session tk))\<rparr>\<rparr>,
         tt_sent_at := tt_sent_at a @ replicate (length ps) (tt_now a),
         tt_queued_at := tl (tt_queued_at a)\<rparr>, wd)"
| client_acts: "tk = tt_talk a \<Longrightarrow> gw_now w = tt_now a \<Longrightarrow> (\<forall>f. gw_ready w \<noteq> Ready_Message f) \<Longrightarrow>
    game_client_step fadd moves token w (tk_client tk) = (ps, Inr c) \<Longrightarrow>
    timed_step D mp t kick fadd moves token (a, wd)
      (a\<lparr>tt_talk := tk\<lparr>tk_client := c, tk_sent := tk_sent tk @ ps\<rparr>,
         tt_sent_at := tt_sent_at a @ replicate (length ps) (tt_now a)\<rparr>, wd)"
| server_reads: "tk = tt_talk a \<Longrightarrow> tk_sent tk = m # ms \<Longrightarrow> p_now p = tt_now a \<Longrightarrow>
    p_frame p = Some (Message (outgoing m)) \<Longrightarrow> p_taken p = 0 \<Longrightarrow>
    loop_step (game_actor mp t) kick p (tk_session tk, wd) = (Continue, s, wd') \<Longrightarrow>
    timed_step D mp t kick fadd moves token (a, wd)
      (a\<lparr>tt_talk := tk\<lparr>tk_sent := ms, tk_session := s\<rparr>, tt_sent_at := tl (tt_sent_at a),
         tt_queued_at := tt_queued_at a @
           replicate (length (gs_queued mp s) - length (talk_queue mp tk)) (tt_now a)\<rparr>, wd')"
| server_acts: "tk = tt_talk a \<Longrightarrow> p_now p = tt_now a \<Longrightarrow> p_frame p = None \<Longrightarrow> p_taken p = 0 \<Longrightarrow>
    loop_step (game_actor mp t) kick p (tk_session tk, wd) = (Continue, s, wd') \<Longrightarrow>
    timed_step D mp t kick fadd moves token (a, wd)
      (a\<lparr>tt_talk := tk\<lparr>tk_session := s\<rparr>,
         tt_queued_at := tt_queued_at a @
           replicate (length (gs_queued mp s) - length (talk_queue mp tk)) (tt_now a)\<rparr>, wd')"
| time_passes: "tt_now a \<le> now \<Longrightarrow> on_time D now a \<Longrightarrow>
    timed_step D mp t kick fadd moves token (a, wd) (a\<lparr>tt_now := now\<rparr>, wd)"

definition timed_start :: "('c, message_wrapper) mpsc \<Rightarrow> u64 \<Rightarrow> 'c outbox \<Rightarrow> instant \<Rightarrow> 'c timed_talk" where
  "timed_start mp i ob now =
     \<lparr>tt_talk = talk_start i ob now, tt_now = now, tt_sent_at = [],
      tt_queued_at = replicate (length (queued mp ob)) now\<rparr>"

definition timed_reachable where
  "timed_reachable D mp t kick fadd moves token start y \<longleftrightarrow>
     (\<exists>wd. (timed_step D mp t kick fadd moves token)\<^sup>*\<^sup>* (start, wd) y)"

text \<open>Without the times it is the conversation of \<open>Client_Game\<close>.\<close>

lemma timed_step_talks:
  assumes "timed_step D mp t kick fadd moves token (a, wd) (a', wd')"
  shows "(talk_step mp t kick fadd moves token)\<^sup>=\<^sup>= (tt_talk a, wd) (tt_talk a', wd')"
  using assms
  by (cases rule: timed_step.cases) (auto intro: talk_step.intros)

section \<open>When the session hears next\<close>

text \<open>
  Keep-alives on their way, sent at \<open>\<sigma>s\<close>, to a session that last heard at \<open>seen\<close>: each arrives in time
  after the one before it, and after the last of them \<open>P\<close> holds of the time of the latest sign of life.
\<close>

fun heard_in_time :: "duration \<Rightarrow> duration \<Rightarrow> (instant \<Rightarrow> bool) \<Rightarrow> instant list \<Rightarrow> instant \<Rightarrow> bool" where
  "heard_in_time l t P [] seen \<longleftrightarrow> P seen"
| "heard_in_time l t P (\<sigma> # \<sigma>s) seen \<longleftrightarrow> \<sigma> + l < seen + t \<and> heard_in_time l t P \<sigma>s (max seen \<sigma>)"

lemma heard_in_time_mono:
  "heard_in_time l t P \<sigma>s seen \<Longrightarrow> seen \<le> seen' \<Longrightarrow>
    (\<And>x y. seen \<le> x \<Longrightarrow> x \<le> y \<Longrightarrow> P x \<Longrightarrow> Q y) \<Longrightarrow> heard_in_time l t Q \<sigma>s seen'"
proof (induction \<sigma>s arbitrary: seen seen')
  case (Cons \<sigma> \<sigma>s)
  have "heard_in_time l t Q \<sigma>s (max seen' \<sigma>)"
    by (rule Cons.IH [of "max seen \<sigma>"]) (use Cons.prems in auto)
  with Cons.prems(1,2) show ?case by simp
next
  case Nil
  from Nil.prems(3) [OF order_refl Nil.prems(2)] Nil.prems(1) show ?case by simp
qed

lemma heard_in_time_snoc [simp]:
  "heard_in_time l t P (\<sigma>s @ [\<sigma>]) seen \<longleftrightarrow> heard_in_time l t (\<lambda>x. \<sigma> + l < x + t \<and> P (max x \<sigma>)) \<sigma>s seen"
  by (induction \<sigma>s arbitrary: seen) auto

lemma heard_in_time_now: "list_all (\<lambda>\<sigma>. \<sigma> \<le> seen) \<sigma>s \<Longrightarrow> l < t \<Longrightarrow> P seen \<Longrightarrow> heard_in_time l t P \<sigma>s seen"
  by (induction \<sigma>s) (auto simp: max_absorb1)

definition keep_alives_sent :: "'c timed_talk \<Rightarrow> instant list" where
  "keep_alives_sent a = map snd (filter (\<lambda>x. fst x = KeepAliveRequest) (zip (tk_sent (tt_talk a)) (tt_sent_at a)))"

definition ticks_in_time :: "delays \<Rightarrow> ('c, message_wrapper) mpsc \<Rightarrow> duration \<Rightarrow> 'c talk \<Rightarrow> instant \<Rightarrow> bool" where
  "ticks_in_time D mp t tk seen \<longleftrightarrow> list_ex welcomes (talk_queue mp tk) \<or>
     (\<exists>tick. gc_keep_alive (tk_client tk) = Some tick \<and> tick + lateness D + to_server D < seen + t)"

definition timed_inv :: "delays \<Rightarrow> ('c, message_wrapper) mpsc \<Rightarrow> duration \<Rightarrow> 'c timed_talk \<Rightarrow> bool" where
  "timed_inv D mp t a \<longleftrightarrow>
     (let tk = tt_talk a; s = tk_session tk in
      length (tt_sent_at a) = length (tk_sent tk) \<and> list_all (\<lambda>\<sigma>. \<sigma> \<le> tt_now a) (tt_sent_at a) \<and>
      length (tt_queued_at a) = length (talk_queue mp tk) \<and>
      on_time D (tt_now a) a \<and> gs_last_keep_alive s \<le> tt_now a \<and>
      (\<forall>x\<in>set (zip (talk_queue mp tk) (tt_queued_at a)). welcomes (fst x) \<longrightarrow> snd x \<le> gs_last_keep_alive s) \<and>
      (game_authed s \<longrightarrow>
         heard_in_time (to_server D) t (ticks_in_time D mp t tk) (keep_alives_sent a) (gs_last_keep_alive s)))"

text \<open>With the invariant the deadline is ahead.\<close>

lemma timed_inv_deadline:
  assumes "timed_inv D mp t a" and "game_authed (tk_session (tt_talk a))"
    and "to_client D + KEEP_ALIVE_INTERVAL + lateness D + to_server D < t"
  shows "tt_now a < gs_last_keep_alive (tk_session (tt_talk a)) + t"
proof (cases "keep_alives_sent a")
  case (Cons \<sigma> \<sigma>s)
  then have "\<sigma> \<in> set (keep_alives_sent a)" by simp
  then have "\<sigma> \<in> set (tt_sent_at a)" by (auto simp: keep_alives_sent_def dest: set_zip_rightD)
  with assms(1) have "tt_now a \<le> \<sigma> + to_server D" by (auto simp: timed_inv_def Let_def on_time_def)
  moreover have "\<sigma> + to_server D < gs_last_keep_alive (tk_session (tt_talk a)) + t"
    using assms(1,2) Cons by (simp add: timed_inv_def Let_def)
  ultimately show ?thesis by simp
next
  case Nil
  then have "ticks_in_time D mp t (tt_talk a) (gs_last_keep_alive (tk_session (tt_talk a)))"
    using assms(1,2) by (simp add: timed_inv_def Let_def)
  then consider (told) "list_ex welcomes (talk_queue mp (tt_talk a))"
    | (tick) tick where "gc_keep_alive (tk_client (tt_talk a)) = Some tick"
      "tick + lateness D + to_server D < gs_last_keep_alive (tk_session (tt_talk a)) + t"
    unfolding ticks_in_time_def by blast
  then show ?thesis
  proof cases
    case told
    then obtain k where k: "k < length (talk_queue mp (tt_talk a))" "welcomes (talk_queue mp (tt_talk a) ! k)"
      by (auto simp: list_ex_length)
    let ?x = "(talk_queue mp (tt_talk a) ! k, tt_queued_at a ! k)"
    have len: "length (tt_queued_at a) = length (talk_queue mp (tt_talk a))"
      using assms(1) by (simp add: timed_inv_def Let_def)
    with k(1) have "?x \<in> set (zip (talk_queue mp (tt_talk a)) (tt_queued_at a))"
      by (auto simp: set_zip)
    with assms(1) k(2) have "snd ?x \<le> gs_last_keep_alive (tk_session (tt_talk a))"
      unfolding timed_inv_def Let_def by (metis fst_conv)
    moreover have "tt_now a \<le> tt_queued_at a ! k + to_client D"
      using assms(1) len k(1) by (auto simp: timed_inv_def Let_def on_time_def)
    ultimately show ?thesis using assms(3) by simp
  next
    case tick
    then have "tt_now a \<le> tick + lateness D" using assms(1) by (auto simp: timed_inv_def Let_def on_time_def)
    with tick(2) show ?thesis by simp
  qed
qed

section \<open>Every step keeps it\<close>

text \<open>What a session's step appends to the queue: a welcome exactly when it authenticates.\<close>

lemma game_step_queue:
  assumes laws: "mpsc_laws MAX_SEND_QUEUE_SIZE mp" and "p_taken p = 0"
    and step: "loop_step (game_actor mp t) kick p (s, w) = (Continue, s', w')"
  obtains new where "gs_queued mp s' = gs_queued mp s @ new" "length new \<le> 1"
    "list_ex welcomes new \<longleftrightarrow> delivered game_identity p \<noteq> None"
proof -
  have wake: "wake (game_actor mp t) p (s, w) = (s, others_run (p_others p) w)"
    using assms(2) by (simp add: wake_def game_step_simps receive_from_def)
  have sends: "gs_queued mp s' = gs_queued mp s @ [outgoing r]"
    if "game_send_flow mp r (s1, w1) = (Continue, s', w')" "gs_outbox s1 = gs_outbox s" for r s1 w1
    using game_send_flow_frame [OF that(1)] send_flow_spec(1,2) [OF laws, of r "gs_outbox s"] that(2)
    by (metis control_flow.distinct(1) fst_conv snd_conv)
  have "\<exists>new. gs_queued mp s' = gs_queued mp s @ new \<and> length new \<le> 1 \<and>
      (list_ex welcomes new \<longleftrightarrow> delivered game_identity p \<noteq> None)"
  proof (cases "p_frame p")
    case (Some fr)
    then have none: "delivered game_identity p = None" by (simp add: delivered_def)
    from loop_step_continue [OF step wake] Some obtain m where
      m: "game_on_remote mp (p_now p) m (s, others_run (p_others p) w) = (Continue, s', w')"
      by (auto simp: game_step_simps)
    show ?thesis unfolding none using m
      by (auto dest!: sends simp: game_handler_defs Let_def split: option.splits payload.splits if_splits)
  next
    case None
    show ?thesis
    proof (cases "p_inner p")
      case None
      with \<open>p_frame p = None\<close> loop_step_continue [OF step wake] show ?thesis
        by (auto simp: delivered_def intro: exI [of _ "[]"])
    next
      case (Some j)
      with \<open>p_frame p = None\<close> loop_step_continue [OF step wake]
      have j: "game_on_inner mp (p_now p) j (s, others_run (p_others p) w) = (Continue, s', w')"
        by (simp add: game_step_simps)
      have d: "delivered game_identity p = game_identity j" using Some \<open>p_frame p = None\<close> by (simp add: delivered_def)
      show ?thesis unfolding d using j
        by (auto dest!: sends simp: game_handler_defs game_identity_def
            split: game_inner_message.splits option.splits)
    qed
  qed
  with that show thesis by blast
qed

lemma server_step_inv:
  assumes laws: "mpsc_laws MAX_SEND_QUEUE_SIZE mp" and bound: "to_server D < t"
    and inv: "timed_inv D mp t a" and "tk = tt_talk a" and "p_now p = tt_now a" and taken: "p_taken p = 0"
    and step: "loop_step (game_actor mp t) kick p (tk_session tk, wd) = (Continue, s, wd')"
    and rest: "tk_sent tk' = drop n (tk_sent tk)" "sent_at = drop n (tt_sent_at a)"
    and tk': "tk_session tk' = s" "tk_client tk' = tk_client tk"
    and read: "n = 0 \<and> p_frame p = None \<or> n = 1 \<and> tk_sent tk \<noteq> [] \<and> p_frame p = Some (Message (outgoing (hd (tk_sent tk))))"
  shows "timed_inv D mp t (a\<lparr>tt_talk := tk', tt_sent_at := sent_at, tt_queued_at := tt_queued_at a @
    replicate (length (gs_queued mp s) - length (talk_queue mp tk)) (tt_now a)\<rparr>)"
    (is "timed_inv D mp t ?a")
proof -
  let ?s0 = "tk_session tk"
  obtain new where new: "gs_queued mp s = gs_queued mp ?s0 @ new"
    "list_ex welcomes new \<longleftrightarrow> delivered game_identity p \<noteq> None"
    using game_step_queue [OF laws taken step] by blast
  from game.step_effects [OF step] have
    authed: "game_authed s = (game_authed ?s0 \<or> delivered game_identity p \<noteq> None)" and
    seen: "gs_last_keep_alive s = (if heard game_identity p then tt_now a else gs_last_keep_alive ?s0)"
    using assms(5) by auto
  from inv have len: "length (tt_sent_at a) = length (tk_sent tk)" "length (tt_queued_at a) = length (talk_queue mp tk)"
    and past: "list_all (\<lambda>\<sigma>. \<sigma> \<le> tt_now a) (tt_sent_at a)" "gs_last_keep_alive ?s0 \<le> tt_now a"
    and told: "\<forall>x\<in>set (zip (talk_queue mp tk) (tt_queued_at a)). welcomes (fst x) \<longrightarrow> snd x \<le> gs_last_keep_alive ?s0"
    and time: "on_time D (tt_now a) a"
    and hears: "game_authed ?s0 \<Longrightarrow> heard_in_time (to_server D) t (ticks_in_time D mp t tk) (keep_alives_sent a) (gs_last_keep_alive ?s0)"
    unfolding timed_inv_def Let_def assms(4) by blast+
  have "on_time D (tt_now a) ?a"
    using time rest tk' by (auto simp: on_time_def assms(4) dest: in_set_dropD split: option.splits)
  moreover have "\<forall>x\<in>set (zip (gs_queued mp s) (tt_queued_at ?a)). welcomes (fst x) \<longrightarrow> snd x \<le> gs_last_keep_alive s"
    using told past(2) new len(2) seen by (auto simp: zip_replicate2 heard_def list_ex_iff)
  moreover have "heard_in_time (to_server D) t (ticks_in_time D mp t tk') (keep_alives_sent ?a) (gs_last_keep_alive s)"
    if "game_authed s"
  proof (cases "delivered game_identity p")
    case (Some u)
    with new have "list_ex welcomes (talk_queue mp tk')" by (simp add: tk')
    moreover have "list_all (\<lambda>\<sigma>. \<sigma> \<le> gs_last_keep_alive s) (keep_alives_sent ?a)"
      using past(1) seen Some rest(2)
      by (auto simp: keep_alives_sent_def list_all_iff heard_def dest!: set_zip_rightD in_set_dropD)
    ultimately show ?thesis by (intro heard_in_time_now [OF _ bound]) (simp_all add: ticks_in_time_def)
  next
    case None
    with that authed have "game_authed ?s0" by simp
    note hears = hears [OF this]
    have ticks: "ticks_in_time D mp t tk' y" if "ticks_in_time D mp t tk x" "x \<le> y" for x y
      using that new(1) by (auto simp: ticks_in_time_def tk')
    show ?thesis using read
    proof
      assume "n = 0 \<and> p_frame p = None"
      then have "keep_alives_sent ?a = keep_alives_sent a" "\<not> heard game_identity p"
        using None rest by (simp_all add: keep_alives_sent_def assms(4) heard_def)
      with heard_in_time_mono [OF hears order_refl, of "ticks_in_time D mp t tk'"] ticks seen show ?thesis by simp
    next
      assume r: "n = 1 \<and> tk_sent tk \<noteq> [] \<and> p_frame p = Some (Message (outgoing (hd (tk_sent tk))))"
      then obtain m ms \<sigma> \<sigma>s where m: "tk_sent tk = m # ms" "tt_sent_at a = \<sigma> # \<sigma>s"
        using len(1) by (cases "tk_sent tk"; cases "tt_sent_at a") auto
      have h: "heard game_identity p \<longleftrightarrow> m = KeepAliveRequest"
        using None r m by (auto simp: heard_def outgoing_def)
      have ks: "keep_alives_sent a = (if m = KeepAliveRequest then [\<sigma>] else []) @ keep_alives_sent ?a"
        using m rest r by (simp add: keep_alives_sent_def assms(4) [symmetric])
      show ?thesis
      proof (cases "m = KeepAliveRequest")
        case True
        with hears ks have "heard_in_time (to_server D) t (ticks_in_time D mp t tk) (keep_alives_sent ?a)
            (max (gs_last_keep_alive ?s0) \<sigma>)" by simp
        moreover have "max (gs_last_keep_alive ?s0) \<sigma> \<le> gs_last_keep_alive s"
          using True h seen past m by simp
        ultimately show ?thesis using heard_in_time_mono ticks by blast
      next
        case False
        with hears ks have "heard_in_time (to_server D) t (ticks_in_time D mp t tk) (keep_alives_sent ?a)
            (gs_last_keep_alive s)" using h seen by simp
        then show ?thesis using heard_in_time_mono [OF _ order_refl] ticks by blast
      qed
    qed
  qed
  ultimately show ?thesis
    using len past seen new(1) rest tk'
    by (auto simp: timed_inv_def Let_def list_all_iff dest: in_set_dropD)
qed

text \<open>A turn of the client: a tick, the welcome, or neither.\<close>

lemma client_step_cases:
  assumes "game_client_step fadd moves token w c = (ps, Inr c')"
  obtains (tick) d where "gw_ready w = Ready_Tick" "ps = [KeepAliveRequest]" "gc_keep_alive c = Some d" "d \<le> gw_now w"
      "gc_keep_alive c' = Some (d + KEEP_ALIVE_INTERVAL)"
  | (told) m where "gw_ready w = Ready_Message (Message m)" "welcomes m" "ps = []"
      "gc_keep_alive c' = Some (gw_now w + KEEP_ALIVE_INTERVAL)"
  | (other) "KeepAliveRequest \<notin> set ps" "gc_keep_alive c' = gc_keep_alive c"
      "\<And>m. gw_ready w = Ready_Message (Message m) \<Longrightarrow> \<not> welcomes m"
  using assms
  by (auto simp: game_client_step_def client_send_def welcomes_def Let_def
      split: game_ready.splits frame.splits option.splits payload.splits if_splits)

lemma keep_alives_none: "KeepAliveRequest \<notin> set ps \<Longrightarrow> filter (\<lambda>x. fst x = KeepAliveRequest) (zip ps ts) = []"
  by (auto simp: filter_empty_conv dest: set_zip_leftD)

lemma client_step_inv:
  assumes inv: "timed_inv D mp t a" and tk: "tk = tt_talk a" and now: "gw_now w = tt_now a"
    and bound: "to_client D + KEEP_ALIVE_INTERVAL + lateness D + to_server D < t"
    and step: "game_client_step fadd moves token w (tk_client tk) = (ps, Inr c)"
    and tk': "tk_sent tk' = tk_sent tk @ ps" "tk_client tk' = c"
      "gs_last_keep_alive (tk_session tk') = gs_last_keep_alive (tk_session tk)"
      "gs_account (tk_session tk') = gs_account (tk_session tk)"
      "talk_queue mp tk' = drop n (talk_queue mp tk)" "queued_at = drop n (tt_queued_at a)"
    and read: "n = 0 \<and> (\<forall>f. gw_ready w \<noteq> Ready_Message f) \<or>
      n = 1 \<and> talk_queue mp tk \<noteq> [] \<and> gw_ready w = Ready_Message (Message (hd (talk_queue mp tk)))"
  shows "timed_inv D mp t (a\<lparr>tt_talk := tk', tt_sent_at := tt_sent_at a @ replicate (length ps) (tt_now a),
    tt_queued_at := queued_at\<rparr>)" (is "timed_inv D mp t ?a")
proof -
  let ?seen = "gs_last_keep_alive (tk_session tk)"
  from inv have len: "length (tt_sent_at a) = length (tk_sent tk)" "length (tt_queued_at a) = length (talk_queue mp tk)"
    and past: "list_all (\<lambda>\<sigma>. \<sigma> \<le> tt_now a) (tt_sent_at a)" "?seen \<le> tt_now a"
    and told: "\<forall>x\<in>set (zip (talk_queue mp tk) (tt_queued_at a)). welcomes (fst x) \<longrightarrow> snd x \<le> ?seen"
    and time: "on_time D (tt_now a) a"
    and hears: "game_authed (tk_session tk) \<Longrightarrow> heard_in_time (to_server D) t (ticks_in_time D mp t tk) (keep_alives_sent a) ?seen"
    unfolding timed_inv_def Let_def tk by blast+
  have early: "tt_now a \<le> ?seen + to_client D" if "x \<in> set (zip (talk_queue mp tk) (tt_queued_at a))" "welcomes (fst x)" for x
  proof -
    have "snd x \<in> set (tt_queued_at a)" using that(1) by (metis prod.collapse set_zip_rightD)
    with time have "tt_now a \<le> snd x + to_client D" by (simp add: on_time_def)
    with told that show ?thesis by fastforce
  qed
  have early_any: "tt_now a \<le> ?seen + to_client D" if welc: "list_ex welcomes (talk_queue mp tk)"
  proof -
    from welc obtain k where k: "k < length (talk_queue mp tk)" "welcomes (talk_queue mp tk ! k)"
      by (auto simp: list_ex_length)
    with len(2) have "(talk_queue mp tk ! k, tt_queued_at a ! k) \<in> set (zip (talk_queue mp tk) (tt_queued_at a))"
      by (auto simp: set_zip)
    with early k(2) show ?thesis by fastforce
  qed
  have due: "tt_now a \<le> d + lateness D" if "gc_keep_alive (tk_client tk) = Some d" for d
    using time that by (auto simp: on_time_def tk)
  have kept: "list_ex welcomes (talk_queue mp tk')"
    if "list_ex welcomes (talk_queue mp tk)" "\<And>m. gw_ready w = Ready_Message (Message m) \<Longrightarrow> \<not> welcomes m"
    using that read by (cases "talk_queue mp tk") (auto simp: tk'(5))
  have sent: "keep_alives_sent ?a = keep_alives_sent a @ map snd (filter (\<lambda>x. fst x = KeepAliveRequest) (zip ps (replicate (length ps) (tt_now a))))"
    using len(1) by (simp add: keep_alives_sent_def tk' tk)
  have "on_time D (tt_now a) ?a"
    using step time by (cases rule: client_step_cases)
      (auto simp: on_time_def tk tk' now dest: in_set_dropD split: option.splits)
  moreover have "\<forall>x\<in>set (zip (talk_queue mp tk') queued_at). welcomes (fst x) \<longrightarrow> snd x \<le> ?seen"
    using told by (auto simp: tk' dest!: in_set_dropD simp flip: drop_zip)
  moreover have "heard_in_time (to_server D) t (ticks_in_time D mp t tk') (keep_alives_sent ?a) ?seen"
    if "game_authed (tk_session tk)"
    using step
  proof (cases rule: client_step_cases)
    case (tick d)
    have "tt_now a + to_server D < y + t \<and> ticks_in_time D mp t tk' (max y (tt_now a))"
      if "?seen \<le> x" "x \<le> y" "ticks_in_time D mp t tk x" for x y
    proof (cases "list_ex welcomes (talk_queue mp tk)")
      case True
      with early_any kept tick(1) that(1,2) bound show ?thesis by (auto simp: ticks_in_time_def)
    next
      case False
      with that(2,3) tick(3) have "d + lateness D + to_server D < y + t" by (auto simp: ticks_in_time_def)
      with due [OF tick(3)] have "tt_now a + to_server D < y + t" by simp
      moreover have "d + KEEP_ALIVE_INTERVAL + lateness D + to_server D < max y (tt_now a) + t"
        using tick(4) bound now by simp
      ultimately show ?thesis using tick(5) by (simp add: ticks_in_time_def tk')
    qed
    from heard_in_time_mono [OF hears [OF that] order_refl this]
    have "heard_in_time (to_server D) t
        (\<lambda>y. tt_now a + to_server D < y + t \<and> ticks_in_time D mp t tk' (max y (tt_now a))) (keep_alives_sent a) ?seen" .
    then show ?thesis unfolding sent by (simp add: tick(2))
  next
    case (told m)
    have n: "n = 1" "talk_queue mp tk \<noteq> []" "m = hd (talk_queue mp tk)" using read told(1) by auto
    then have "list_ex welcomes (talk_queue mp tk)" using told(2) by (cases "talk_queue mp tk") auto
    from early_any [OF this] have "ticks_in_time D mp t tk' x" if "?seen \<le> x" for x
      using that told(4) bound now by (auto simp: ticks_in_time_def tk')
    with heard_in_time_mono [OF hears [OF that] order_refl, of "ticks_in_time D mp t tk'"]
    show ?thesis unfolding sent by (simp add: told(3))
  next
    case other
    have "ticks_in_time D mp t tk' y" if "ticks_in_time D mp t tk x" "x \<le> y" for x y
      using that kept other(2,3) by (auto simp: ticks_in_time_def tk'(2))
    with heard_in_time_mono [OF hears [OF that] order_refl, of "ticks_in_time D mp t tk'"]
    show ?thesis unfolding sent by (simp add: keep_alives_none [OF other(1)])
  qed
  ultimately show ?thesis
    using len past tk' by (auto simp: timed_inv_def Let_def game_authed_def list_all_iff)
qed

lemma timed_inv_step:
  assumes laws: "mpsc_laws MAX_SEND_QUEUE_SIZE mp"
    and bound: "to_client D + KEEP_ALIVE_INTERVAL + lateness D + to_server D < t"
    and "timed_step D mp t kick fadd moves token (a, wd) (a', wd')" and inv: "timed_inv D mp t a"
  shows "timed_inv D mp t a'"
proof -
  have short: "to_server D < t" using bound by simp
  from assms(3) show ?thesis
  proof (cases rule: timed_step.cases)
    case (client_reads tk m ms w ps c)
    show ?thesis unfolding client_reads(1)
      by (rule client_step_inv [OF inv client_reads(3,5) bound client_reads(7), where n = 1])
        (use client_reads in \<open>auto simp: receive_one_spec [OF laws] drop_Suc\<close>)
  next
    case (client_acts tk w ps c)
    have "timed_inv D mp t (a\<lparr>tt_talk := tk\<lparr>tk_client := c, tk_sent := tk_sent tk @ ps\<rparr>,
        tt_sent_at := tt_sent_at a @ replicate (length ps) (tt_now a), tt_queued_at := tt_queued_at a\<rparr>)"
      by (rule client_step_inv [OF inv client_acts(3,4) bound client_acts(6), where n = 0]) (use client_acts in auto)
    with client_acts(1) show ?thesis by simp
  next
    case (server_reads tk m ms p s)
    show ?thesis unfolding server_reads(1)
      by (rule server_step_inv [OF laws short inv server_reads(2,4,6,7), where n = 1])
        (use server_reads in \<open>auto simp: drop_Suc\<close>)
  next
    case (server_acts tk p s)
    have "timed_inv D mp t (a\<lparr>tt_talk := tk\<lparr>tk_session := s\<rparr>, tt_sent_at := tt_sent_at a, tt_queued_at := tt_queued_at a @
        replicate (length (gs_queued mp s) - length (talk_queue mp tk)) (tt_now a)\<rparr>)"
      by (rule server_step_inv [OF laws short inv server_acts(2,3,5,6), where n = 0]) (use server_acts in auto)
    with server_acts(1) show ?thesis by simp
  next
    case (time_passes now)
    have "ticks_in_time D mp t (tt_talk a') = ticks_in_time D mp t (tt_talk a)" "keep_alives_sent a' = keep_alives_sent a"
      using time_passes(1) by (simp_all add: keep_alives_sent_def)
    with inv time_passes show ?thesis
      by (auto simp: timed_inv_def Let_def on_time_def list_all_iff split: option.splits)
  qed
qed

lemma timed_reachable_inv:
  assumes "mpsc_laws MAX_SEND_QUEUE_SIZE mp"
    and "to_client D + KEEP_ALIVE_INTERVAL + lateness D + to_server D < t"
    and "list_all (\<lambda>m. \<not> welcomes m) (queued mp ob)"
    and "timed_reachable D mp t kick fadd moves token (timed_start mp i ob now) y"
  shows "timed_inv D mp t (fst y)"
proof -
  obtain wd where "(timed_step D mp t kick fadd moves token)\<^sup>*\<^sup>* (timed_start mp i ob now, wd) y"
    using assms(4) by (auto simp: timed_reachable_def)
  then show ?thesis
  proof (induction rule: rtranclp_induct)
    case base
    show ?case using assms(3)
      by (auto simp: timed_inv_def Let_def timed_start_def talk_start_def on_time_def game_client_new_def
          game_session_new_def game_authed_def list_all_iff zip_replicate2)
  next
    case (step y z)
    from timed_inv_step [OF assms(1,2), of kick fadd moves token "fst y" "snd y" "fst z" "snd z"] step
    show ?case by simp
  qed
qed

section \<open>The client is not timed out\<close>

text \<open>
  C19. A client that keeps its beat is never timed out. As long as no message waits too long for its
  reader and no tick of the client is missed by too much, seven seconds for a message each way and a
  late tick together, the keep-alive timeout of GameServer never ends the session: whenever the session
  is woken, with whatever there is for it, the timeout branch is not taken.
\<close>

theorem punctual_client_not_timed_out:
  assumes "mpsc_laws MAX_SEND_QUEUE_SIZE mp"
    and "list_all (\<lambda>m. \<not> welcomes m) (queued mp ob)"
    and "to_client D + lateness D + to_server D < from_secs 7"
    and "timed_reachable D mp KEEP_ALIVE_TIMEOUT kick fadd moves token (timed_start mp i ob now) (a, wd)"
    and "p_now p = tt_now a"
  shows "branch_of (game_actor mp KEEP_ALIVE_TIMEOUT) kick p
      (wake (game_actor mp KEEP_ALIVE_TIMEOUT) p (tk_session (tt_talk a), wd)) \<noteq> Some Timeout_Branch"
proof -
  have bound: "to_client D + KEEP_ALIVE_INTERVAL + lateness D + to_server D < KEEP_ALIVE_TIMEOUT"
    using assms(3) by (simp add: KEEP_ALIVE_INTERVAL_def KEEP_ALIVE_TIMEOUT_def from_secs_def)
  from timed_reachable_inv [OF assms(1) bound assms(2,4)] have inv: "timed_inv D mp KEEP_ALIVE_TIMEOUT a" by simp
  show ?thesis
    using timed_inv_deadline [OF inv _ bound] assms(5)
    by (auto simp: branch_of_def select_biased_timeout wake_def game_actor_def game_authed_def)
qed

text \<open>A client two seconds from the server that ticks a second late, for the witness.\<close>

abbreviation slow :: delays where
  "slow \<equiv> \<lparr>to_server = from_secs 2, to_client = from_secs 2, lateness = from_secs 1\<rparr>"

abbreviation slow_step where
  "slow_step \<equiv> timed_step slow sample_mpsc KEEP_ALIVE_TIMEOUT (9 :: nat) (+) True ''x''"

lemma slow_talk:
  "\<exists>a wd. slow_step\<^sup>*\<^sup>* (timed_start sample_mpsc 4 greeted 0, world_new registry_default) (a, wd) \<and>
    tt_now a = from_secs 8 \<and> tk_sent (tt_talk a) = [KeepAliveRequest] \<and> game_authed (tk_session (tt_talk a))"
proof -
  let ?acc = "\<lparr>account_id = 7, user_id = ''u''\<rparr>"
  let ?empty = "\<lparr>ob_session_id = 4, ob_tx = ([], False)\<rparr> :: (message_wrapper list \<times> bool) outbox"
  let ?s1 = "game_session_new 4 ?empty 0" and ?w0 = "world_new registry_default :: (nat, game_work) world"
  let ?w1 = "spawn (TakeAuthToken ''x'') ?w0"
  let ?s2 = "?s1\<lparr>gs_account := Some ?acc, gs_last_keep_alive := 0,
      gs_outbox := \<lparr>ob_session_id = 4, ob_tx = ([outgoing (GameConnectResponse True 0)], False)\<rparr>\<rparr>"
  let ?w2 = "world_authenticate 4 ''u'' ?w1"
  let ?s3 = "?s2\<lparr>gs_outbox := ?empty\<rparr>"
  let ?c = "game_client_new\<lparr>gc_keep_alive := Some (from_secs 5)\<rparr>"
  let ?c' = "game_client_new\<lparr>gc_keep_alive := Some (from_secs 8)\<rparr>"
  let ?at = "\<lambda>now c sent sent_at s queued_at.
    \<lparr>tt_talk = \<lparr>tk_client = c, tk_sent = sent, tk_session = s\<rparr>, tt_now = now, tt_sent_at = sent_at, tt_queued_at = queued_at\<rparr>"
  have polls: "p_frame (frame_at n m) = Some (Message (outgoing m))" "p_taken (frame_at n m) = 0" "p_now (frame_at n m) = n"
    "p_frame (inner_at n j) = None" "p_taken (inner_at n j) = 0" "p_now (inner_at n j) = n"
    for n m and j :: game_inner_message by (simp_all add: frame_at_def inner_at_def)
  have s1: "slow_step (timed_start sample_mpsc 4 greeted 0, ?w0) (?at 0 game_client_new [GameConnectRequest ''x''] [0] ?s1 [], ?w0)"
    using timed_step.client_reads [OF refl, of sample_mpsc "timed_start sample_mpsc 4 greeted 0" "outgoing (ConnectedResponse 0)" "[]"
        "sample_wake 0 (Ready_Message (Message (outgoing (ConnectedResponse 0))))" "(+)" True "''x''"
        "[GameConnectRequest ''x'']" game_client_new]
    by (simp add: timed_start_def talk_start_def greeted_def game_session_new_def sample_defs receive_one_def outgoing_def
        game_client_step_def client_send_def)
  have L2: "loop_step (game_actor sample_mpsc KEEP_ALIVE_TIMEOUT) 9 (frame_at 0 (GameConnectRequest ''x'')) (?s1, ?w0) =
      (Continue, ?s1, ?w1)"
    by (simp add: loop_step_polls game_step_simps receive_from_def game_handler_defs outgoing_def world_new_def
        game_session_new_def)
  have s2: "slow_step (?at 0 game_client_new [GameConnectRequest ''x''] [0] ?s1 [], ?w0)
      (?at 0 game_client_new [] [] ?s1 [], ?w1)"
    using timed_step.server_reads [OF refl, of "?at 0 game_client_new [GameConnectRequest ''x''] [0] ?s1 []"
        "GameConnectRequest ''x''" "[]" "frame_at 0 (GameConnectRequest ''x'')" sample_mpsc KEEP_ALIVE_TIMEOUT 9 ?w0 ?s1 ?w1] L2
    by (simp add: polls)
  have L3: "loop_step (game_actor sample_mpsc KEEP_ALIVE_TIMEOUT) 9
      (inner_at 0 (TokenTaken (Some (token_value 7 ''u'')))) (?s1, ?w1) = (Continue, ?s2, ?w2)"
    by (simp add: loop_step_polls game_step_simps receive_from_def game_handler_defs outgoing_def world_new_def
        game_session_new_def game_send_flow_def send_flow_def outbox_send_def sample_defs const_defs)
  have s3: "slow_step (?at 0 game_client_new [] [] ?s1 [], ?w1) (?at 0 game_client_new [] [] ?s2 [0], ?w2)"
    using timed_step.server_acts [OF refl, of "inner_at 0 (TokenTaken (Some (token_value 7 ''u'')))"
        "?at 0 game_client_new [] [] ?s1 []" sample_mpsc KEEP_ALIVE_TIMEOUT 9 ?w1 ?s2 ?w2] L3
    by (simp add: polls sample_defs game_session_new_def)
  have s4: "slow_step (?at 0 game_client_new [] [] ?s2 [0], ?w2) (?at (from_secs 2) game_client_new [] [] ?s2 [0], ?w2)"
    using timed_step.time_passes [of "?at 0 game_client_new [] [] ?s2 [0]" "from_secs 2" slow]
    by (simp add: on_time_def game_client_new_def)
  have s5: "slow_step (?at (from_secs 2) game_client_new [] [] ?s2 [0], ?w2) (?at (from_secs 2) ?c [] [] ?s3 [], ?w2)"
    using timed_step.client_reads [OF refl, of sample_mpsc "?at (from_secs 2) game_client_new [] [] ?s2 [0]"
        "outgoing (GameConnectResponse True 0)" "[]"
        "sample_wake (from_secs 2) (Ready_Message (Message (outgoing (GameConnectResponse True 0))))" "(+)" True "''x''" "[]" ?c]
    by (simp add: game_session_new_def sample_defs receive_one_def outgoing_def game_client_step_def
        KEEP_ALIVE_INTERVAL_def from_secs_def)
  have s6: "slow_step (?at (from_secs 2) ?c [] [] ?s3 [], ?w2) (?at (from_secs 6) ?c [] [] ?s3 [], ?w2)"
    using timed_step.time_passes [of "?at (from_secs 2) ?c [] [] ?s3 []" "from_secs 6" slow]
    by (simp add: on_time_def from_secs_def)
  have s7: "slow_step (?at (from_secs 6) ?c [] [] ?s3 [], ?w2) (?at (from_secs 6) ?c' [KeepAliveRequest] [from_secs 6] ?s3 [], ?w2)"
    using timed_step.client_acts [OF refl, of "sample_wake (from_secs 6) Ready_Tick" "?at (from_secs 6) ?c [] [] ?s3 []" "(+)" True
        "''x''" "[KeepAliveRequest]" ?c']
    by (simp add: game_client_step_def client_send_def game_client_new_def KEEP_ALIVE_INTERVAL_def from_secs_def)
  have s8: "slow_step (?at (from_secs 6) ?c' [KeepAliveRequest] [from_secs 6] ?s3 [], ?w2)
      (?at (from_secs 8) ?c' [KeepAliveRequest] [from_secs 6] ?s3 [], ?w2)"
    using timed_step.time_passes [of "?at (from_secs 6) ?c' [KeepAliveRequest] [from_secs 6] ?s3 []" "from_secs 8" slow]
    by (simp add: on_time_def from_secs_def)
  let ?last = "?at (from_secs 8) ?c' [KeepAliveRequest] [from_secs 6] ?s3 []"
  have "slow_step\<^sup>*\<^sup>* (timed_start sample_mpsc 4 greeted 0, ?w0) (?last, ?w2)"
    using s1 s2 s3 s4 s5 s6 s7 s8 by (meson converse_rtranclp_into_rtranclp rtranclp.rtrancl_refl)
  then show ?thesis by (intro exI [of _ ?last] exI [of _ ?w2]) (simp add: game_authed_def)
qed

theorem punctual_client_not_timed_out_witness:
  "\<exists>(s :: (message_wrapper list \<times> bool) game_session) w. game_authed s \<and>
    branch_of (game_actor sample_mpsc KEEP_ALIVE_TIMEOUT) (9 :: nat) (idle_at (from_secs 8))
      (wake (game_actor sample_mpsc KEEP_ALIVE_TIMEOUT) (idle_at (from_secs 8)) (s, w)) \<noteq> Some Timeout_Branch"
proof -
  obtain a wd where reach: "slow_step\<^sup>*\<^sup>* (timed_start sample_mpsc 4 greeted 0, world_new registry_default) (a, wd)"
    and a: "tt_now a = from_secs 8" "game_authed (tk_session (tt_talk a))" using slow_talk by blast
  have "branch_of (game_actor sample_mpsc KEEP_ALIVE_TIMEOUT) (9 :: nat) (idle_at (from_secs 8))
      (wake (game_actor sample_mpsc KEEP_ALIVE_TIMEOUT) (idle_at (from_secs 8)) (tk_session (tt_talk a), wd)) \<noteq> Some Timeout_Branch"
  proof (rule punctual_client_not_timed_out)
    show "timed_reachable slow sample_mpsc KEEP_ALIVE_TIMEOUT (9 :: nat) (+) True ''x'' (timed_start sample_mpsc 4 greeted 0) (a, wd)"
      using reach unfolding timed_reachable_def by blast
    show "list_all (\<lambda>m. \<not> welcomes m) (queued sample_mpsc greeted)"
      by (simp add: greeted_def sample_defs)
  qed (simp_all add: a idle_at_def from_secs_def)
  with a(2) show ?thesis by blast
qed

end
