(* ===== verification/Client_Program.thy ===== *)
theory Client_Program
  imports Deployment Client_Main Startup
begin

text \<open>
  The load-test program as a whole: its configuration (\<open>crates/dummy_client/src/config.rs\<close>) and \<open>main\<close>
  (\<open>crates/dummy_client/src/main.rs\<close>) with its two uses, seeding the accounts and connecting the clients,
  and the monitor that logs the counters. The program is started twice with one configuration, and the
  clients of the second run log in to the accounts of the first.
\<close>

section \<open>Configuration\<close>

record dummy_client_config =
  dy_login_server :: string
  dy_game_server :: string
  dy_max_client_count :: nat
  dy_password :: bytes
  dy_seed_account_count :: nat

definition dummy_client_config_default :: dummy_client_config where
  "dummy_client_config_default =
     \<lparr>dy_login_server = ''127.0.0.1:9000'', dy_game_server = ''127.0.0.1:9001'', dy_max_client_count = 10000,
      dy_password = map of_char ''Test1234!'', dy_seed_account_count = 10000\<rparr>"

section \<open>The program\<close>

definition STARTUP_DELAY :: duration where
  "STARTUP_DELAY = from_secs 2"

definition CLIENT_MONITOR_INTERVAL :: duration where
  "CLIENT_MONITOR_INTERVAL = from_secs 10"

text \<open>What library calls answer: the pool for an URL, \<open>is_terminal\<close> of both streams, \<open>enable_raw_mode\<close>.\<close>

record program_calls =
  pk_mysql_pool :: "string \<Rightarrow> u32 \<Rightarrow> bool"
  pk_stdin_terminal :: bool
  pk_stdout_terminal :: bool
  pk_raw_mode :: bool

definition keyboard_available :: "program_calls \<Rightarrow> bool" where
  "keyboard_available pk \<longleftrightarrow> pk_stdin_terminal pk \<and> pk_stdout_terminal pk"

datatype program_error = Load_Failed | Url_Failed | Seed_Failed seed_error

text \<open>
  How a run goes: it gives up, it seeds, or it connects clients (what it does until then) and then
  waits for the shutdown, unless the terminal refuses the raw mode.
\<close>

datatype program_run =
    Gave_Up program_error
  | Seeded_Accounts u64
  | Connected client_settings "connect_action list" bool

definition client_main :: "crypto \<Rightarrow> 'd seed_mysql \<Rightarrow> nat \<Rightarrow> (nat \<Rightarrow> bytes) \<Rightarrow> (nat \<Rightarrow> bool) \<Rightarrow> program_calls \<Rightarrow>
    (nat \<Rightarrow> connect_turn) \<Rightarrow> string list \<Rightarrow> (database_config \<times> dummy_client_config) option \<Rightarrow> 'd \<Rightarrow> program_run \<times> 'd" where
  "client_main cr db threads salts joined pk turn args loaded d =
     (let seeding = list_ex (\<lambda>a. a = ''--seed'') args;
          use_keyboard = (\<not> seeding \<and> keyboard_available pk)
      in case loaded of
        None \<Rightarrow> (Gave_Up Load_Failed, d)
      | Some (database, cfg) \<Rightarrow>
          if seeding
          then (if \<not> pk_mysql_pool pk (dc_mysql_url database) 4 then (Gave_Up Url_Failed, d)
            else (case seed cr db threads salts joined (dy_password cfg) (dy_seed_account_count cfg) d of
                (Inl e, d') \<Rightarrow> (Gave_Up (Seed_Failed e), d')
              | (Inr inserted, d') \<Rightarrow> (Seeded_Accounts inserted, d')))
          else
            let settings = \<lparr>cs_game_server = dy_game_server cfg, cs_client_hash = client_hash cr (dy_password cfg)\<rparr>;
                actions = Sleep STARTUP_DELAY # connect_clients use_keyboard (dy_max_client_count cfg) turn;
                player_moves = list_ex snd (spawned_clients actions)
            in (Connected settings actions (player_moves \<longrightarrow> pk_raw_mode pk), d))"

text \<open>
  \<open>monitor\<close>: a turn is what the counters are when its interval is over, or \<open>None\<close> if the shutdown came
  first; the value is what it logs.
\<close>

fun client_monitor :: "counters option list \<Rightarrow> (64 word \<times> 64 word \<times> 64 word) list" where
  "client_monitor [] = []"
| "client_monitor (None # turns) = []"
| "client_monitor (Some c # turns) = counters_snapshot c # client_monitor turns"

section \<open>What a run connects\<close>

text \<open>The keyboard is used only by the first client, and only on a terminal.\<close>

lemma client_main_connected:
  assumes "client_main cr db threads salts joined pk turn args (Some (database, cfg)) d = (Connected settings actions ok, d')"
  shows "d' = d" and "cs_client_hash settings = client_hash cr (dy_password cfg)"
    and "cs_game_server settings = dy_game_server cfg"
    and "spawned_clients actions = spawned_clients (connect_clients (keyboard_available pk) (dy_max_client_count cfg) turn)"
  using assms
  by (auto simp: client_main_def Let_def spawned_clients_def split: if_splits prod.splits sum.splits)

lemma client_main_seeded:
  assumes "client_main cr db threads salts joined pk turn args (Some (database, cfg)) d = (Seeded_Accounts inserted, d')"
  shows "seed cr db threads salts joined (dy_password cfg) (dy_seed_account_count cfg) d = (Inr inserted, d')"
  using assms by (auto simp: client_main_def Let_def split: if_splits prod.splits sum.splits)

lemma spawned_in_range:
  assumes "(i, moves) \<in> set (spawned_clients (connect_clients kb m turn))"
  shows "1 \<le> i \<and> i \<le> m"
proof -
  have "connect_clients kb m turn = concat (map (connect_actions kb m) (takeWhile (\<lambda>j. turn_connects (turn j)) [0..<m]))"
    unfolding connect_clients_def by (rule connect_loop_eq) simp
  with assms show ?thesis by (auto simp: spawned_clients_concat dest: set_takeWhileD)
qed

text \<open>What a client asks of LoginServer: to log in as itself, with the hash of the settings.\<close>

lemma login_phase_requests:
  "p \<in> set (fst (login_phase uid cfg ws)) \<Longrightarrow> p = LoginRequest uid (cs_client_hash cfg)"
proof (induction ws)
  case (Cons w ws)
  then show ?case
    by (cases "(uid, cfg, w # ws)" rule: login_phase.cases)
      (auto simp: Let_def split: option.splits payload.splits prod.splits if_splits)
qed simp

section \<open>Two runs\<close>

text \<open>
  What LoginServer's \<open>SELECT\<close> finds in the table \<open>d2\<close>, which was \<open>d\<close> before the seeding: the row of an
  account, with the default status 0 if the seeding inserted it, and no row for an account that is not
  there.
\<close>

definition reads_table :: "'d mysql \<Rightarrow> ('d \<Rightarrow> string \<Rightarrow> (string \<times> string) option) \<Rightarrow> string \<Rightarrow> 'd \<Rightarrow> 'd \<Rightarrow> bool" where
  "reads_table db accounts uid d d2 \<longleftrightarrow>
     (case accounts d2 uid of
        None \<Rightarrow> sql_select_account db uid d2 = (Inr None, d2)
      | Some (hash, salt) \<Rightarrow>
          \<exists>aid status. sql_select_account db uid d2 = (Inr (Some (aid, uid, hash, salt, status)), d2) \<and>
            (accounts d uid = None \<longrightarrow> status = 0))"

text \<open>A login without a row, and against any row.\<close>

lemma login_no_row:
  assumes "sql_select_account db uid d = (Inr None, d)"
    and "login_authenticate cr (login_mysql_redis db rd cfg t token) True uid h (d, r) = (outcome, b)"
  shows "outcome = LoginFailure InvalidCredentials"
  using assms by (simp add: login_authenticate_def login_mysql_redis_def)

lemma login_any_row:
  assumes "sql_select_account db uid d = (Inr (Some (aid, uid, hash, salt, status)), d)"
    and "login_authenticate cr (login_mysql_redis db rd cfg t token) True uid h (d, r) = (outcome, b)"
  shows "outcome = LoginFailure InvalidCredentials \<longleftrightarrow> verify cr h hash salt = Inr False"
  using assms
  by (auto simp: login_authenticate_def login_mysql_redis_def account_of_columns_def issue_auth_token_def Let_def
      split: prod.splits sum.splits option.splits bool.splits if_splits)

text \<open>
  C27. What \<open>--seed\<close> makes, the load test can use. After a run with \<open>--seed\<close> that succeeded, every client
  that another run of the program with the same configuration connects asks to log in as its own
  account with the hash of the configured password, and LoginServer answers by how the account
  came about, as long as the thread that verifies the password runs to its end. It was new, and its number is among those seeded: never "invalid credentials" nor
  "banned", and success whenever the two stores work. It was new and its number is beyond them (not
  with the default configuration): always "invalid credentials". It existed before the seeding: its
  row is as it was, and the answer is "invalid credentials" exactly if that row refuses the hash.
\<close>

theorem seeded_clients_log_in:
  assumes "seed_laws sdb accounts" "crypto_laws cr"
    and "\<And>j. fits_columns (generate_stored_hash cr (salts j) (client_hash cr (dy_password cfg)))"
    and "client_main cr sdb threads salts joined pk turn args (Some (database, cfg)) d = (Seeded_Accounts inserted, d1)"
    and "client_main cr sdb threads' salts' joined' pk' turn' args' (Some (database, cfg)) d1 = (Connected settings actions ok, d2)"
    and "(i, moves) \<in> set (spawned_clients actions)"
    and "p \<in> set (fst (login_phase (client_user_id i) settings ws))"
    and "reads_table db accounts (client_user_id i) d d2"
  shows "\<exists>h. p = LoginRequest (client_user_id i) h \<and> h = client_hash cr (dy_password cfg) \<and>
    (\<forall>lcfg t token r outcome b.
      login_authenticate cr (login_mysql_redis db rd lcfg t token) True (client_user_id i) h (d2, r) = (outcome, b) \<longrightarrow>
      (case accounts d (client_user_id i) of
         Some (hash, salt) \<Rightarrow>
           accounts d2 (client_user_id i) = Some (hash, salt) \<and>
           (outcome = LoginFailure InvalidCredentials \<longleftrightarrow> verify cr h hash salt = Inr False)
       | None \<Rightarrow>
           if i \<le> dy_seed_account_count cfg
           then outcome \<noteq> LoginFailure InvalidCredentials \<and> outcome \<noteq> LoginFailure Banned \<and>
             ((\<forall>aid. \<exists>d3. sql_update_last_login db aid d2 = (Inr (), d3)) \<and>
               (\<forall>k v ttl. fst (rd_set_ex rd t k v ttl r) = Inr True) \<longrightarrow>
              outcome = LoginSuccess \<lparr>la_user_id = client_user_id i\<rparr> token)
           else outcome = LoginFailure InvalidCredentials))"
    (is "\<exists>h. _ \<and> _ \<and> (\<forall>lcfg t token r outcome b. ?login h lcfg t token r outcome b \<longrightarrow> ?answer h t token r outcome)")
proof -
  let ?h = "client_hash cr (dy_password cfg)" and ?u = "client_user_id i"
  note conn = client_main_connected [OF assms(5)]
  have "1 \<le> i" using spawned_in_range assms(6) conn(4) by fastforce
  from seed_result [OF assms(1,3) client_main_seeded [OF assms(4)]]
  have "seeded accounts (seed_row cr salts ?h) 1 (dy_seed_account_count cfg + 1) d d1" by auto
  with \<open>1 \<le> i\<close> have row: "accounts d2 ?u = (if i \<le> dy_seed_account_count cfg
      then complete (accounts d ?u) (seed_row cr salts ?h i) else accounts d ?u)"
    using conn(1) by (simp add: seeded_def less_Suc_eq_le)
  have "?answer ?h t token r outcome" if login: "?login ?h lcfg t token r outcome b" for lcfg t token r outcome b
  proof (cases "accounts d ?u")
    case (Some old)
    obtain hash salt where old: "old = (hash, salt)" by (rule prod.exhaust)
    have kept: "accounts d2 ?u = Some (hash, salt)" using row Some old by (simp add: complete_def)
    with assms(8) obtain aid status where
      "sql_select_account db ?u d2 = (Inr (Some (aid, ?u, hash, salt, status)), d2)"
      by (auto simp: reads_table_def)
    from login_any_row [OF this login] kept show ?thesis by (simp add: Some old)
  next
    case None
    show ?thesis
    proof (cases "i \<le> dy_seed_account_count cfg")
      case False
      with row None have "accounts d2 ?u = None" by simp
      with assms(8) have "sql_select_account db ?u d2 = (Inr None, d2)" by (simp add: reads_table_def)
      from login_no_row [OF this login] False show ?thesis by (simp add: None)
    next
      case True
      obtain hash salt where hs: "seed_row cr salts ?h i = (hash, salt)" by (rule prod.exhaust)
      with row True None assms(8) obtain aid where
        "sql_select_account db ?u d2 = (Inr (Some (aid, ?u, hash, salt, 0)), d2)"
        by (auto simp: reads_table_def complete_def)
      note seeded = login_seeded_row [OF assms(2) hs this login]
      from seeded(1) have "outcome \<noteq> LoginFailure InvalidCredentials" by simp
      moreover from seeded(2) have "outcome \<noteq> LoginFailure Banned" by auto
      moreover have "(\<forall>aid. \<exists>d3. sql_update_last_login db aid d2 = (Inr (), d3)) \<and>
          (\<forall>k v ttl. fst (rd_set_ex rd t k v ttl r) = Inr True) \<longrightarrow>
        outcome = LoginSuccess \<lparr>la_user_id = ?u\<rparr> token"
        using seeded(3) [OF refl] by blast
      ultimately show ?thesis using True by (simp add: None)
    qed
  qed
  moreover have "p = LoginRequest ?u ?h" using login_phase_requests [OF assms(7)] conn(2) by simp
  ultimately show ?thesis by blast
qed

text \<open>The defaults are such, with room for neither more nor fewer clients than accounts.\<close>

lemma defaults_fit: "dy_max_client_count dummy_client_config_default = dy_seed_account_count dummy_client_config_default"
  by (simp add: dummy_client_config_default_def)

text \<open>Three accounts and two clients on a terminal, for the witness.\<close>

definition small_config :: dummy_client_config where
  "small_config = dummy_client_config_default\<lparr>dy_password := [1, 2], dy_max_client_count := 2, dy_seed_account_count := 3\<rparr>"

abbreviation small_run where
  "small_run args d \<equiv> client_main toy_crypto toy_mysql 2 (\<lambda>j. [of_nat j]) (\<lambda>_. True)
     \<lparr>pk_mysql_pool = (\<lambda>u n. True), pk_stdin_terminal = True, pk_stdout_terminal = True, pk_raw_mode = True\<rparr>
     (\<lambda>i. \<lparr>ct_cancelled = False, ct_stream = True\<rparr>) args (Some (database_config_default, small_config)) d"

definition small_settings :: client_settings where
  "small_settings = \<lparr>cs_game_server = dy_game_server small_config, cs_client_hash = client_hash toy_crypto [1, 2]\<rparr>"

lemma small_run_connects:
  "small_run [] d = (Connected small_settings [Sleep STARTUP_DELAY, Spawn_Client 1 True, Spawn_Client 2 False] True, d)"
  by (simp add: client_main_def small_config_def small_settings_def connect_clients_def upt_rec Let_def
      keyboard_available_def CONNECT_BATCH_SIZE_def spawned_clients_def)

lemma small_login_phase:
  "fst (login_phase uid small_settings [Login_Next (Message (outgoing (ConnectedResponse 0))) True]) =
    [LoginRequest uid (client_hash toy_crypto [1, 2])]"
  by (simp add: outgoing_def small_settings_def)

theorem seeded_clients_log_in_witness:
  "\<exists>b. login_authenticate toy_crypto (login_mysql_redis toy_accounts map_redis sample_config 0 ''x'') True
      (client_user_id 2) (client_hash toy_crypto [1, 2]) (snd (small_run [''--seed''] Map.empty), Map.empty) =
    (LoginSuccess \<lparr>la_user_id = client_user_id 2\<rparr> ''x'', b)"
proof -
  let ?d = "snd (small_run [''--seed''] Map.empty)"
  have "fst (small_run [''--seed''] Map.empty) = Seeded_Accounts 3" by code_simp
  then have seeded: "small_run [''--seed''] Map.empty = (Seeded_Accounts 3, ?d)" by (simp add: prod_eq_iff)
  note run = small_run_connects [of ?d]
  have i: "(2, False) \<in> set (spawned_clients [Sleep STARTUP_DELAY, Spawn_Client 1 True, Spawn_Client 2 False])"
    by (simp add: spawned_clients_def)
  have reads: "reads_table toy_accounts id (client_user_id 2) Map.empty ?d"
    by (auto simp: reads_table_def toy_accounts_def split: option.split)
  have fits: "fits_columns (generate_stored_hash toy_crypto [of_nat j] (client_hash toy_crypto (dy_password small_config)))" for j
    using toy_fits by (simp add: small_config_def)
  have le: "2 \<le> dy_seed_account_count small_config" by (simp add: small_config_def)
  obtain outcome b where login: "login_authenticate toy_crypto (login_mysql_redis toy_accounts map_redis sample_config 0 ''x'') True
      (client_user_id 2) (client_hash toy_crypto [1, 2]) (?d, Map.empty) = (outcome, b)" by (rule prod.exhaust)
  have asked: "LoginRequest (client_user_id 2) (client_hash toy_crypto [1, 2]) \<in>
      set (fst (login_phase (client_user_id 2) small_settings [Login_Next (Message (outgoing (ConnectedResponse 0))) True]))"
    by (simp only: small_login_phase list.set_intros)
  have new: "id Map.empty (client_user_id 2) = None" by simp
  note clients = seeded_clients_log_in [OF toy_mysql_laws crypto_laws_toy fits seeded run i asked reads,
      where rd = map_redis]
  have "outcome = LoginSuccess \<lparr>la_user_id = client_user_id 2\<rparr> ''x''"
  proof (use clients in \<open>elim exE conjE\<close>)
    fix h
    assume h: "LoginRequest (client_user_id 2) (client_hash toy_crypto [1, 2]) = LoginRequest (client_user_id 2) h"
      and all: "\<forall>lcfg t token r outcome b.
        login_authenticate toy_crypto (login_mysql_redis toy_accounts map_redis lcfg t token) True (client_user_id 2) h (?d, r) =
          (outcome, b) \<longrightarrow>
        (case id Map.empty (client_user_id 2) of
           Some (hash, salt) \<Rightarrow>
             id ?d (client_user_id 2) = Some (hash, salt) \<and>
             (outcome = LoginFailure InvalidCredentials \<longleftrightarrow> verify toy_crypto h hash salt = Inr False)
         | None \<Rightarrow>
             if 2 \<le> dy_seed_account_count small_config
             then outcome \<noteq> LoginFailure InvalidCredentials \<and> outcome \<noteq> LoginFailure Banned \<and>
               ((\<forall>aid. \<exists>d3. sql_update_last_login toy_accounts aid ?d = (Inr (), d3)) \<and>
                 (\<forall>k v ttl. fst (rd_set_ex map_redis t k v ttl r) = Inr True) \<longrightarrow>
                outcome = LoginSuccess \<lparr>la_user_id = client_user_id 2\<rparr> token)
             else outcome = LoginFailure InvalidCredentials)"
    from h have "client_hash toy_crypto [1, 2] = h" by (simp only: payload.inject)
    from all [rule_format, OF login [unfolded this]] show ?thesis using le by (simp add: new toy_accounts_def map_redis_def)
  qed
  with login show ?thesis by blast
qed

end
