(* ===== verification/Recency.thy ===== *)
theory Recency
  imports System
begin

text \<open>
  The age of a token in the whole system: \<open>auth_token_ttl_seconds\<close> of \<open>login_server/src/backend.rs\<close> bounds
  the time between the login and the connection it is used for.
\<close>

section \<open>When a token was issued and taken\<close>

definition issued_at :: "login_event list \<Rightarrow> string \<Rightarrow> account \<Rightarrow> instant \<Rightarrow> bool" where
  "issued_at tr token a t \<longleftrightarrow>
     (\<exists>j env uid row res. Work_Event j env (Issuing uid row) res \<in> set tr \<and> te_uuid env = token \<and> te_now env = t \<and>
        a = \<lparr>account_id = ar_account_id row, user_id = ar_user_id row\<rparr>)"

definition taken_at :: "game_event list \<Rightarrow> u64 \<Rightarrow> string \<Rightarrow> string \<Rightarrow> instant \<Rightarrow> bool" where
  "taken_at tr i token v t \<longleftrightarrow>
     (\<exists>env. Work_Event i env (TakeAuthToken token) (Inr (TokenTaken (Some v))) \<in> set tr \<and> te_now env = t)"

lemma issued_at_mono: "issued_at tr token a t \<Longrightarrow> issued_at (tr @ evs) token a t"
  unfolding issued_at_def set_append by blast

lemma taken_at_snoc:
  "taken_at (tr @ [ev]) i token v t \<longleftrightarrow> taken_at tr i token v t \<or>
    (\<exists>env. ev = Work_Event i env (TakeAuthToken token) (Inr (TokenTaken (Some v))) \<and> te_now env = t)"
  by (auto simp: taken_at_def)

lemma issued_at_issuing:
  "issued_at (tr @ [Work_Event j env (Issuing uid row) res]) (te_uuid env)
    \<lparr>account_id = ar_account_id row, user_id = ar_user_id row\<rparr> (te_now env)"
  unfolding issued_at_def by (intro exI [of _ j] exI [of _ env] exI [of _ uid] exI [of _ row] exI [of _ res]) simp

section \<open>No token outlives its time\<close>

definition live_token :: "system_event list \<Rightarrow> duration \<Rightarrow> instant \<Rightarrow> string \<Rightarrow> string \<Rightarrow> bool" where
  "live_token tr ttl t token v \<longleftrightarrow>
     (\<exists>a t1. issued_at (login_events tr) token a t1 \<and> v = token_value (account_id a) (user_id a) \<and> t1 \<le> t \<and> t < t1 + ttl)"

abbreviation token_lifetime :: "('c, 'd, 'r, 'p) deployment \<Rightarrow> duration" where
  "token_lifetime D \<equiv> from_secs (unat (lc_auth_token_ttl_seconds (su_config D)))"

abbreviation token_at :: "('c, 'd, 'r, 'p) deployment \<Rightarrow> instant \<Rightarrow> string \<Rightarrow> 'r \<Rightarrow> string option" where
  "token_at D \<equiv> stored_token (su_redis D) (lc_auth_token_prefix (su_config D))"

text \<open>Every value that can be read now or later is of a login not longer ago than that, and so was every one taken.\<close>

definition tokens_live :: "('c, 'd, 'r, 'p) deployment \<Rightarrow> system_event list \<Rightarrow> ('c, 'd, 'r, 'p) system \<Rightarrow> bool" where
  "tokens_live D tr s \<longleftrightarrow>
     (\<forall>t token v. sy_now s \<le> t \<longrightarrow> token_at D t token (sy_redis s) = Some v \<longrightarrow> live_token tr (token_lifetime D) t token v) \<and>
     (\<forall>i token v t. taken_at (game_events tr) i token v t \<longrightarrow> live_token tr (token_lifetime D) t token v)"

lemma live_token_mono: "live_token tr ttl t token v \<Longrightarrow> live_token (tr @ [ev]) ttl t token v"
  by (cases ev) (auto simp: live_token_def intro: issued_at_mono)

lemma login_step_live:
  assumes laws: "redis_laws (su_redis D)"
    and step: "host_step (login_actor (su_mpsc D) (su_timeout D)) (login_service (su_mpsc D) (su_tx D))
      (login_worker (su_crypto D) (su_mysql D) (su_redis D) (su_config D) (su_semaphore D))
      (h0, (d0, r0), p0) ev (h, (d, r), p)"
    and "happens_at now ev" and old: "\<And>t token v. now \<le> t \<Longrightarrow> token_at D t token r0 = Some v \<Longrightarrow> live_token tr (token_lifetime D) t token v"
    and "now \<le> t" "token_at D t token r = Some v"
  shows "live_token (tr @ [At_Login ev]) (token_lifetime D) t token v"
proof -
  note service = token_service_redis [OF laws, of "lc_auth_token_prefix (su_config D)" "lc_auth_token_ttl_seconds (su_config D)"]
  have kept: "live_token (tr @ [At_Login ev]) (token_lifetime D) t token v" if "token_at D t token r0 = Some v"
    by (rule live_token_mono [OF old [OF assms(5) that]])
  from login_host_redis [OF step] show ?thesis
  proof (elim disjE exE conjE)
    assume "r = r0"
    with kept assms(6) show ?thesis by simp
  next
    fix j env uid row res
    assume ev: "ev = Work_Event j env (Issuing uid row) res"
      "r = snd (issue_auth_token (su_redis D) (lc_auth_token_prefix (su_config D)) (lc_auth_token_ttl_seconds (su_config D))
        (te_now env) (te_uuid env) (ar_account_id row) (ar_user_id row) r0)"
    have now: "te_now env = now" using assms(3) ev(1) by simp
    show ?thesis
    proof (cases "token_at D t token r0 = Some v")
      case False
      then have token: "token = te_uuid env"
        using token_service.issue_other [OF service, of token "te_uuid env"] assms(6) ev(2) by metis
      from token_service.issue_any [OF service, of t "te_uuid env" now "ar_account_id row" "ar_user_id row" r0]
      have "v = token_value (ar_account_id row) (ar_user_id row)" using assms(6) False ev(2) token now by auto
      moreover from token_service.issue_expires [OF service, of now t "te_uuid env" "ar_account_id row" "ar_user_id row" r0]
      have "t < now + token_lifetime D" using assms(6) False ev(2) token now by (cases "now + token_lifetime D \<le> t") auto
      moreover have "issued_at (login_events (tr @ [At_Login ev])) token
          \<lparr>account_id = ar_account_id row, user_id = ar_user_id row\<rparr> now"
        using issued_at_issuing [of "login_events tr" j env uid row res] ev(1) token now by simp
      ultimately show ?thesis unfolding live_token_def using assms(5)
        by (intro exI [of _ "\<lparr>account_id = ar_account_id row, user_id = ar_user_id row\<rparr>"] exI [of _ now]) simp
    qed (rule kept)
  qed
qed

lemma game_step_live:
  assumes laws: "redis_laws (su_redis D)"
    and step: "host_step (game_actor (su_mpsc D) (su_timeout D)) (game_service (su_mpsc D) (su_tx D))
      (game_worker (su_mysql D) (su_redis D) (lc_auth_token_prefix (su_config D))) (h0, d0, r0) ev (h, d, r)"
    and "happens_at now ev"
  shows "now \<le> t \<Longrightarrow> token_at D t token r = Some v \<Longrightarrow> token_at D t token r0 = Some v"
    and "ev = Work_Event i env (TakeAuthToken token) (Inr (TokenTaken (Some v))) \<Longrightarrow> token_at D now token r0 = Some v"
proof -
  note service = token_service_redis [OF laws, of "lc_auth_token_prefix (su_config D)" "lc_auth_token_ttl_seconds (su_config D)"]
  let ?take = "take_auth_token (su_redis D) (lc_auth_token_prefix (su_config D))"
  have takes: "\<exists>res'. ?take now tok r0 = (res', r) \<and> (\<forall>v. res = Inr (TokenTaken (Some v)) \<longrightarrow> res' = Inr (Some v))"
    if ev: "ev = Work_Event j e (TakeAuthToken tok) res" for j e tok res
  proof -
    have now: "te_now e = now" using assms(3) ev by simp
    from host_step_stores [OF step] ev obtain m where m: "res = Inr m"
      "game_perform (game_mysql_redis (su_mysql D) (su_redis D) (lc_auth_token_prefix (su_config D)) now)
        (TakeAuthToken tok) (d0, r0) = (m, d, r)"
      by (auto simp: now)
    then show ?thesis by (auto simp: game_mysql_redis_def split: prod.splits sum.splits)
  qed
  show "token_at D t token r0 = Some v" if "now \<le> t" "token_at D t token r = Some v"
  proof (cases "r = r0")
    case False
    from game_host_redis [OF step, of "[]" "\<lambda>_ _ _ _ r. (Inr None, r)"] False obtain j e tok res
      where "ev = Work_Event j e (TakeAuthToken tok) res" by blast
    from takes [OF this] obtain res' where "?take now tok r0 = (res', r)" by blast
    with token_service.take_any [OF service that(1), of token tok r0] that(2) show ?thesis by simp
  qed (use that in simp)
  show "token_at D now token r0 = Some v" if "ev = Work_Event i env (TakeAuthToken token) (Inr (TokenTaken (Some v)))"
  proof -
    from takes [OF that] have "?take now token r0 = (Inr (Some v), r)" by auto
    from token_service.take_ok [OF service this order_refl] show ?thesis by simp
  qed
qed

lemma tokens_live_run:
  assumes laws: "redis_laws (su_redis D)" and "system_run D (system_start D now d r) tr s"
    and empty: "\<forall>t token. token_at D t token r = None"
  shows "tokens_live D tr s"
  using assms(2)
proof (induction rule: system_run.induct)
  case start
  with empty show ?case by (simp add: tokens_live_def system_start_def taken_at_def)
next
  case (step tr s ev s')
  then have stored: "\<And>t token v. sy_now s \<le> t \<Longrightarrow> token_at D t token (sy_redis s) = Some v \<Longrightarrow>
      live_token tr (token_lifetime D) t token v"
    and taken: "\<And>i token v t. taken_at (game_events tr) i token v t \<Longrightarrow> live_token tr (token_lifetime D) t token v"
    by (simp_all add: tokens_live_def)
  from step.hyps(2) show ?case
  proof cases
    case (at_login lev h d r p)
    with login_step_live [OF laws at_login(3,4) stored] taken show ?thesis
      by (auto simp: tokens_live_def intro: live_token_mono)
  next
    case (at_game gev h d r)
    note live = game_step_live [OF laws at_game(3,4)]
    have "live_token tr (token_lifetime D) t token v" if "taken_at (game_events tr @ [gev]) i token v t" for i token v t
      using that unfolding taken_at_snoc
    proof (elim disjE exE conjE)
      fix env
      assume env: "gev = Work_Event i env (TakeAuthToken token) (Inr (TokenTaken (Some v)))" "te_now env = t"
      with at_game(4) have "t = sy_now s" by simp
      with stored [OF order_refl live(2) [OF env(1)]] show ?thesis by simp
    qed (rule taken)
    then show ?thesis using at_game stored live(1) by (auto simp: tokens_live_def intro!: live_token_mono)
  next
    case (elsewhere now' r d)
    with stored taken show ?thesis by (auto simp: tokens_live_def intro!: live_token_mono)
  qed
qed

section \<open>Connections follow logins in time\<close>

text \<open>
  C5. The agreement of the servers is recent. Each GameServer session that has an account got it from a
  token that was taken less than its time to live after LoginServer issued it for that account, and
  not before; however the servers interleave, whichever of their requests to Redis fail, and whether
  or not a token is ever drawn twice.
\<close>

theorem connections_are_recent:
  assumes "redis_laws (su_redis D)" and "system_run D (system_start D now d r) tr s"
    and "\<forall>t token. stored_token (su_redis D) (lc_auth_token_prefix (su_config D)) t token r = None"
    and "sv_running (ho_server (sy_game s)) i = Some gs" "gs_account gs = Some a"
  shows "\<exists>token v t1 t2. taken_at (game_events tr) i token v t2 \<and> parse_token_value v = Some a \<and>
    issued_at (login_events tr) token a t1 \<and>
    t1 \<le> t2 \<and> t2 < t1 + from_secs (unat (lc_auth_token_ttl_seconds (su_config D)))"
proof -
  from system_stems [OF assms(2)] assms(4) have "session_stems (game_events tr) i gs"
    by (simp add: game_stems_def)
  with assms(5) obtain token v where "taken_for (game_events tr) i token v" and a: "parse_token_value v = Some a"
    by (auto simp: session_stems_def named_def)
  then obtain t2 where t2: "taken_at (game_events tr) i token v t2"
    by (auto simp: taken_for_def took_def taken_at_def)
  with tokens_live_run [OF assms(1-3)] have "live_token tr (token_lifetime D) t2 token v" by (simp add: tokens_live_def)
  then obtain b t1 where b: "issued_at (login_events tr) token b t1" "v = token_value (account_id b) (user_id b)"
    "t1 \<le> t2" "t2 < t1 + token_lifetime D" by (auto simp: live_token_def)
  from a b(2) have "b = a" by (cases b) auto
  with t2 a b show ?thesis by blast
qed

theorem connections_are_recent_witness:
  "\<exists>token t1. issued_at (login_events sample_trace) token \<lparr>account_id = 7, user_id = ''u''\<rparr> t1 \<and>
    (\<exists>v t2. taken_at (game_events sample_trace) 1 token v t2 \<and> t2 < t1 + from_secs 30)"
proof -
  have "sv_running (ho_server (sy_game (sample_system sample_game_over [(7, 1, 2, 3)] Map.empty))) 1 = Some sample_player"
    "gs_account sample_player = Some \<lparr>account_id = 7, user_id = ''u''\<rparr>"
    by (simp_all add: sample_system_def sample_game_over_def sample_game_host_def sample_player_def)
  from connections_are_recent [OF sample_premises(1) sample_whole_run sample_premises(2) this]
  have "\<exists>token v t1 t2. taken_at (game_events sample_trace) 1 token v t2 \<and>
      issued_at (login_events sample_trace) token \<lparr>account_id = 7, user_id = ''u''\<rparr> t1 \<and> t2 < t1 + from_secs 30"
    by (auto simp: sample_deployment_def sample_config_def)
  then show ?thesis by blast
qed

end
