(* ===== verification/Notices.thy ===== *)
theory Notices
  imports Admin_Keys Retry "HOL-Library.Sublist"
begin

text \<open>
  A notice from the administrator to the servers: the request of \<open>login_server/src/admin/handlers.rs\<close>,
  \<open>publish\<close> and \<open>subscribe\<close> of \<open>db/src/broadcast.rs\<close> with a channel of Redis between them. Both servers
  subscribe with the same function.
\<close>

section \<open>The channels of Redis\<close>

text \<open>
  \<open>published\<close> observes what was published, with the channel, the latest last. Of the commands of the
  admin API only \<open>PUBLISH\<close> adds to it, for sure when it is confirmed.
\<close>

definition notice_laws :: "'r key_redis \<Rightarrow> ('r \<Rightarrow> (string \<times> string) list) \<Rightarrow> bool" where
  "notice_laws kr published \<longleftrightarrow>
     (\<forall>now k v secs r. published (snd (kr_set_ex kr now k v secs r)) = published r) \<and>
     (\<forall>now k secs r. published (snd (kr_expire kr now k secs r)) = published r) \<and>
     (\<forall>now k r. published (snd (kr_del kr now k r)) = published r) \<and>
     (\<forall>c m r x r'. kr_publish kr c m r = (x, r') \<longrightarrow>
        published r' = published r @ [(c, m)] \<or> isl x \<and> published r' = published r)"

lemma notice_lawsD:
  assumes "notice_laws kr published"
  shows "kr_set_ex kr now k v secs r = (x, r') \<Longrightarrow> published r' = published r"
    and "kr_expire kr now k s r = (y, r') \<Longrightarrow> published r' = published r"
    and "kr_del kr now k r = (z, r') \<Longrightarrow> published r' = published r"
    and "kr_publish kr c m r = (q, r') \<Longrightarrow> published r' = published r @ [(c, m)] \<or> isl q \<and> published r' = published r"
  using assms unfolding notice_laws_def by (metis snd_conv)+

definition on_channel :: "string \<Rightarrow> (string \<times> string) list \<Rightarrow> string list" where
  "on_channel channel log = map snd (filter (\<lambda>x. fst x = channel) log)"

lemma on_channel_simps [simp]:
  "on_channel channel [] = []"
  "on_channel channel (xs @ ys) = on_channel channel xs @ on_channel channel ys"
  "on_channel channel (map (Pair channel) ms) = ms"
  by (simp_all add: on_channel_def filter_True comp_def)

text \<open>
  A subscriber that starts before \<open>log\<close>: what is published while its session is subscribed reaches it, in
  order; the rest it misses.
\<close>

inductive delivers :: "string \<Rightarrow> (string \<times> string) list \<Rightarrow> pubsub_turn list \<Rightarrow> bool" for channel where
  over: "delivers channel log []"
| not_subscribed: "ps_session t \<in> {ConnectFailed, SubscribeFailed} \<Longrightarrow> delivers channel log ts \<Longrightarrow>
    delivers channel (missed @ log) (t # ts)"
| subscribed: "ps_session t = Subscribed (map Some (on_channel channel heard)) \<Longrightarrow> delivers channel log ts \<Longrightarrow>
    delivers channel (missed @ heard @ log) (t # ts)"

lemma delivers_subseq:
  "delivers channel log ts \<Longrightarrow> subseq (concat (map (on_received_of \<circ> ps_session) ts)) (on_channel channel log)"
proof (induction rule: delivers.induct)
  case (not_subscribed t log ts missed)
  then have "on_received_of (ps_session t) = []" by (auto simp: on_received_of_def)
  with not_subscribed.IH show ?case by (simp add: subseq_drop_many)
next
  case (subscribed t heard log ts missed)
  have "on_received_of (ps_session t) = on_channel channel heard"
    unfolding subscribed.hyps(1) by (simp add: on_received_of_def filter_True comp_def)
  with subscribed.IH show ?case by (simp add: subseq_drop_many subseq_append')
qed simp

definition received :: "pubsub_turn list \<Rightarrow> string list" where
  "received ts = fst (snd (subscribe ts))"

lemma received_eq: "\<exists>n. received ts = concat (map (on_received_of \<circ> ps_session) (take n ts))"
proof -
  have "subscribe ts = subscribe_loop (resubscribe_delay 0) ts" using resub.first by (simp add: subscribe_def)
  then show ?thesis by (auto simp: received_def subscribe_loop_eq Let_def)
qed

lemma received_subseq:
  assumes "delivers channel log ts"
  shows "subseq (received ts) (on_channel channel log)"
proof -
  obtain n where n: "received ts = concat (map (on_received_of \<circ> ps_session) (take n ts))"
    using received_eq by blast
  have "concat (map (on_received_of \<circ> ps_session) ts) = received ts @ concat (map (on_received_of \<circ> ps_session) (drop n ts))"
    by (simp add: n flip: concat_append map_append)
  then have "subseq (received ts) (concat (map (on_received_of \<circ> ps_session) ts))"
    by (simp only: subseq_rev_drop_many subseq_order.refl)
  from this delivers_subseq [OF assms] show ?thesis by (rule subseq_order.trans)
qed

section \<open>The notices of a history of requests\<close>

text \<open>The requests that ask for a notice, and the messages of those that were told it went out.\<close>

definition asks_notice :: "request \<Rightarrow> bool" where
  "asks_notice rq \<longleftrightarrow> rq_path rq = ''/api/notice'' \<and> rq_method rq = POST \<and> \<not> is_blank (rq_message rq)"

fun notices_asked :: "('k, 'd, 'r) admin_event \<Rightarrow> string list" where
  "notices_asked (Request e rq) = (if asks_notice rq then [rq_message rq] else [])"
| "notices_asked (Registry_Ops ops) = []"

fun acknowledged :: "('k, 'd, 'r) admin_event list \<Rightarrow> ('k, 'r) admin_state \<Rightarrow> string list" where
  "acknowledged [] st = []"
| "acknowledged (ev # evs) st =
     (case ev of
        Request e rq \<Rightarrow>
          if rq_path rq = ''/api/notice'' \<and> fst (fst (admin_request e rq st)) = NO_CONTENT then [rq_message rq] else []
      | Registry_Ops ops \<Rightarrow> []) @ acknowledged evs (admin_step ev st)"

lemma acknowledged_append: "acknowledged (evs @ evs') st = acknowledged evs st @ acknowledged evs' (admin_run evs st)"
  by (induction evs arbitrary: st) (auto simp: admin_run_def)

text \<open>Where a notice comes from: a request with a key that an administrator's login got, not revoked since.\<close>

definition from_admin :: "('k, 'd, 'r) admin_event list \<Rightarrow> ('k, 'r) admin_state \<Rightarrow> string \<Rightarrow> bool" where
  "from_admin evs st message \<longleftrightarrow>
     (\<exists>before e rq rest key uid earlier e0 rq0 since.
        evs = before @ Request e rq # rest \<and> asks_notice rq \<and> rq_message rq = message \<and>
        rq_session_key rq = Some (Some key) \<and> before = earlier @ Request e0 rq0 # since \<and> admin_grants e0 rq0 key uid \<and>
        \<not> revoked_in key since (admin_run (earlier @ [Request e0 rq0]) st))"

lemma from_admin_snoc: "from_admin evs st message \<Longrightarrow> from_admin (evs @ [ev]) st message"
proof -
  assume "from_admin evs st message"
  then obtain before e rq rest key uid earlier e0 rq0 since where
    a: "evs = before @ Request e rq # rest" "asks_notice rq" "rq_message rq = message" "rq_session_key rq = Some (Some key)"
      "before = earlier @ Request e0 rq0 # since" "admin_grants e0 rq0 key uid"
      "\<not> revoked_in key since (admin_run (earlier @ [Request e0 rq0]) st)"
    unfolding from_admin_def by blast
  from a(1) have "evs @ [ev] = before @ Request e rq # (rest @ [ev])" by simp
  with a(2-) show ?thesis unfolding from_admin_def by blast
qed

lemma notice_dispatch:
  assumes laws: "notice_laws (ae_redis e) published"
  shows "published (as_redis (snd (dispatch e rq st))) = published (as_redis st) \<and>
      (rq_path rq = ''/api/notice'' \<longrightarrow> fst (fst (dispatch e rq st)) \<noteq> NO_CONTENT) \<or>
    asks_notice rq \<and> published (as_redis (snd (dispatch e rq st))) =
      published (as_redis st) @ [(ac_broadcast_channel (ae_config e), rq_message rq)]"
proof (cases "rq_path rq = ''/api/notice''")
  case True
  then have route: "route_of (rq_path rq) = Some Notice_Route" by (simp add: route_of_def)
  obtain x r where p: "kr_publish (ae_redis e) (ac_broadcast_channel (ae_config e)) (rq_message rq) (as_redis st) = (x, r)"
    by fastforce
  with notice_lawsD(4) [OF laws p] route True show ?thesis
    by (cases "rq_rejection rq"; cases x)
      (auto simp: dispatch_def extracted_def admin_notice_def internal_error_def asks_notice_def elim: rejection_status.elims)
next
  case False
  have "published (as_redis (snd (dispatch e rq st))) = published (as_redis st)"
  proof (cases rule: dispatch_cases [of e rq st "[]"])
    case (grant x)
    from notice_lawsD(1) [OF laws grant(1)] show ?thesis .
  next
    case (revoke k x)
    from notice_lawsD(3) [OF laws revoke(3)] show ?thesis .
  next
    case (notice c m x)
    with False show ?thesis by simp
  qed simp
  with False show ?thesis by simp
qed

lemma notice_request:
  assumes laws: "notice_laws (ae_redis e) published"
  obtains (quiet) "published (as_redis (snd (admin_request e rq st))) = published (as_redis st)"
      "rq_path rq = ''/api/notice'' \<Longrightarrow> fst (fst (admin_request e rq st)) \<noteq> NO_CONTENT"
    | (noted) key uid where "asks_notice rq" "rq_session_key rq = Some (Some key)"
      "kr_get (ae_redis e) (ae_now e) (ac_redis_key_prefix (ae_config e) @ key) (as_redis st) = Inr (Some uid)"
      "published (as_redis (snd (admin_request e rq st))) =
        published (as_redis st) @ [(ac_broadcast_channel (ae_config e), rq_message rq)]"
proof (cases rule: admin_request_cases [of rq e st])
  case exempt
  then have "rq_path rq \<noteq> ''/api/notice''" using paths_not_exempt(1) by metis
  with notice_dispatch [OF laws, of rq st] exempt(2) quiet show ?thesis by (auto simp: asks_notice_def)
next
  case refused
  then show ?thesis by (intro quiet) auto
next
  case (failed key x r)
  with notice_lawsD(2) [OF laws failed(3)] show ?thesis by (intro quiet) auto
next
  case (let_in key uid x r)
  have "published r = published (as_redis st)" by (rule notice_lawsD(2) [OF laws let_in(6)])
  with notice_dispatch [OF laws, of rq "st\<lparr>as_redis := r\<rparr>"] let_in(2,3,8) quiet noted show ?thesis by auto
qed

text \<open>What a history publishes: \<open>new\<close>.\<close>

lemma notice_run:
  assumes keys: "key_laws kr entry" and laws: "notice_laws kr published" and "one_api kr cfg evs"
    and start: "\<forall>key. entry (as_redis st0) (ac_redis_key_prefix cfg @ key) = None"
  shows "\<exists>new. published (as_redis (admin_run evs st0)) =
      published (as_redis st0) @ map (Pair (ac_broadcast_channel cfg)) new \<and>
    subseq (acknowledged evs st0) new \<and> subseq new (concat (map notices_asked evs)) \<and>
    (\<forall>m\<in>set new. from_admin evs st0 m)"
  using assms(3)
proof (induction evs rule: rev_induct)
  case Nil
  show ?case by (intro exI [of _ "[]"]) (simp add: admin_run_def)
next
  case (snoc ev evs)
  have api: "one_api kr cfg evs" using snoc.prems by (simp add: one_api_def)
  from snoc.IH [OF api] obtain new where
    log: "published (as_redis (admin_run evs st0)) = published (as_redis st0) @ map (Pair (ac_broadcast_channel cfg)) new"
    and acks: "subseq (acknowledged evs st0) new" and asks: "subseq new (concat (map notices_asked evs))"
    and from_ad: "\<forall>m\<in>set new. from_admin evs st0 m" by blast
  let ?st = "admin_run evs st0"
  have still: "\<forall>m\<in>set new. from_admin (evs @ [ev]) st0 m" using from_ad by (blast intro: from_admin_snoc)
  have keep: ?case if "published (as_redis (admin_step ev ?st)) = published (as_redis ?st)" "acknowledged [ev] ?st = []"
    using that log acks asks still
    by (intro exI [of _ new]) (simp add: acknowledged_append subseq_rev_drop_many del: acknowledged.simps(2))
  show ?case
  proof (cases ev)
    case (Registry_Ops ops)
    then show ?thesis by (intro keep) (auto split: prod.splits)
  next
    case (Request e rq)
    have e: "ae_redis e = kr" "ae_config e = cfg" using snoc.prems Request by (simp_all add: one_api_def)
    from laws have "notice_laws (ae_redis e) published" by (simp add: e)
    then show ?thesis
    proof (cases rule: notice_request [of e published rq ?st])
      case quiet
      with Request show ?thesis by (intro keep) auto
    next
      case (noted key uid)
      from key_lawsD(1) [OF keys] noted(3) obtain d
        where "entry (as_redis ?st) (ac_redis_key_prefix cfg @ key) = Some (uid, d)"
        by (fastforce simp: key_live_def e split: option.splits if_splits)
      from admin_run_keys [OF keys api start this] obtain earlier e0 rq0 since where
        "evs = earlier @ Request e0 rq0 # since" "admin_grants e0 rq0 key uid"
        "\<not> revoked_in key since (admin_run (earlier @ [Request e0 rq0]) st0)"
        by (auto simp: key_accounted_def)
      then have "from_admin (evs @ [ev]) st0 (rq_message rq)"
        unfolding from_admin_def Request using noted(1,2) by blast
      moreover have "subseq (acknowledged (evs @ [ev]) st0) (new @ [rq_message rq])"
        using acks Request by (auto simp: acknowledged_append intro: subseq_rev_drop_many list_emb_append_mono)
      moreover have "subseq (new @ [rq_message rq]) (concat (map notices_asked (evs @ [ev])))"
        using asks noted(1) Request by simp
      ultimately show ?thesis using log still noted(4) Request e
        by (intro exI [of _ "new @ [rq_message rq]"]) simp
    qed
  qed
qed

section \<open>From the administrator to the servers\<close>

text \<open>
  C16. Notices reach the servers as they were sent, and come from administrators only. If only the admin
  API publishes on the channel, what a server's subscription hands on is, in order and each once, a
  selection of the messages the API was asked to send, whatever Redis fails to do and however often
  the subscription is lost; each was asked for with a key that an administrator's login got and
  that was not revoked since; and a subscription that is never lost hands on every notice that was
  answered with 204.
\<close>

theorem notices_are_authentic:
  assumes "key_laws kr entry" "notice_laws kr published" and "one_api kr cfg evs"
    and "\<forall>key. entry (as_redis st0) (ac_redis_key_prefix cfg @ key) = None" and "published (as_redis st0) = []"
    and "delivers (ac_broadcast_channel cfg) (published (as_redis (admin_run evs st0))) ts"
  shows "subseq (fst (snd (subscribe ts))) (concat (map notices_asked evs)) \<and>
    (\<forall>m\<in>set (fst (snd (subscribe ts))). from_admin evs st0 m) \<and>
    (\<forall>t. ps_session t = Subscribed (map Some (on_channel (ac_broadcast_channel cfg) (published (as_redis (admin_run evs st0))))) \<longrightarrow>
      subseq (acknowledged evs st0) (fst (snd (subscribe [t]))))"
proof -
  from notice_run [OF assms(1-4)] assms(5) obtain new where
    log: "published (as_redis (admin_run evs st0)) = map (Pair (ac_broadcast_channel cfg)) new"
    and new: "subseq (acknowledged evs st0) new" "subseq new (concat (map notices_asked evs))"
      "\<forall>m\<in>set new. from_admin evs st0 m" by auto
  from received_subseq [OF assms(6)] have sub: "subseq (fst (snd (subscribe ts))) new" by (simp add: log received_def)
  have "fst (snd (subscribe [t])) = new" if "ps_session t = Subscribed (map Some new)" for t
    using that by (simp add: subscribe_def Let_def on_received_of_def filter_True comp_def)
  moreover from sub new(3) have "\<forall>m\<in>set (fst (snd (subscribe ts))). from_admin evs st0 m"
    using subseq_order.trans [OF _ sub] by (meson subseq_singleton_left)
  ultimately show ?thesis using subseq_order.trans [OF sub new(2)] new(1) by (simp add: log)
qed

text \<open>A Redis that keeps a log of what was published: an administrator logs in and sends a notice.\<close>

type_synonym log_redis = "(string \<rightharpoonup> string \<times> instant) \<times> (string \<times> string) list"

definition log_key_redis :: "log_redis key_redis" where
  "log_key_redis =
     \<lparr>kr_set_ex = (\<lambda>now k v secs (r, log). (Inr (), r(k \<mapsto> (v, now + from_secs (unat secs))), log)),
      kr_get = (\<lambda>now k (r, log). Inr (key_live (\<lambda>r. r) now k r)),
      kr_expire = (\<lambda>now k secs (r, log). (Inr (), renewed now k secs r, log)),
      kr_del = (\<lambda>now k (r, log). (Inr (), r(k := None), log)),
      kr_publish = (\<lambda>c m (r, log). (Inr (), r, log @ [(c, m)])),
      kr_ping = (\<lambda>r. Inr ''PONG'')\<rparr>"

lemma log_key_redis_laws [simp]: "key_laws log_key_redis fst" "notice_laws log_key_redis snd"
  by (auto simp: key_laws_def notice_laws_def log_key_redis_def key_live_def split: prod.splits)

definition log_env :: "instant \<Rightarrow> (unit, log_redis) admin_env" where
  "log_env now =
     \<lparr>ae_config = sample_admin_config, ae_crypto = toy_crypto, ae_mysql = sample_admin_mysql,
      ae_redis = log_key_redis, ae_percent_decode = Some, ae_db = (), ae_now = now, ae_started_at = 0,
      ae_random_key = ''k'', ae_joined = True, ae_stats = stats_zero, ae_f64 = sample_f64,
      ae_process = None\<rparr>"

definition log_state :: "log_redis \<Rightarrow> (nat, log_redis) admin_state" where
  "log_state r = \<lparr>as_registry = registry_default, as_cancelled = {}, as_redis = r, as_metrics = sample_metrics\<rparr>"

definition notice_calls :: "(nat, unit, log_redis) admin_event list" where
  "notice_calls =
     [Request (log_env 0) (sample_request POST ''/api/auth/login'' None),
      Request (log_env 1) ((sample_request POST ''/api/notice'' (Some (Some ''k'')))\<lparr>rq_message := ''hi''\<rparr>)]"

lemma log_login:
  "admin_request (log_env 0) (sample_request POST ''/api/auth/login'' None) (log_state (Map.empty, [])) =
    ((OK, LoginBody ''k'' 1), log_state ([''s:k'' \<mapsto> (''a'', from_secs 60)], []))"
proof -
  have "\<not> is_blank ''a''" by code_simp
  then show ?thesis using sample_admin_password
    by (simp add: admin_request_def require_session_key_def exempt_login dispatch_def route_of_def
        extracted_def admin_login_def key_issue_def log_env_def sample_request_def sample_admin_config_def
        sample_admin_mysql_def log_key_redis_def log_state_def key_ttl_def of_char_of)
qed

lemma log_notice:
  "\<exists>r. admin_request (log_env 1) ((sample_request POST ''/api/notice'' (Some (Some ''k'')))\<lparr>rq_message := ''hi''\<rparr>)
      (log_state ([''s:k'' \<mapsto> (''a'', from_secs 60)], [])) = ((NO_CONTENT, NoBody), log_state (r, [(''c'', ''hi'')]))"
proof -
  have "\<not> is_blank ''hi''" by code_simp
  moreover have "sint (60 :: u64) = 60" by simp
  moreover have "1 < from_secs 60" by (simp add: from_secs_def)
  ultimately show ?thesis
    by (simp add: admin_request_def require_session_key_def paths_not_exempt dispatch_def route_of_def
        extracted_def admin_notice_def key_validate_def log_env_def sample_request_def sample_admin_config_def
        log_key_redis_def log_state_def key_ttl_def unwrap_or_def key_live_def Let_def)
qed

lemma notice_calls_run:
  "published_log = as_redis (admin_run notice_calls (log_state (Map.empty, []))) \<Longrightarrow> snd published_log = [(''c'', ''hi'')]"
  "acknowledged notice_calls (log_state (Map.empty, [])) = [''hi'']"
  using log_notice log_login
  by (auto simp: notice_calls_def admin_run_def log_state_def sample_request_def)

theorem notices_are_authentic_witness:
  "fst (snd (subscribe [\<lparr>ps_session = Subscribed [Some ''hi''], ps_shutdown_in_session = False,
      ps_shutdown_in_sleep = True\<rparr>])) = [''hi''] \<and>
    from_admin notice_calls (log_state (Map.empty, [])) ''hi''"
proof -
  let ?t = "\<lparr>ps_session = Subscribed [Some ''hi''], ps_shutdown_in_session = False, ps_shutdown_in_sleep = True\<rparr>"
  have "delivers ''c'' (snd (as_redis (admin_run notice_calls (log_state (Map.empty, []))))) [?t]"
    unfolding notice_calls_run(1) [OF refl]
    using delivers.subscribed [of ?t "''c''" "[(''c'', ''hi'')]" "[]" "[]" "[]"] delivers.over [of "''c''" "[]"]
    by (simp add: on_channel_def)
  then have "\<forall>m\<in>set (fst (snd (subscribe [?t]))). from_admin notice_calls (log_state (Map.empty, [])) m"
    using notices_are_authentic [of log_key_redis fst snd sample_admin_config notice_calls "log_state (Map.empty, [])" "[?t]"]
    by (simp add: log_state_def notice_calls_def one_api_def log_env_def sample_admin_config_def)
  then show ?thesis by (simp add: subscribe_def on_received_of_def)
qed

end
