(* ===== verification/Config_Load.thy ===== *)
theory Config_Load
  imports Startup Client_Program "HOL-Library.Sublist"
begin

text \<open>
  \<open>load\<close> of \<open>crates/net/src/config.rs\<close>, which \<open>main\<close> of all three programs starts with: defaults, then the
  file, then the environment. figment and serde are libraries: how they read and merge is a parameter.
\<close>

text \<open>
  \<open>'t\<close> is the configuration of a program, \<open>'f\<close> a \<open>Figment\<close> or what is merged into one, \<open>fs\<close> the text of the files
  and \<open>vars\<close> the environment. \<open>fg_blank\<close> observes that a source has no keys at all.
\<close>

type_synonym environment = "string \<Rightarrow> string option"

record ('t, 'f) figment =
  fg_defaults :: "'t \<Rightarrow> 'f"
  fg_toml_file :: "(string \<Rightarrow> string option) \<Rightarrow> string \<Rightarrow> 'f"
  fg_env :: "environment \<Rightarrow> string \<Rightarrow> string list \<Rightarrow> string \<Rightarrow> 'f"
  fg_merge :: "'f \<Rightarrow> 'f \<Rightarrow> 'f"
  fg_extract :: "'f \<Rightarrow> 't option"
  fg_blank :: "'f \<Rightarrow> bool"

text \<open>\<open>APP_CONFIG\<close> names the file; as a setting it is ignored.\<close>

definition load :: "('t, 'f) figment \<Rightarrow> (string \<Rightarrow> string option) \<Rightarrow> environment \<Rightarrow> 't \<Rightarrow> 't option" where
  "load fg fs vars t =
     (let path = unwrap_or (vars ''APP_CONFIG'') ''config.toml'' in
      fg_extract fg
        (fg_merge fg
          (fg_merge fg (fg_defaults fg t) (fg_toml_file fg fs path))
          (fg_env fg vars ''APP_'' [''config''] ''__'')))"

text \<open>
  What the documentation of figment says of sources without keys: a file that is not there is one, so is an
  environment without a variable that has the prefix, whatever the case of its letters, and is not ignored;
  merging one changes nothing. What serde writes it reads back.
\<close>

definition setting_of :: "string \<Rightarrow> string list \<Rightarrow> string \<Rightarrow> bool" where
  "setting_of pfx ignored name \<longleftrightarrow>
     prefix (map ascii_lower pfx) (map ascii_lower name) \<and> map ascii_lower (drop (length pfx) name) \<notin> set ignored"

definition figment_laws :: "('t, 'f) figment \<Rightarrow> bool" where
  "figment_laws fg \<longleftrightarrow>
     (\<forall>t. fg_extract fg (fg_defaults fg t) = Some t) \<and>
     (\<forall>f g. fg_blank fg g \<longrightarrow> fg_merge fg f g = f) \<and>
     (\<forall>fs path. fs path = None \<longrightarrow> fg_blank fg (fg_toml_file fg fs path)) \<and>
     (\<forall>vars pfx ignored sep. (\<forall>name. setting_of pfx ignored name \<longrightarrow> vars name = None) \<longrightarrow>
        fg_blank fg (fg_env fg vars pfx ignored sep))"

text \<open>Nothing configured: no variable but \<open>APP_CONFIG\<close>, and the file it names, or \<open>config.toml\<close>, is not there.\<close>

definition unconfigured :: "(string \<Rightarrow> string option) \<Rightarrow> environment \<Rightarrow> bool" where
  "unconfigured fs vars \<longleftrightarrow>
     (\<forall>name. setting_of ''APP_'' [''config''] name \<longrightarrow> vars name = None) \<and>
     fs (unwrap_or (vars ''APP_CONFIG'') ''config.toml'') = None"

lemma load_unconfigured:
  assumes "figment_laws fg" "unconfigured fs vars"
  shows "load fg fs vars t = Some t"
  using assms by (simp add: load_def figment_laws_def unconfigured_def)

section \<open>The programs with their configuration\<close>

type_synonym login_config_root = "database_config \<times> login_server_config"

type_synonym game_config_root = "database_config \<times> game_server_config"

type_synonym client_config_root = "database_config \<times> dummy_client_config"

definition login_program :: "(login_config_root, 'f) figment \<Rightarrow> (string \<Rightarrow> string option) \<Rightarrow>
    environment \<Rightarrow> main_calls \<Rightarrow> startup_error + login_running" where
  "login_program fg fs vars mc =
     login_main mc (load fg fs vars (database_config_default, login_server_config_default))"

definition game_program :: "(game_config_root, 'f) figment \<Rightarrow> (string \<Rightarrow> string option) \<Rightarrow>
    environment \<Rightarrow> main_calls \<Rightarrow> startup_error + game_running" where
  "game_program fg fs vars mc =
     game_main mc (load fg fs vars (database_config_default, game_server_config_default))"

definition client_program :: "(client_config_root, 'f) figment \<Rightarrow> (string \<Rightarrow> string option) \<Rightarrow> environment \<Rightarrow>
    crypto \<Rightarrow> 'd seed_mysql \<Rightarrow> nat \<Rightarrow> (nat \<Rightarrow> bytes) \<Rightarrow> (nat \<Rightarrow> bool) \<Rightarrow> program_calls \<Rightarrow>
    (nat \<Rightarrow> connect_turn) \<Rightarrow> string list \<Rightarrow> 'd \<Rightarrow> program_run \<times> 'd" where
  "client_program fg fs vars cr db threads salts joined pk turn args =
     client_main cr db threads salts joined pk turn args
       (load fg fs vars (database_config_default, dummy_client_config_default))"

text \<open>The client that nobody configured connects to GameServer where the server that nobody configured listens.\<close>

lemma client_program_unconfigured:
  assumes "figment_laws fg" "unconfigured fs vars" "''--seed'' \<notin> set args"
  shows "\<exists>settings actions raw. client_program fg fs vars cr db threads salts joined pk turn args d =
      (Connected settings actions raw, d) \<and>
    cs_game_server settings = ''127.0.0.1:'' @ u64_to_string (ucast (gv_port game_server_config_default))"
proof -
  have "u64_to_string (ucast (gv_port game_server_config_default)) = ''9001''"
  proof -
    have "unat (ucast (9001 :: u16) :: u64) = 9001" by simp
    moreover have "dec_digits 9001 = ''9001''" by (simp add: dec_digits.simps digit_char_def char_of_def bit_0)
    ultimately show ?thesis by (simp only: game_server_config_default_def game_server_config.simps u64_to_string_def)
  qed
  moreover have "\<not> list_ex (\<lambda>a. a = ''--seed'') args" using assms(3) by (auto simp: list_ex_iff)
  ultimately show ?thesis
    by (simp add: client_program_def load_unconfigured [OF assms(1,2)] client_main_def Let_def dummy_client_config_default_def)
qed

lemma game_main_running:
  "game_main mc (Some (db, c)) = Inr run \<Longrightarrow>
    gr_auth_token_prefix run = gv_auth_token_prefix c \<and> gr_channel run = dc_broadcast_channel db \<and>
    gr_port run = gv_port c"
  by (auto simp: game_main_def split: if_splits)

lemma login_main_running:
  assumes "login_main mc (Some (db, c)) = Inr run"
  shows "lr_backend run = \<lparr>lc_auth_token_prefix = lv_auth_token_prefix c,
      lc_auth_token_ttl_seconds = lv_auth_token_ttl_seconds c\<rparr> \<and>
    lr_channel run = dc_broadcast_channel db \<and> lr_port run = lv_port c"
  using assms by (auto simp: login_main_def Let_def split: if_splits sum.splits)

text \<open>
  Servers that nobody configured fit together: if both come up, wherever they run, GameServer looks tokens up
  under the prefix LoginServer stores them with, both hear the notices of the admin API, no port is used
  twice, and no administrator can log in.
\<close>

theorem unconfigured_servers_fit:
  assumes "figment_laws fg" "figment_laws fg'" "unconfigured fs vars" "unconfigured fs' vars'"
    and "login_program fg fs vars mc = Inr l" "game_program fg' fs' vars' mc' = Inr g"
  shows "gr_auth_token_prefix g = lc_auth_token_prefix (lr_backend l) \<and>
    lc_auth_token_ttl_seconds (lr_backend l) = 60 \<and> gr_channel g = lr_channel l \<and> gr_port g \<noteq> lr_port l \<and>
    (\<exists>api listener. lr_admin l = Some (api, listener) \<and> ac_broadcast_channel (ai_config api) = lr_channel l \<and>
       ac_admins (ai_config api) = [] \<and> listener = Http 9010 \<and> 9010 \<notin> {lr_port l, gr_port g})"
proof -
  have l: "login_main mc (Some (database_config_default, login_server_config_default)) = Inr l"
    and g: "game_main mc' (Some (database_config_default, game_server_config_default)) = Inr g"
    using assms(5,6) by (simp_all add: login_program_def game_program_def load_unconfigured assms(1-4))
  note defaults = login_server_config_default_def game_server_config_default_def admin_api_config_default_def
  obtain api listener where api: "lr_admin l = Some (api, listener)"
    using login_main_admin_first(1) [OF l] by (auto simp: defaults)
  from login_main_admin_first(2) [OF l api] have "listener = Http 9010" "ac_admins (ai_config api) = []"
    "ac_broadcast_channel (ai_config api) = lr_channel l"
    by (auto simp: defaults admin_start_def admin_state_new_def split: if_splits)
  with api login_main_running [OF l] game_main_running [OF g] show ?thesis by (auto simp: defaults)
qed

text \<open>A figment that reads nothing, and library calls that succeed.\<close>

definition deaf_figment :: "('t, 't option) figment" where
  "deaf_figment =
     \<lparr>fg_defaults = Some, fg_toml_file = (\<lambda>_ _. None), fg_env = (\<lambda>_ _ _ _. None),
      fg_merge = (\<lambda>f g. if g = None then f else g), fg_extract = (\<lambda>f. f), fg_blank = (\<lambda>f. f = None)\<rparr>"

lemma deaf_figment_laws: "figment_laws deaf_figment"
  by (simp add: figment_laws_def deaf_figment_def)

definition willing_calls :: main_calls where
  "willing_calls =
     \<lparr>mc_mysql_pool = (\<lambda>_ _. True), mc_redis_open = (\<lambda>_. True), mc_redis_manager = True,
      mc_process = sample_process,
      mc_admin = \<lparr>cl_bind = (\<lambda>_. True), cl_set_nonblocking = True, cl_pem = (\<lambda>_ _. True), cl_from_tcp = True\<rparr>,
      mc_bind = (\<lambda>_. True)\<rparr>"

theorem unconfigured_servers_fit_witness:
  "\<exists>l g. login_program deaf_figment (\<lambda>_. None) (\<lambda>_. None) willing_calls = Inr l \<and>
    game_program deaf_figment (\<lambda>_. None) (\<lambda>_. None) willing_calls = Inr g \<and>
    gr_auth_token_prefix g = lc_auth_token_prefix (lr_backend l)"
proof -
  have none: "unconfigured (\<lambda>_. None) (\<lambda>_. None)" by (simp add: unconfigured_def)
  note loads = load_unconfigured [OF deaf_figment_laws none]
  obtain l where l: "login_program deaf_figment (\<lambda>_. None) (\<lambda>_. None) willing_calls = Inr l"
    by (simp add: login_program_def loads login_main_def willing_calls_def admin_start_def Let_def
        login_server_config_default_def admin_api_config_default_def database_config_default_def)
  obtain g where g: "game_program deaf_figment (\<lambda>_. None) (\<lambda>_. None) willing_calls = Inr g"
    by (simp add: game_program_def loads game_main_def willing_calls_def
        game_server_config_default_def database_config_default_def)
  show ?thesis using unconfigured_servers_fit [OF deaf_figment_laws deaf_figment_laws none none l g] l g by blast
qed

end
