(* ===== verification/Spec2Isabelle.thy ===== *)
theory Spec2Isabelle
  imports Prelude Proto Proto_Instance Stats Codec Acceptor Registry Outbox Session_Core Auth_Token
    Password Token_Store Game_Session Login_Session Retry Server Backends Admin
    Admin_Keys Admin_Server Client Client_Game Client_Login Client_Main Seeder Writer_Close Startup Deployment Metrics
    Host Tasks Hash_Limiter Provenance System Protocol_Types Shutdown Keep_Alive Client_Program
    Recency Notices Config_Load
begin

text \<open>
  A verification development for the game server workspace: LoginServer and GameServer, the network
  layer they share, and the stores they meet in.

  \<^bold>\<open>The program.\<close> A client connects to LoginServer (port 9000), is greeted with \<open>ConnectedResponse\<close>,
  sends its user id and the SHA-256 of its password, and gets a one-time token. It then connects to
  GameServer (port 9001) and shows the token there. The servers share nothing but Redis: LoginServer
  writes \<open>auth:token:<token>\<close> with the value \<open><account>:<user>\<close> and a time to live, GameServer takes it
  with a GET and DEL script. In both servers a connection is one task that owns its session; next to
  it a writer task empties its send queue, and store work runs in spawned tasks that report to the
  session's inner channel. Sessions meet only in the registry, which tells an older session of the
  same user to go. LoginServer also has an HTTP API for administrators.

  \<^bold>\<open>The theories,\<close> in the order of their dependencies (paths under \<open>crates/\<close>):
    \<^item> \<open>Prelude\<close>: machine integers, time in nanoseconds, hash maps, and \<open>net/src/consts.rs\<close>.
    \<^item> \<open>Proto\<close>: the messages of \<open>proto/proto/message.proto\<close> as a datatype, and prost, the generated
      protobuf code, as a parameter with the laws its documentation states (decoding an encoding gives
      the message, \<open>encoded_len\<close> is the length). \<open>Proto_Instance\<close> has an encoding with these laws, so that
      the hypotheses can be met; it is not protobuf and no property is about it.
    \<^item> \<open>Stats\<close>: \<open>net/src/stats.rs\<close> and \<open>session_id.rs\<close>; \<open>Metrics\<close>: \<open>monitor.rs\<close>, the CPU and memory samples
      and the loop that logs.
    \<^item> \<open>Codec\<close>: \<open>net/src/codec.rs\<close>, under the reading loop of tokio's \<open>FramedRead\<close>.
    \<^item> \<open>Acceptor\<close>: \<open>net/src/acceptor.rs\<close>, the accept loop and the flood guard.
    \<^item> \<open>Registry\<close>: \<open>net/src/registry.rs\<close>; cancelling a kick token is a value the operations return.
    \<^item> \<open>Outbox\<close>: \<open>net/src/outbox.rs\<close>, the bounded send queue and the writer task.
    \<^item> \<open>Session_Core\<close>: the event loop the sessions of both servers have in common.
    \<^item> \<open>Auth_Token\<close>: the value behind a token, written by \<open>login_server/src/backend.rs\<close> and read by
      \<open>parse_token_value\<close> in \<open>game_server/src/session.rs\<close>.
    \<^item> \<open>Password\<close>: \<open>db/src/password.rs\<close> over SHA-256, PBKDF2 and Base64 as parameters.
    \<^item> \<open>Token_Store\<close>: the two Redis operations on tokens, over Redis as a parameter with the documented
      effect of its commands.
    \<^item> \<open>Game_Session\<close> and \<open>Login_Session\<close>: \<open>session.rs\<close> of the two servers, handler by handler.
    \<^item> \<open>Retry\<close>: the two loops with exponential backoff, \<open>record_logout\<close> and \<open>subscribe\<close>
      (\<open>db/src/broadcast.rs\<close>).
    \<^item> \<open>Server\<close>: \<open>serve\<close> of the two servers, as a step relation over the running sessions.
    \<^item> \<open>Backends\<close>: the trait implementations over MySQL and Redis, and the hand-over between the
      servers.
    \<^item> \<open>Writer_Close\<close>: \<open>Writer::close\<close>, the writer against the clock when a session ends.
    \<^item> \<open>Admin\<close>: \<open>login_server/src/admin\<close>, the session keys, every endpoint, the router and its
      middleware. \<open>Admin_Keys\<close> has the life of the keys over histories of requests, \<open>Admin_Server\<close> the
      requests that look at or end the sessions of a reachable LoginServer; \<open>Notices\<close> follows a notice
      from its request over a channel of Redis to the servers that subscribe.
    \<^item> \<open>Startup\<close>: the configurations and their defaults, \<open>main\<close> of the servers up to the signal that stops
      them, and the two uses of the one Redis. \<open>Config_Load\<close>: \<open>net/src/config.rs\<close>, and the programs with what
      it loads.
    \<^item> \<open>Host\<close>: a server with the tasks its sessions spawn and their bounded inner channels; \<open>Tasks\<close>: what
      these tasks do from one await to the next (\<open>authenticate\<close> with the semaphore it holds, the two of
      GameServer) and the session contexts; \<open>Hash_Limiter\<close>: the permits of that semaphore.
    \<^item> \<open>Provenance\<close>: where the work, the messages and the accounts in a host come from, as invariants over
      its events. \<open>System\<close>: both servers over one MySQL, one Redis and one clock; \<open>Recency\<close>:
      the age of the tokens in it. \<open>Protocol_Types\<close>: which messages each server may say.
    \<^item> \<open>Shutdown\<close>: from the cancelled shutdown token to the return of \<open>serve\<close>, and of \<open>main\<close>.
    \<^item> \<open>Client\<close>, \<open>Client_Main\<close>, \<open>Seeder\<close>: \<open>dummy_client\<close>, one client and the shared counters, the loop that
      connects the clients and the keyboard, and the creation of the accounts. \<open>Client_Login\<close> and
      \<open>Client_Game\<close> put the client and a session of either server together, as step relations, and \<open>Deployment\<close> has
      the way of an account from the seeder to a login. \<open>Keep_Alive\<close> adds time to \<open>Client_Game\<close>: a step happens
      at a time, and time passes only as far as no message and no tick is overdue. \<open>Client_Program\<close>: the
      configuration and \<open>main\<close> of the load test.

  \<^bold>\<open>Correspondence.\<close> A struct is a record, an enum a datatype; a method takes the state and returns the
  new one with its result. \<open>Result\<close> is a sum with the error on the left, \<open>ControlFlow\<close> the datatype
  \<open>control_flow\<close>. Integers have their width, floats are their 32 bits (the servers only copy them; the
  addition in the client is a parameter).
  Time is a natural number of nanoseconds and an argument of what reads the clock. Strings are lists
  of bytes. What happens while a task awaits (other tasks using the registry, the writer
  draining the queue, results arriving) is data: a \<open>poll\<close> for each wake-up of a session, a turn for each
  round of a retry loop. A property over all lists of them is a property over all schedules. In \<open>Host\<close> and
  \<open>System\<close> results no longer just arrive: the tasks run, and a run has the list of its events, so that a
  property can say what happened before.

  \<^bold>\<open>Interfaces.\<close> \<open>session_directory\<close> (what a registry promises), \<open>session_actor\<close> and
  \<open>identified_actor\<close> (what the handlers of a session promise the loop), \<open>connection_server\<close> (a server
  of such sessions), \<open>token_service\<close> (one-time tokens) and \<open>capped_backoff\<close> are locales, each
  interpreted on the definitions that model the code.

  \<^bold>\<open>What is shown.\<close> The codec: round trip through arbitrary read boundaries, the exact error condition, the
  bound on buffered bytes. The send path: what the queue accepts arrives in order. The flood guard: it is
  equivalent to one private limiter per address, with no limit on the exempt ones, and the limiter's bounds. The registry and the
  servers: of two sessions of one user at most one lives, in every reachable state. The sessions: the
  conversation on every message, authentication before anything else, the keep-alive timeout, the
  limit on login attempts, each error code. The stores: a token is taken at most once and with its
  value, lasts as long as it should, and hands the account over to GameServer. The retry loops: they
  end exactly when they should, with the delays written out. The admin API: behind the middleware
  only the keys of administrators work, they slide and are revoked as they should, no request
  touches the tokens, notices reach the servers as they were sent, and listing and disconnecting agree with the sessions that run. The client:
  neither server ever refuses it, it is heard of within the timeout, its token is that of its own
  login, its counters are right, and the accounts it needs are seeded so that they verify. The whole
  system: GameServer's accounts and LoginServer's logins agree, one session for one login and no later than the token lasts, and every row
  written to the score table was reported by the client it is credited to; password checks never exceed the permits, no task waits for ever, every
  message a server sends has the type its side of the protocol gives it, and a server that is told
  to stop does so in a bounded number of steps. A client that is punctual is not timed out.

  \<^bold>\<open>Bounds and fuel.\<close> \<open>record_logout\<close> need not end and has fuel, one unit per attempt; the property says
  which fuel is enough. \<open>drain\<close> in \<open>Codec\<close> has the buffer's length as fuel, and every turn consumes at
  least the header. All other loops are recursions over the list of what happens to them.

  \<open>run_task\<close> has as fuel the steps of a task, and five are shown to be enough.

  \<^bold>\<open>Not modelled.\<close> Sockets and TLS, logging, the terminal mode, the schema and connection pools: the sources only
  call libraries for them. figment, sysinfo and the arithmetic of floats are parameters too. The semaphore before the
  password check is tokio's, a parameter with its documented behaviour; the check itself may fail to
  run, which is an argument. The unbiased \<open>select!\<close> of the dummy client may put its shutdown off, so no
  bound is stated on the end of its clients. Overflow of the 64-bit session and packet counters wraps
  here as in the code; the server relation stops accepting before an id would repeat.
\<close>

end
